(* ===== verification/Prelude.thy ===== *)
theory Prelude
  imports Main "HOL-Library.Word"
begin

text \<open>
  Shared vocabulary of the development: the machine integers of
  \<^verbatim>\<open>kernel/config.h\<close>, the faults with which a kernel routine can fail to return, the
  result type that carries them, and the generic lemmas on words, pointer chains and
  indexed arrays that the component theories use.

  The kernel is compiled with \<^verbatim>\<open>-m32\<close>, so \<^verbatim>\<open>unsigned long\<close> (the type behind
  \<^verbatim>\<open>uint64\<close> in \<^verbatim>\<open>config.h\<close>) is 32 bits wide; \<open>uint64\<close> below follows the compiler.
\<close>

unbundle bit_operations_syntax

section \<open>Machine integers (kernel/config.h)\<close>

type_synonym uint8 = "8 word"
type_synonym uint16 = "16 word"
type_synonym uint32 = "32 word"
type_synonym uint64 = "32 word"
type_synonym pid_t = uint32
type_synonym ptr = uint32

abbreviation (input) PAGE_SHIFT :: nat where "PAGE_SHIFT \<equiv> 12"
abbreviation (input) PAGE_SIZE :: uint32 where "PAGE_SIZE \<equiv> 4096"
abbreviation (input) MAX_CPU :: nat where "MAX_CPU \<equiv> 8"
abbreviation (input) ADDR_BASE :: uint32 where "ADDR_BASE \<equiv> 0xC0000000"
abbreviation (input) LAPIC_BASE :: uint32 where "LAPIC_BASE \<equiv> 0xFEE00000"
abbreviation (input) IOAPIC_BASE :: uint32 where "IOAPIC_BASE \<equiv> 0xFEC00000"
abbreviation (input) PAGES :: nat where "PAGES \<equiv> 1048576"

section \<open>Faults and results\<close>

text \<open>
  A C routine either returns or it does not: it spins for ever on a lock or in a loop, it
  indexes an array outside its bounds, it follows a null pointer, the MMU raises a page
  fault, or the calling thread has to wait for another one. Each of these is a value of \<open>fault\<close>, so that ``the code returns'' is the
  statement that the result is \<open>Inr\<close>.
\<close>

datatype fault = Diverges | OutOfBounds | NullPointer | PageFault | Blocks

definition VIRT_TO_PHYS :: "uint32 \<Rightarrow> uint32" where
  "VIRT_TO_PHYS x = x - ADDR_BASE"

type_synonym 'a res = "fault + 'a"

definition bindE :: "'a res \<Rightarrow> ('a \<Rightarrow> 'b res) \<Rightarrow> 'b res" where
  "bindE m f = (case m of Inl e \<Rightarrow> Inl e | Inr x \<Rightarrow> f x)"

named_theorems res_simps \<open>evaluation of sequenced results\<close>
named_theorems frame_simps \<open>what an operation leaves unchanged\<close>

lemma bindE_Inr [simp, res_simps]: "bindE (Inr x) f = f x"
  by (simp add: bindE_def)

lemma bindE_Inl [simp, res_simps]: "bindE (Inl e) f = Inl e"
  by (simp add: bindE_def)

lemma bindE_eq_Inr [res_simps]: "bindE m f = Inr y \<longleftrightarrow> (\<exists>x. m = Inr x \<and> f x = Inr y)"
  by (cases m) simp_all

lemma bindE_assoc: "bindE (bindE m f) g = bindE m (\<lambda>x. bindE (f x) g)"
  by (cases m) simp_all

lemma bindE_cong [fundef_cong]:
  "m = m' \<Longrightarrow> (\<And>x. m' = Inr x \<Longrightarrow> f x = f' x) \<Longrightarrow> bindE m f = bindE m' f'"
  by (cases m') simp_all

text \<open>An optional result of a loop: \<open>None\<close> means that the loop never ends.\<close>

definition of_loop :: "'a option \<Rightarrow> 'a res" where
  "of_loop m = (case m of None \<Rightarrow> Inl Diverges | Some x \<Rightarrow> Inr x)"

lemma of_loop_simps [simp, res_simps]: "of_loop None = Inl Diverges" "of_loop (Some x) = Inr x"
  by (simp_all add: of_loop_def)

section \<open>Words\<close>

lemma unat32_less: "unat (x :: uint32) < 4294967296"
  using unsigned_less [of x] by simp

lemma unat_div_4096 [simp]: "unat ((x :: uint32) div 4096) = unat x div 4096"
  by (simp add: unat_div)

lemma bit_single: "bit (2 ^ k :: uint32) n \<longleftrightarrow> n = k \<and> k < 32"
  by (auto simp: bit_exp_iff)

lemma div_mod_nat_eqI: "p div 32 = q div 32 \<Longrightarrow> p mod 32 = q mod 32 \<Longrightarrow> p = (q :: nat)"
  by (metis div_mult_mod_eq)

lemma word_eq_0_iff_bits: "(w :: uint32) = 0 \<longleftrightarrow> (\<forall>n < 32. \<not> bit w n)"
  by (auto intro!: bit_word_eqI)

subsection \<open>Page-aligned words\<close>

lemma page_mask: "(0xFFFFF000 :: uint32) = NOT (mask 12)" "(0xFFF :: uint32) = mask 12"
  by (simp_all add: mask_eq_exp_minus_1)

lemma unat_page_offset: "unat ((w :: uint32) AND 0xFFF) = unat w mod 4096"
  by (simp add: page_mask(2) flip: take_bit_eq_mask) (simp add: take_bit_eq_mod unat_mod)

lemma unat_page_base: "unat ((w :: uint32) AND 0xFFFFF000) = 4096 * (unat w div 4096)"
proof -
  have "w AND NOT (mask 12) = push_bit 12 (drop_bit 12 w)"
    by (rule bit_word_eqI) (auto simp: bit_simps)
  then have "w AND 0xFFFFF000 = 4096 * (w div 4096)"
    by (simp only: page_mask(1)) (simp add: push_bit_eq_mult drop_bit_eq_div mult.commute)
  moreover have "4096 * (unat w div 4096) < 4294967296"
    using unat32_less [of w] by (metis div_mult_mod_eq le_add1 mult.commute order_le_less_trans)
  ultimately show ?thesis by (simp add: unat_word_ariths)
qed

definition page_aligned :: "uint32 \<Rightarrow> bool" where
  "page_aligned a \<longleftrightarrow> unat a mod 4096 = 0"

lemma page_aligned_base [simp]: "page_aligned (w AND 0xFFFFF000)"
  by (simp add: page_aligned_def unat_page_base)

lemma page_aligned_0 [simp]: "page_aligned 0"
  by (simp add: page_aligned_def)

lemma page_base_aligned: "page_aligned a \<Longrightarrow> a AND 0xFFFFF000 = a"
  using div_mult_mod_eq [of "unat a" 4096] by (simp add: page_aligned_def unat_page_base word_unat_eq_iff)

lemma unat_page_slot:
  assumes "page_aligned b" "unat off < 4096"
  shows "unat (b + off) = unat b + unat off"
proof -
  obtain k where k: "unat b = 4096 * k" using assms(1) by (auto simp: page_aligned_def)
  have "k < 1048576" using unat32_less [of b] k by simp
  then have "unat b + unat off < 4294967296" using assms(2) k by simp
  then show ?thesis by (simp add: unat_word_ariths)
qed

lemma page_slot_eq_iff:
  assumes "page_aligned b" "page_aligned c" "unat x < 4096" "unat y < 4096"
  shows "b + x = c + y \<longleftrightarrow> b = c \<and> x = y"
proof
  assume "b + x = c + y"
  then have e: "unat b + unat x = unat c + unat y" using assms unat_page_slot by metis
  then have "(unat b + unat x) mod 4096 = (unat c + unat y) mod 4096" by simp
  then have "unat x = unat y"
    using assms by (simp add: page_aligned_def mod_add_eq [symmetric, of "unat b"] mod_add_eq [symmetric, of "unat c"])
  with e show "b = c \<and> x = y" by (simp add: word_unat_eq_iff)
qed simp

lemma page_slot_parts:
  assumes "page_aligned b" "unat off < 4096"
  shows "(b + off) AND 0xFFFFF000 = b" "(b + off) AND 0xFFF = off"
proof -
  obtain k where "unat b = 4096 * k" using assms(1) by (auto simp: page_aligned_def)
  then show "(b + off) AND 0xFFFFF000 = b" "(b + off) AND 0xFFF = off"
    using unat_page_slot [OF assms] assms(2) by (simp_all add: word_unat_eq_iff unat_page_base unat_page_offset)
qed

section \<open>Pointer chains\<close>

text \<open>
  \<open>path h x as y\<close>: following \<open>h\<close> from \<open>x\<close> visits the cells \<open>as\<close>, none of them null, and
  arrives at \<open>y\<close>. A chain is a path that ends at the null value 0. The same predicate
  serves the singly linked lists of \<^verbatim>\<open>list.c\<close> (cells are heap addresses) and the index
  lists of \<^verbatim>\<open>kmalloc.c\<close> (cells are indices into the node array).
\<close>

primrec path :: "('p::zero \<Rightarrow> 'p) \<Rightarrow> 'p \<Rightarrow> 'p list \<Rightarrow> 'p \<Rightarrow> bool" where
  "path h x [] y \<longleftrightarrow> x = y"
| "path h x (a # as) y \<longleftrightarrow> x = a \<and> a \<noteq> 0 \<and> path h (h a) as y"

definition chain :: "('p::zero \<Rightarrow> 'p) \<Rightarrow> 'p \<Rightarrow> 'p list \<Rightarrow> bool" where
  "chain h x as \<longleftrightarrow> path h x as 0"

lemma path_append [simp]: "path h x (as @ bs) z \<longleftrightarrow> (\<exists>y. path h x as y \<and> path h y bs z)"
  by (induction as arbitrary: x) auto

lemma path_upd [simp]: "u \<notin> set as \<Longrightarrow> path (h(u := v)) x as y = path h x as y"
  by (induction as arbitrary: x) auto

lemma path_nonzero: "path h x as y \<Longrightarrow> 0 \<notin> set as"
  by (induction as arbitrary: x) auto

lemma path_cong: "(\<And>a. a \<in> set as \<Longrightarrow> h a = h' a) \<Longrightarrow> path h x as y = path h' x as y"
  by (induction as arbitrary: x) auto

lemma chain_Nil [simp]: "chain h x [] \<longleftrightarrow> x = 0"
  by (simp add: chain_def)

lemma chain_Cons [simp]: "chain h x (a # as) \<longleftrightarrow> x = a \<and> a \<noteq> 0 \<and> chain h (h a) as"
  by (simp add: chain_def)

lemma chain_0 [simp]: "chain h 0 as \<longleftrightarrow> as = []"
  by (cases as) auto

lemma chain_nonzero_iff: "x \<noteq> 0 \<Longrightarrow> chain h x as \<longleftrightarrow> (\<exists>bs. as = x # bs \<and> chain h (h x) bs)"
  by (cases as) auto

lemma chain_append: "chain h x (as @ bs) \<longleftrightarrow> (\<exists>y. path h x as y \<and> chain h y bs)"
  by (simp add: chain_def)

lemma chain_upd [simp]: "u \<notin> set as \<Longrightarrow> chain (h(u := v)) x as = chain h x as"
  by (simp add: chain_def)

lemma chain_cong: "(\<And>a. a \<in> set as \<Longrightarrow> h a = h' a) \<Longrightarrow> chain h x as = chain h' x as"
  unfolding chain_def by (rule path_cong)

lemma chain_nonzero: "chain h x as \<Longrightarrow> 0 \<notin> set as"
  unfolding chain_def by (rule path_nonzero)

lemma chain_unique: "chain h x as \<Longrightarrow> chain h x bs \<Longrightarrow> as = bs"
proof (induction as arbitrary: x bs)
  case Nil
  then show ?case by simp
next
  case (Cons a as)
  then show ?case by (cases bs) auto
qed

text \<open>Relinking a chain: the first cell, inserting behind a cell, cutting cells out.\<close>

definition hd0 :: "'p::zero list \<Rightarrow> 'p" where
  "hd0 xs = (case xs of [] \<Rightarrow> 0 | x # _ \<Rightarrow> x)"

definition last0 :: "'p::zero list \<Rightarrow> 'p" where
  "last0 xs = (if xs = [] then 0 else last xs)"

lemma hd0_simps [simp]: "hd0 [] = 0" "hd0 (x # xs) = x"
  by (simp_all add: hd0_def)

lemma last0_simps [simp]: "last0 [] = 0" "last0 (xs @ [x]) = x" "xs \<noteq> [] \<Longrightarrow> last0 (x # xs) = last0 xs"
  "last0 [x] = x"
  by (simp_all add: last0_def)

lemma last0_append [simp]: "ys \<noteq> [] \<Longrightarrow> last0 (xs @ ys) = last0 ys"
  by (simp add: last0_def)

lemma chain_hd0: "chain h x as \<Longrightarrow> x = hd0 as"
  by (cases as) auto

lemma chain_split: "chain h x (ps @ qs) \<longleftrightarrow> path h x ps (hd0 qs) \<and> chain h (hd0 qs) qs"
  by (auto simp: chain_append dest: chain_hd0)

lemma last0_zero_iff: "0 \<notin> set xs \<Longrightarrow> last0 xs = 0 \<longleftrightarrow> xs = []"
  by (metis last0_def last_in_set)

lemma hd0_zero_iff: "0 \<notin> set xs \<Longrightarrow> hd0 xs = 0 \<longleftrightarrow> xs = []"
  by (cases xs) auto

lemma chain_next: "chain h x (ps @ p # qs) \<Longrightarrow> h p = hd0 qs"
  by (auto simp: chain_append dest: chain_hd0)

lemma chain_relink:
  assumes "chain h x (ps @ p # ds @ qs)" "distinct (ps @ p # qs)"
  shows "chain (h(p := hd0 qs)) x (ps @ p # qs)"
  using assms by (auto simp: chain_split)

lemma chain_insert:
  assumes "chain h x (ps @ p # qs)" "distinct (ps @ p # qs)" "n \<notin> set (ps @ p # qs)" "n \<noteq> 0"
  shows "chain (h(n := hd0 qs, p := n)) x (ps @ p # n # qs)"
  using assms by (auto simp: chain_split) (metis chain_hd0)

end
