(* ===== verification/Locks.thy ===== *)
theory Locks
  imports Prelude
begin

text \<open>
  The spin lock of \<^verbatim>\<open>kernel/locks.c\<close>, in two views. The sequential view gives the effect of
  \<open>section_enter\<close> and \<open>section_leave\<close> on the lock word as seen by the routine that calls
  them; it is what the other components use. The concurrent view is a step relation over
  any number of CPUs whose atomic steps are the compare-and-swap, the read of the inner
  spin loop and the store of \<open>section_leave\<close>.
\<close>

section \<open>The sequential view\<close>

type_synonym lock_t = int

text \<open>
  With no other CPU about to release the lock, a call on a held lock never leaves the outer
  loop: the compare-and-swap keeps failing.
\<close>

definition section_enter :: "lock_t \<Rightarrow> lock_t res" where
  "section_enter lock = (if lock = 0 then Inr 1 else Inl Diverges)"

definition section_leave :: "lock_t \<Rightarrow> lock_t" where
  "section_leave lock = 0"

lemma section_enter_free [simp, res_simps]: "section_enter 0 = Inr 1"
  by (simp add: section_enter_def)

lemma section_enter_held [simp]: "lock \<noteq> 0 \<Longrightarrow> section_enter lock = Inl Diverges"
  by (simp add: section_enter_def)

lemma section_leave_0 [simp, res_simps]: "section_leave l = 0"
  by (simp add: section_leave_def)

section \<open>The concurrent view\<close>

text \<open>
  Where a CPU stands: outside both routines, about to execute the compare-and-swap of the
  outer loop, in the inner loop \<^verbatim>\<open>while(*lock)\<close>, or past \<open>section_enter\<close>.
\<close>

datatype lock_pc = Outside | Cas | Spin | Inside

record spinlock =
  lock_word :: lock_t
  lock_pcs :: "nat \<Rightarrow> lock_pc"

definition goto :: "nat \<Rightarrow> lock_pc \<Rightarrow> spinlock \<Rightarrow> spinlock" where
  "goto i pc s = s\<lparr>lock_pcs := (lock_pcs s)(i := pc)\<rparr>"

definition spinlock_init :: spinlock where
  "spinlock_init = \<lparr>lock_word = 0, lock_pcs = (\<lambda>_. Outside)\<rparr>"

inductive lock_step :: "spinlock \<Rightarrow> spinlock \<Rightarrow> bool" where
  enter: "lock_pcs s i = Outside \<Longrightarrow> lock_step s (goto i Cas s)"
| cas_ok: "lock_pcs s i = Cas \<Longrightarrow> lock_word s = 0 \<Longrightarrow> lock_step s (goto i Inside s\<lparr>lock_word := 1\<rparr>)"
| cas_fail: "lock_pcs s i = Cas \<Longrightarrow> lock_word s \<noteq> 0 \<Longrightarrow> lock_step s (goto i Spin s)"
| spin_wait: "lock_pcs s i = Spin \<Longrightarrow> lock_word s \<noteq> 0 \<Longrightarrow> lock_step s s"
| spin_exit: "lock_pcs s i = Spin \<Longrightarrow> lock_word s = 0 \<Longrightarrow> lock_step s (goto i Cas s)"
| leave: "lock_pcs s i = Inside \<Longrightarrow> lock_step s (goto i Outside s\<lparr>lock_word := 0\<rparr>)"

inductive lock_reach :: "spinlock \<Rightarrow> bool" where
  start: "lock_reach spinlock_init"
| step: "lock_reach s \<Longrightarrow> lock_step s t \<Longrightarrow> lock_reach t"

definition lock_inv :: "spinlock \<Rightarrow> bool" where
  "lock_inv s \<longleftrightarrow>
     (if lock_word s = 0 then \<forall>i. lock_pcs s i \<noteq> Inside
      else \<exists>i. \<forall>j. lock_pcs s j = Inside \<longleftrightarrow> j = i)"

lemma goto_simps [simp]:
  "lock_word (goto i pc s) = lock_word s" "lock_pcs (goto i pc s) = (lock_pcs s)(i := pc)"
  by (simp_all add: goto_def)

lemma lock_inv_goto:
  assumes "lock_pcs s i \<noteq> Inside" "pc \<noteq> Inside"
  shows "lock_inv (goto i pc s) = lock_inv s"
proof -
  from assms have "((lock_pcs s)(i := pc)) j = Inside \<longleftrightarrow> lock_pcs s j = Inside" for j by auto
  then show ?thesis by (simp add: lock_inv_def)
qed

lemma lock_inv_step: "lock_step s t \<Longrightarrow> lock_inv s \<Longrightarrow> lock_inv t"
proof (induction rule: lock_step.induct)
  case (cas_ok s i)
  then show ?case by (auto simp: lock_inv_def intro!: exI [of _ i])
next
  case (leave s i)
  then have "\<forall>j. lock_pcs s j = Inside \<longrightarrow> j = i" by (auto simp: lock_inv_def split: if_splits)
  then show ?case by (auto simp: lock_inv_def)
qed (simp_all add: lock_inv_goto)

lemma lock_reach_inv: "lock_reach s \<Longrightarrow> lock_inv s"
proof (induction rule: lock_reach.induct)
  case start
  then show ?case by (simp add: lock_inv_def spinlock_init_def)
next
  case (step s t)
  then show ?case by (blast intro: lock_inv_step)
qed

text \<open>
  The two views agree: the sequential \<open>section_enter\<close> returns exactly when a CPU at the
  head of the outer loop can pass it in one step, and with the same lock word.
\<close>

lemma lock_step_acquires:
  "lock_step s t \<Longrightarrow> lock_pcs s i \<noteq> Inside \<Longrightarrow> lock_pcs t i = Inside \<Longrightarrow> lock_word s = 0 \<and> lock_word t = 1"
  by (induction rule: lock_step.induct) (auto split: if_splits)

lemma section_enter_cas:
  assumes "lock_pcs s i = Cas"
  shows "section_enter (lock_word s) = Inr l \<longleftrightarrow>
    (\<exists>t. lock_step s t \<and> lock_pcs t i = Inside \<and> lock_word t = l)"
proof
  assume "section_enter (lock_word s) = Inr l"
  then have "lock_word s = 0" "l = 1" by (auto simp: section_enter_def split: if_splits)
  with assms show "\<exists>t. lock_step s t \<and> lock_pcs t i = Inside \<and> lock_word t = l"
    using lock_step.cas_ok [of s i] by force
next
  assume "\<exists>t. lock_step s t \<and> lock_pcs t i = Inside \<and> lock_word t = l"
  with assms lock_step_acquires [of s _ i] show "section_enter (lock_word s) = Inr l" by auto
qed

text \<open>Hand-over: when the holder leaves, a CPU that spins on the lock can enter.\<close>

lemma lock_handover:
  assumes "lock_pcs s i = Inside" "lock_pcs s j = Spin"
  shows "\<exists>t u v. lock_step s t \<and> lock_step t u \<and> lock_step u v \<and> lock_pcs v j = Inside \<and> lock_pcs v i = Outside"
proof -
  let ?t = "goto i Outside s\<lparr>lock_word := 0\<rparr>"
  let ?u = "goto j Cas ?t"
  let ?v = "goto j Inside ?u\<lparr>lock_word := 1\<rparr>"
  from assms have "i \<noteq> j" by auto
  have "lock_step s ?t" using assms(1) by (rule lock_step.leave)
  moreover have "lock_step ?t ?u" using assms \<open>i \<noteq> j\<close> by (intro lock_step.spin_exit) simp_all
  moreover have "lock_step ?u ?v" by (intro lock_step.cas_ok) simp_all
  moreover have "lock_pcs ?v j = Inside" "lock_pcs ?v i = Outside" using \<open>i \<noteq> j\<close> by simp_all
  ultimately show ?thesis by blast
qed

end
