(* ===== verification/Palloc.thy ===== *)
theory Palloc
  imports Locks
begin

text \<open>
  The physical frame allocator, \<^verbatim>\<open>kernel/palloc.c\<close>: a bit map with one bit per 4 KiB frame
  (1 means free), an array guard behind its last entry, and a spin lock. The abstraction
  \<open>frames\<close> reads the bit map as a set of frame numbers.
\<close>

section \<open>State and operations\<close>

abbreviation (input) BITS :: uint32 where "BITS \<equiv> 32"
abbreviation (input) ENTRIES :: nat where "ENTRIES \<equiv> 32768"

record palloc =
  memory_map :: "nat \<Rightarrow> uint32"
  palloc_lock :: lock_t

definition mem_phys_init :: "'a palloc_scheme \<Rightarrow> 'a palloc_scheme" where
  "mem_phys_init s = s\<lparr>memory_map := (memory_map s)(ENTRIES := 0xFFFFFFFF)\<rparr>"

definition mem_phys_free :: "uint32 \<Rightarrow> 'a palloc_scheme \<Rightarrow> 'a palloc_scheme" where
  "mem_phys_free addr s =
     (let page = addr div PAGE_SIZE;
          i = unat (page div BITS);
          b = unat (page mod BITS)
      in s\<lparr>memory_map := (memory_map s)(i := memory_map s i OR push_bit b 1)\<rparr>)"

definition mem_phys_reserve :: "uint32 \<Rightarrow> 'a palloc_scheme \<Rightarrow> 'a palloc_scheme" where
  "mem_phys_reserve addr s =
     (let page = addr div PAGE_SIZE;
          i = unat (page div BITS);
          b = unat (page mod BITS)
      in s\<lparr>memory_map := (memory_map s)(i := memory_map s i AND NOT (push_bit b 1))\<rparr>)"

text \<open>
  The two loops of \<open>mem_phys_alloc\<close>. The first walks over the words of the map that are
  zero; it stops at the guard, and a walk past the guard leaves the array. The second
  shifts the word right until its lowest bit is set; on the word 0 it would never end.
\<close>

function scan_map :: "(nat \<Rightarrow> uint32) \<Rightarrow> nat \<Rightarrow> nat res" where
  "scan_map m i =
     (if ENTRIES < i then Inl OutOfBounds
      else if m i = 0 then scan_map m (Suc i)
      else Inr i)"
  by pat_completeness auto
termination
  by (relation "measure (\<lambda>(m, i). Suc ENTRIES - i)") auto

declare scan_map.simps [simp del]

partial_function (option) scan_bit :: "uint32 \<Rightarrow> uint8 \<Rightarrow> uint8 option" where
  "scan_bit tmp b = (if tmp mod 2 = 0 then scan_bit (drop_bit 1 tmp) (b + 1) else Some b)"

definition mem_phys_alloc :: "'a palloc_scheme \<Rightarrow> (uint32 \<times> 'a palloc_scheme) res" where
  "mem_phys_alloc s =
     bindE (section_enter (palloc_lock s)) (\<lambda>l.
     let s = s\<lparr>palloc_lock := l\<rparr> in
     bindE (scan_map (memory_map s) 0) (\<lambda>i.
     if i = ENTRIES then Inr (0xDEADC0DE, s)
     else bindE (of_loop (scan_bit (memory_map s i) 0)) (\<lambda>b.
     let addr = PAGE_SIZE * (BITS * of_nat i + ucast b);
         s = mem_phys_reserve addr s;
         tmp = PAGE_SIZE * (BITS * of_nat i + ucast b)
     in Inr (tmp, s\<lparr>palloc_lock := section_leave (palloc_lock s)\<rparr>))))"

definition mem_phys_free_range :: "uint32 \<Rightarrow> uint32 \<Rightarrow> 'a palloc_scheme \<Rightarrow> 'a palloc_scheme" where
  "mem_phys_free_range addr pages s =
     fold (\<lambda>i. mem_phys_free (addr + PAGE_SIZE * of_nat i)) [0..<unat pages] s"

definition mem_phys_reserve_range :: "uint32 \<Rightarrow> uint32 \<Rightarrow> 'a palloc_scheme \<Rightarrow> 'a palloc_scheme" where
  "mem_phys_reserve_range addr pages s =
     fold (\<lambda>i. mem_phys_reserve (addr + PAGE_SIZE * of_nat i)) [0..<unat pages] s"

section \<open>The bit map as a set of frames\<close>

definition frames :: "'a palloc_scheme \<Rightarrow> nat set" where
  "frames s = {p. p < PAGES \<and> bit (memory_map s (p div 32)) (p mod 32)}"

definition frame_of :: "uint32 \<Rightarrow> nat" where
  "frame_of addr = unat addr div 4096"

definition palloc_ready :: "'a palloc_scheme \<Rightarrow> bool" where
  "palloc_ready s \<longleftrightarrow> palloc_lock s = 0 \<and> memory_map s ENTRIES \<noteq> 0"

lemma frame_of_less [simp]: "frame_of addr < PAGES"
  using unat32_less [of addr] by (simp add: frame_of_def)

lemma unat_map_index: "unat (addr div PAGE_SIZE div BITS) = frame_of addr div 32"
  by (simp add: frame_of_def unat_div)

lemma unat_map_bit: "unat (addr div PAGE_SIZE mod BITS) = frame_of addr mod 32"
  by (simp add: frame_of_def unat_mod)

lemma frames_mem_phys_free [simp]: "frames (mem_phys_free addr s) = insert (frame_of addr) (frames s)"
  using frame_of_less [of addr]
  by (auto simp: frames_def mem_phys_free_def Let_def unat_map_index unat_map_bit
      bit_or_iff bit_single intro: div_mod_nat_eqI)

lemma frames_mem_phys_reserve [simp]: "frames (mem_phys_reserve addr s) = frames s - {frame_of addr}"
  by (auto simp: frames_def mem_phys_reserve_def Let_def unat_map_index unat_map_bit
      bit_and_iff bit_not_iff bit_single intro: div_mod_nat_eqI)


lemma map_index_not_guard [simp]: "frame_of addr div 32 \<noteq> ENTRIES"
proof -
  have "frame_of addr div 32 < ENTRIES"
    using frame_of_less [of addr] by (simp add: less_mult_imp_div_less)
  then show ?thesis by simp
qed

lemma palloc_ready_free [simp]: "palloc_ready (mem_phys_free addr s) = palloc_ready s"
  using map_index_not_guard [of addr]
  by (auto simp: palloc_ready_def mem_phys_free_def Let_def unat_map_index)

lemma palloc_ready_reserve [simp]: "palloc_ready (mem_phys_reserve addr s) = palloc_ready s"
  using map_index_not_guard [of addr]
  by (auto simp: palloc_ready_def mem_phys_reserve_def Let_def unat_map_index)

lemma palloc_lock_reserve [simp]: "palloc_lock (mem_phys_reserve addr s) = palloc_lock s"
  by (simp add: mem_phys_reserve_def Let_def)

lemma palloc_ready_init: "palloc_lock s = 0 \<Longrightarrow> palloc_ready (mem_phys_init s)"
  by (simp add: palloc_ready_def mem_phys_init_def)

lemma frames_mem_phys_init [simp]: "frames (mem_phys_init s) = frames s"
proof -
  have "p div 32 \<noteq> ENTRIES" if "p < PAGES" for p :: nat
    using less_mult_imp_div_less [of p ENTRIES 32] that by simp
  then show ?thesis by (auto simp: frames_def mem_phys_init_def)
qed

lemma frames_bounded: "frames s \<subseteq> {..<PAGES}"
  by (auto simp: frames_def)

lemma finite_frames [simp]: "finite (frames s)"
  by (rule finite_subset [OF frames_bounded]) simp

lemma Min_frames_mem:
  assumes "frames s \<noteq> {}"
  shows "Min (frames s) \<in> frames s" "Min (frames s) < PAGES"
proof -
  show "Min (frames s) \<in> frames s" using assms by simp
  then show "Min (frames s) < PAGES" using frames_bounded [of s] by blast
qed

subsection \<open>Ranges of frames\<close>

definition range_frames :: "uint32 \<Rightarrow> nat \<Rightarrow> nat set" where
  "range_frames addr n = {(frame_of addr + i) mod PAGES | i. i < n}"

lemma frame_of_add: "frame_of (addr + PAGE_SIZE * of_nat i) = (frame_of addr + i) mod PAGES"
proof -
  have "unat (addr + PAGE_SIZE * of_nat i) = (unat addr + 4096 * i) mod (4096 * PAGES)"
    by (simp add: unat_word_ariths unat_of_nat mod_simps)
  then have "frame_of (addr + PAGE_SIZE * of_nat i) = (unat addr + 4096 * i) mod (4096 * PAGES) div 4096"
    by (simp only: frame_of_def)
  also have "\<dots> = (unat addr + 4096 * i) div 4096 mod PAGES"
    by (simp add: mod_mult2_eq [of _ 4096 PAGES, simplified])
  finally show ?thesis by (simp add: frame_of_def add.commute)
qed

lemma range_frames_Suc:
  "range_frames addr (Suc n) = insert (frame_of (addr + PAGE_SIZE * of_nat n)) (range_frames addr n)"
  by (auto simp: range_frames_def frame_of_add less_Suc_eq)

lemma range_frames_0 [simp]: "range_frames addr 0 = {}"
  by (simp add: range_frames_def)

lemma frames_fold_free:
  "frames (fold (\<lambda>i. mem_phys_free (addr + PAGE_SIZE * of_nat i)) [0..<n] s) =
   frames s \<union> range_frames addr n"
  by (induction n) (auto simp: range_frames_Suc)

lemma frames_fold_reserve:
  "frames (fold (\<lambda>i. mem_phys_reserve (addr + PAGE_SIZE * of_nat i)) [0..<n] s) =
   frames s - range_frames addr n"
  by (induction n) (auto simp: range_frames_Suc)

lemma frames_mem_phys_free_range [simp]:
  "frames (mem_phys_free_range addr pages s) = frames s \<union> range_frames addr (unat pages)"
  by (simp add: mem_phys_free_range_def frames_fold_free)

lemma frames_mem_phys_reserve_range [simp]:
  "frames (mem_phys_reserve_range addr pages s) = frames s - range_frames addr (unat pages)"
  by (simp add: mem_phys_reserve_range_def frames_fold_reserve)

lemma palloc_ready_free_range [simp]: "palloc_ready (mem_phys_free_range addr pages s) = palloc_ready s"
proof -
  have "palloc_ready (fold (\<lambda>i. mem_phys_free (addr + PAGE_SIZE * of_nat i)) [0..<n] s) = palloc_ready s"
    for n by (induction n) auto
  then show ?thesis by (simp add: mem_phys_free_range_def)
qed

lemma palloc_ready_reserve_range [simp]:
  "palloc_ready (mem_phys_reserve_range addr pages s) = palloc_ready s"
proof -
  have "palloc_ready (fold (\<lambda>i. mem_phys_reserve (addr + PAGE_SIZE * of_nat i)) [0..<n] s) = palloc_ready s"
    for n by (induction n) auto
  then show ?thesis by (simp add: mem_phys_reserve_range_def)
qed

section \<open>Allocation\<close>

lemma scan_map_stops:
  assumes "m ENTRIES \<noteq> 0" "i \<le> ENTRIES"
  shows "\<exists>k. scan_map m i = Inr k \<and> i \<le> k \<and> k \<le> ENTRIES \<and> m k \<noteq> 0 \<and> (\<forall>j. i \<le> j \<longrightarrow> j < k \<longrightarrow> m j = 0)"
  using assms
proof (induction m i rule: scan_map.induct)
  case (1 m i)
  show ?case
  proof (cases "m i = 0")
    case True
    with "1.prems" have "i \<noteq> ENTRIES" by auto
    with "1.prems" have "Suc i \<le> ENTRIES" by simp
    with "1.IH" "1.prems" True obtain k where
      "scan_map m (Suc i) = Inr k" "Suc i \<le> k" "k \<le> ENTRIES" "m k \<noteq> 0"
      "\<forall>j. Suc i \<le> j \<longrightarrow> j < k \<longrightarrow> m j = 0"
      by auto
    with True "1.prems" show ?thesis
      by (intro exI [of _ k]) (auto simp: scan_map.simps [of m i] le_eq_less_or_eq [of i])
  next
    case False
    with "1.prems" show ?thesis by (auto simp: scan_map.simps [of m i])
  qed
qed

lemma scan_bit_lowest:
  "bit tmp n \<Longrightarrow> (\<forall>j<n. \<not> bit tmp j) \<Longrightarrow> scan_bit tmp b = Some (b + of_nat n)"
proof (induction n arbitrary: tmp b)
  case 0
  then have "tmp mod 2 \<noteq> 0" by (simp add: bit_0 odd_iff_mod_2_eq_one)
  then show ?case by (simp add: scan_bit.simps)
next
  case (Suc n)
  then have "tmp mod 2 = 0" by (auto simp: bit_0 even_iff_mod_2_eq_zero dest: spec [of _ 0])
  moreover from Suc.prems have "bit (drop_bit 1 tmp) n" "\<forall>j<n. \<not> bit (drop_bit 1 tmp) j"
    by (auto simp: bit_drop_bit_eq)
  ultimately show ?case
    using Suc.IH [of "drop_bit 1 tmp" "b + 1"] by (simp add: scan_bit.simps [of tmp] add_ac)
qed

lemma lowest_bit:
  assumes "(w :: uint32) \<noteq> 0"
  obtains n where "n < 32" "bit w n" "\<forall>j<n. \<not> bit w j"
proof -
  from assms obtain k where "bit w k" by (auto simp: word_eq_0_iff_bits)
  then have "bit w (LEAST n. bit w n)" by (rule LeastI)
  moreover from this have "(LEAST n. bit w n) < 32" using bit_imp_le_length by fastforce
  ultimately show thesis using that not_less_Least by blast
qed

definition frame_addr :: "nat \<Rightarrow> uint32" where
  "frame_addr p = of_nat (4096 * p)"

lemma frame_of_frame_addr [simp]: "p < PAGES \<Longrightarrow> frame_of (frame_addr p) = p"
  by (simp add: frame_of_def frame_addr_def unat_of_nat unat_word_ariths)

lemma frame_addr_inject: "p < PAGES \<Longrightarrow> q < PAGES \<Longrightarrow> frame_addr p = frame_addr q \<Longrightarrow> p = q"
  by (metis frame_of_frame_addr)

lemma frame_addr_compute:
  "n < 32 \<Longrightarrow> PAGE_SIZE * (BITS * of_nat i + ucast (of_nat n :: uint8)) = frame_addr (32 * i + n)"
  by (simp add: frame_addr_def unsigned_of_nat take_bit_nat_eq_self)


text \<open>The first word that is not zero, and its lowest bit, name the lowest free frame.\<close>

lemma Min_frames:
  assumes "k < ENTRIES" "\<forall>j<k. memory_map s j = 0"
    and "n < 32" "bit (memory_map s k) n" "\<forall>j<n. \<not> bit (memory_map s k) j"
  shows "Min (frames s) = 32 * k + n"
proof (rule Min_eqI)
  show "finite (frames s)" by simp
  show "32 * k + n \<in> frames s" using assms by (simp add: frames_def)
  fix p assume "p \<in> frames s"
  then have p: "bit (memory_map s (p div 32)) (p mod 32)" by (simp add: frames_def)
  then have "\<not> p div 32 < k" using assms(2) by auto
  moreover from p have "\<not> p mod 32 < n" if "p div 32 = k" using assms(5) that by auto
  ultimately show "32 * k + n \<le> p"
    using div_mult_mod_eq [of p 32] assms(3) by (cases "p div 32 = k") linarith+
qed

lemma reserve_unlocks:
  "palloc_lock s = 0 \<Longrightarrow>
   (mem_phys_reserve addr (s\<lparr>palloc_lock := l\<rparr>))\<lparr>palloc_lock := 0\<rparr> = mem_phys_reserve addr s"
  by (cases s) (simp add: mem_phys_reserve_def Let_def)

lemma mem_phys_alloc_lowest:
  assumes ready: "palloc_ready s" and ne: "frames s \<noteq> {}"
  shows "mem_phys_alloc s = Inr (frame_addr (Min (frames s)), mem_phys_reserve (frame_addr (Min (frames s))) s)"
proof -
  let ?m = "memory_map s"
  from ready obtain k where k: "scan_map ?m 0 = Inr k" "k \<le> ENTRIES" "?m k \<noteq> 0" "\<forall>j<k. ?m j = 0"
    using scan_map_stops [of ?m 0] by (auto simp: palloc_ready_def)
  from ne obtain p where "p < PAGES" "bit (?m (p div 32)) (p mod 32)" by (auto simp: frames_def)
  then have "?m (p div 32) \<noteq> 0" "p div 32 < ENTRIES" by auto
  with k have kE: "k < ENTRIES" by (metis linorder_not_less order_le_less)
  from k(3) obtain n where n: "n < 32" "bit (?m k) n" "\<forall>j<n. \<not> bit (?m k) j" by (rule lowest_bit)
  have min: "Min (frames s) = 32 * k + n" using kE k(4) n by (rule Min_frames)
  have "scan_bit (?m k) 0 = Some (of_nat n)" using scan_bit_lowest [OF n(2,3), of 0] by simp
  with ready k kE n(1) show ?thesis
    by (simp add: mem_phys_alloc_def palloc_ready_def Let_def frame_addr_compute min reserve_unlocks
        del: distrib_left_numeral)
qed

lemma mem_phys_alloc_none_left:
  assumes ready: "palloc_ready s" and none: "frames s = {}"
  shows "mem_phys_alloc s = Inr (0xDEADC0DE, s\<lparr>palloc_lock := 1\<rparr>)"
proof -
  let ?m = "memory_map s"
  from ready obtain k where k: "scan_map ?m 0 = Inr k" "k \<le> ENTRIES" "?m k \<noteq> 0"
    using scan_map_stops [of ?m 0] by (auto simp: palloc_ready_def)
  from k(3) obtain n where n: "n < 32" "bit (?m k) n" by (rule lowest_bit)
  have "k = ENTRIES"
  proof (rule ccontr)
    assume "k \<noteq> ENTRIES"
    with k n have "32 * k + n \<in> frames s" by (simp add: frames_def)
    with none show False by simp
  qed
  with ready k show ?thesis by (simp add: mem_phys_alloc_def palloc_ready_def Let_def)
qed

section \<open>The frame pool interface\<close>

text \<open>
  What the paging code relies on: allocation hands out the lowest free frame and removes
  exactly that frame from the pool. The client lemma is proved once, for any pool.
\<close>

fun alloc_many :: "('s \<Rightarrow> (uint32 \<times> 's) res) \<Rightarrow> nat \<Rightarrow> 's \<Rightarrow> (uint32 list \<times> 's) res" where
  "alloc_many alloc 0 s = Inr ([], s)"
| "alloc_many alloc (Suc n) s =
     bindE (alloc s) (\<lambda>(a, s). bindE (alloc_many alloc n s) (\<lambda>(as, s). Inr (a # as, s)))"

locale frame_pool =
  fixes alloc :: "'s \<Rightarrow> (uint32 \<times> 's) res"
    and release :: "uint32 \<Rightarrow> 's \<Rightarrow> 's"
    and pool :: "'s \<Rightarrow> nat set"
    and ready :: "'s \<Rightarrow> bool"
  assumes pool_bounded: "pool s \<subseteq> {..<PAGES}"
    and alloc_lowest: "ready s \<Longrightarrow> pool s \<noteq> {} \<Longrightarrow>
      \<exists>s'. alloc s = Inr (frame_addr (Min (pool s)), s') \<and> ready s' \<and> pool s' = pool s - {Min (pool s)}"
    and release_pool: "pool (release a s) = insert (frame_of a) (pool s)"
    and release_ready: "ready (release a s) = ready s"
begin

lemma finite_pool: "finite (pool s)"
  by (rule finite_subset [OF pool_bounded]) simp

lemma alloc_frame:
  assumes "ready s" "pool s \<noteq> {}"
  obtains p s' where "alloc s = Inr (frame_addr p, s')" "p \<in> pool s" "p < PAGES" "ready s'" "pool s' = pool s - {p}"
  using alloc_lowest [OF assms] Min_in [OF finite_pool assms(2)] pool_bounded that
  by (metis lessThan_iff subsetD)

text \<open>\<open>n\<close> allocations in a row return \<open>n\<close> different frames, all of them from the pool.\<close>

lemma alloc_many_distinct:
  "ready s \<Longrightarrow> n \<le> card (pool s) \<Longrightarrow>
   \<exists>ps s'. alloc_many alloc n s = Inr (map frame_addr ps, s') \<and> length ps = n \<and> distinct ps \<and>
     set ps \<subseteq> pool s \<and> pool s' = pool s - set ps \<and> ready s'"
proof (induction n arbitrary: s)
  case 0
  then show ?case by auto
next
  case (Suc n)
  then have "pool s \<noteq> {}" by auto
  with Suc.prems(1) obtain p s1 where p: "alloc s = Inr (frame_addr p, s1)" "p \<in> pool s"
    "ready s1" "pool s1 = pool s - {p}" by (rule alloc_frame)
  then have "n \<le> card (pool s1)" using Suc.prems(2) finite_pool by simp
  with Suc.IH p(3) obtain ps s' where ps: "alloc_many alloc n s1 = Inr (map frame_addr ps, s')"
    "length ps = n" "distinct ps" "set ps \<subseteq> pool s1" "pool s' = pool s1 - set ps" "ready s'"
    by blast
  show ?case
    by (rule exI [of _ "p # ps"]) (use p ps in auto)
qed

text \<open>A frame that was given back is free again, and the next allocation does not pass it over.\<close>

lemma alloc_after_release:
  assumes "ready s" and "alloc (release a s) = Inr (b, s')"
  shows "frame_of b \<le> frame_of a"
proof -
  let ?s = "release a s"
  have ne: "pool ?s \<noteq> {}" by (simp add: release_pool)
  have "ready ?s" using assms(1) by (simp add: release_ready)
  with ne assms(2) have b: "b = frame_addr (Min (pool ?s))" using alloc_lowest by fastforce
  have "Min (pool ?s) < PAGES" using Min_in [OF finite_pool ne] pool_bounded by blast
  then show ?thesis using finite_pool by (simp add: b release_pool Min_le)
qed

end

interpretation pf: frame_pool mem_phys_alloc mem_phys_free frames palloc_ready
proof (unfold_locales, goal_cases)
  case (1 s)
  show ?case by (rule frames_bounded)
next
  case (2 s)
  then have "Min (frames s) \<in> frames s" by (intro Min_in) simp_all
  then have "Min (frames s) < PAGES" using frames_bounded [of s] by auto
  with 2 show ?case by (simp add: mem_phys_alloc_lowest)
qed simp_all

end
