(* ===== verification/Paging.thy ===== *)
theory Paging
  imports Palloc
begin

text \<open>
  Page tables, \<^verbatim>\<open>kernel/paging.c\<close>. The kernel edits the current page directory and its page
  tables through the recursive mapping: entry 1023 of every directory refers to the
  directory itself, so the directory appears at \<open>0xFFFFF000\<close> and table \<open>i\<close> at
  \<open>0xFFC00000 + 4096 * i\<close>. The model therefore has the physical memory, the register
  \<open>cr3\<close> and the two-level walk of the 32-bit x86 MMU, and every access of the C code to a
  directory or a table is a virtual access that goes through that walk. The words of
  physical memory are indexed by their byte address; all accesses are 4-byte aligned. The
  processor runs with \<^verbatim>\<open>CR0.WP = 0\<close> (see \<^verbatim>\<open>restore_cr0\<close>), so supervisor writes ignore the
  writable bit; translations are not cached.
\<close>

section \<open>The machine\<close>

record machine = palloc +
  phys_mem :: "uint32 \<Rightarrow> uint32"
  cr3 :: uint32

abbreviation (input) PAGE_PRESENT :: uint32 where "PAGE_PRESENT \<equiv> 1"
abbreviation (input) PAGE_WRITABLE :: uint32 where "PAGE_WRITABLE \<equiv> 2"
abbreviation (input) PAGE_USERMODE :: uint32 where "PAGE_USERMODE \<equiv> 4"
abbreviation (input) PAGE_DIR_VIRT_ADDR :: uint32 where "PAGE_DIR_VIRT_ADDR \<equiv> 0xFFFFF000"

definition page_entry :: "uint32 \<Rightarrow> uint32 \<Rightarrow> uint32" where
  "page_entry addr flags = (addr AND 0xFFFFF000) OR (flags AND 0xFFF)"

definition page_dir_index :: "uint32 \<Rightarrow> uint32" where
  "page_dir_index addr = drop_bit 22 addr"

definition page_table_index :: "uint32 \<Rightarrow> uint32" where
  "page_table_index addr = drop_bit 12 addr AND 0x3FF"

definition page_table_virt_addr :: "uint32 \<Rightarrow> ptr" where
  "page_table_virt_addr i = PAGE_DIR_VIRT_ADDR - 0x400000 + (i + 1) * 0x1000"

text \<open>
  The directory slot and the table slot that the walk reads for a virtual address, and the
  walk itself: \<open>None\<close> is a page fault.
\<close>

definition pdir :: "'a machine_scheme \<Rightarrow> uint32" where
  "pdir s = cr3 s AND 0xFFFFF000"

definition pde :: "uint32 \<Rightarrow> 'a machine_scheme \<Rightarrow> uint32" where
  "pde i s = phys_mem s (pdir s + 4 * i)"

definition pte_slot :: "uint32 \<Rightarrow> 'a machine_scheme \<Rightarrow> uint32" where
  "pte_slot v s = (pde (page_dir_index v) s AND 0xFFFFF000) + 4 * page_table_index v"

definition mmu_translate :: "uint32 \<Rightarrow> 'a machine_scheme \<Rightarrow> uint32 option" where
  "mmu_translate v s =
     (if pde (page_dir_index v) s AND PAGE_PRESENT = 0 then None
      else let pte = phys_mem s (pte_slot v s)
      in if pte AND PAGE_PRESENT = 0 then None
         else Some ((pte AND 0xFFFFF000) + (v AND 0xFFF)))"

definition vread :: "ptr \<Rightarrow> 'a machine_scheme \<Rightarrow> uint32 res" where
  "vread v s = (case mmu_translate v s of None \<Rightarrow> Inl PageFault | Some p \<Rightarrow> Inr (phys_mem s p))"

definition vwrite :: "ptr \<Rightarrow> uint32 \<Rightarrow> 'a machine_scheme \<Rightarrow> 'a machine_scheme res" where
  "vwrite v x s =
     (case mmu_translate v s of
        None \<Rightarrow> Inl PageFault
      | Some p \<Rightarrow> Inr (s\<lparr>phys_mem := (phys_mem s)(p := x)\<rparr>))"

section \<open>Operations\<close>

text \<open>\<open>kmemset32\<close> of \<^verbatim>\<open>kernel/util.c\<close>, on virtual memory.\<close>

primrec kmemset32 :: "nat \<Rightarrow> ptr \<Rightarrow> uint32 \<Rightarrow> 'a machine_scheme \<Rightarrow> 'a machine_scheme res" where
  "kmemset32 0 p x s = Inr s"
| "kmemset32 (Suc n) p x s = bindE (vwrite p x s) (kmemset32 n (p + 4) x)"

definition paging_is_mapped :: "uint32 \<Rightarrow> 'a machine_scheme \<Rightarrow> uint8 res" where
  "paging_is_mapped virt s =
     (let index = page_dir_index virt in
      bindE (vread (PAGE_DIR_VIRT_ADDR + 4 * index) s) (\<lambda>e.
      if e AND PAGE_PRESENT \<noteq> 0 then
        let page_table = page_table_virt_addr index in
        bindE (vread (page_table + 4 * page_table_index virt) s) (\<lambda>e.
        Inr (ucast (e AND PAGE_PRESENT)))
      else Inr 0))"

definition paging_map :: "uint32 \<Rightarrow> uint32 \<Rightarrow> uint32 \<Rightarrow> 'a machine_scheme \<Rightarrow> 'a machine_scheme res" where
  "paging_map virt phys flags s =
     (let index = page_dir_index virt;
          page_table = page_table_virt_addr index in
      bindE (vread (PAGE_DIR_VIRT_ADDR + 4 * index) s) (\<lambda>e.
      bindE (if e AND PAGE_PRESENT \<noteq> 0 then Inr s
             else bindE (mem_phys_alloc s) (\<lambda>(frame, s).
               bindE (vwrite (PAGE_DIR_VIRT_ADDR + 4 * index)
                        (page_entry frame (PAGE_WRITABLE OR PAGE_USERMODE OR PAGE_PRESENT)) s) (\<lambda>s.
               kmemset32 1024 page_table 0 s))) (\<lambda>s.
      vwrite (page_table + 4 * page_table_index virt) (page_entry phys flags) s)))"

definition page_dir_switch :: "uint32 \<Rightarrow> 'a machine_scheme \<Rightarrow> 'a machine_scheme" where
  "page_dir_switch newpdir s = s\<lparr>cr3 := newpdir\<rparr>"

definition paging_get_phys :: "uint32 \<Rightarrow> 'a machine_scheme \<Rightarrow> uint32 res" where
  "paging_get_phys addr s =
     (let index = page_dir_index addr;
          p = page_table_virt_addr index in
      bindE (paging_is_mapped addr s) (\<lambda>m.
      if m = 0 then Inr 0
      else let index = page_table_index addr in
        bindE (vread (p + 4 * index) s) (\<lambda>e. Inr (e AND 0xFFFFF000))))"

text \<open>The copying loop of \<open>page_dir_clone\<close>: entries \<open>i, i + 1, ..., i + n - 1\<close>.\<close>

primrec copy_entries :: "nat \<Rightarrow> uint32 \<Rightarrow> ptr \<Rightarrow> ptr \<Rightarrow> 'a machine_scheme \<Rightarrow> 'a machine_scheme res" where
  "copy_entries 0 i dst src s = Inr s"
| "copy_entries (Suc n) i dst src s =
     bindE (vread (src + 4 * i) s) (\<lambda>x.
     bindE (vwrite (dst + 4 * i) x s) (copy_entries n (i + 1) dst src))"

definition page_dir_clone :: "uint32 \<Rightarrow> 'a machine_scheme \<Rightarrow> (uint32 \<times> 'a machine_scheme) res" where
  "page_dir_clone olddir s =
     (let olddir_virt = 0xcccc0000; newdir_virt = 0xdddd0000 in
      bindE (mem_phys_alloc s) (\<lambda>(newdir, s).
      bindE (paging_map olddir_virt (olddir AND 0xFFFFF000) (PAGE_WRITABLE OR PAGE_PRESENT) s) (\<lambda>s.
      bindE (paging_map newdir_virt (newdir AND 0xFFFFF000) (PAGE_WRITABLE OR PAGE_PRESENT) s) (\<lambda>s.
      bindE (copy_entries 1023 0 newdir_virt olddir_virt s) (\<lambda>s.
      bindE (vwrite (newdir_virt + 4 * 1023) (page_entry newdir PAGE_PRESENT) s) (\<lambda>s.
      bindE (paging_map olddir_virt 0 0 s) (\<lambda>s.
      bindE (paging_map newdir_virt 0 0 s) (\<lambda>s.
      Inr (newdir, s)))))))))"

section \<open>Index arithmetic\<close>

lemma page_entry_base [simp]: "page_entry a f AND 0xFFFFF000 = a AND 0xFFFFF000"
  by (simp add: page_entry_def bit.conj_disj_distrib2 and.assoc)

lemma page_entry_present [simp]: "page_entry a f AND 1 = f AND 1"
  by (simp add: page_entry_def bit.conj_disj_distrib2 and.assoc)

lemma unat_page_dir_index: "unat (page_dir_index v) = unat v div 4194304"
  by (simp add: page_dir_index_def drop_bit_eq_div unat_div)

lemma unat_page_table_index: "unat (page_table_index v) = unat v div 4096 mod 1024"
proof -
  have "(0x3FF :: uint32) = mask 10" by (simp add: mask_eq_exp_minus_1)
  then have "page_table_index v = take_bit 10 (drop_bit 12 v)"
    by (simp only: page_table_index_def take_bit_eq_mask)
  then have "page_table_index v = (v div 4096) mod 1024"
    by (simp add: take_bit_eq_mod drop_bit_eq_div)
  then show ?thesis by (simp add: unat_mod)
qed

lemma page_dir_index_less [simp]: "unat (page_dir_index v) < 1024"
  using unat32_less [of v] by (simp add: unat_page_dir_index)

lemma page_table_index_less [simp]: "unat (page_table_index v) < 1024"
  by (simp add: unat_page_table_index)

lemma unat_times4: "unat (i :: uint32) < 1024 \<Longrightarrow> unat (4 * i) = 4 * unat i"
  by (simp add: unat_word_ariths)

lemma times4_less [simp]: "unat (i :: uint32) < 1024 \<Longrightarrow> unat (4 * i) < 4096"
  by (simp add: unat_times4)

lemma times4_inject: "unat (i :: uint32) < 1024 \<Longrightarrow> unat j < 1024 \<Longrightarrow> 4 * i = 4 * j \<longleftrightarrow> i = j"
  by (metis mult_left_cancel unat_times4 word_unat_eq_iff zero_neq_numeral)


lemma slot_eq_iff:
  assumes "page_aligned b" "page_aligned c" "unat i < 1024" "unat j < 1024"
  shows "b + 4 * i = c + 4 * j \<longleftrightarrow> b = c \<and> i = j"
  using assms by (simp add: page_slot_eq_iff times4_inject)

lemma pdir_aligned [simp]: "page_aligned (pdir s)"
  by (simp add: pdir_def)

text \<open>The windows of the recursive mapping: which indices and offset an address in them has.\<close>

lemma dir_window:
  assumes "unat i < 1024"
  shows "page_dir_index (PAGE_DIR_VIRT_ADDR + 4 * i) = 1023"
    and "page_table_index (PAGE_DIR_VIRT_ADDR + 4 * i) = 1023"
    and "(PAGE_DIR_VIRT_ADDR + 4 * i) AND 0xFFF = 4 * i"
proof -
  have u: "unat (PAGE_DIR_VIRT_ADDR + 4 * i) = 4294963200 + 4 * unat i"
    using assms by (simp add: unat_page_slot page_aligned_def unat_times4)
  show "page_dir_index (PAGE_DIR_VIRT_ADDR + 4 * i) = 1023"
    using assms by (simp add: word_unat_eq_iff unat_page_dir_index u)
  have "(4294963200 + 4 * unat i) div 4096 = 1048575"
    using assms by (intro div_nat_eqI) simp_all
  then show "page_table_index (PAGE_DIR_VIRT_ADDR + 4 * i) = 1023"
    by (simp add: word_unat_eq_iff unat_page_table_index u)
  have "(4294963200 + 4 * unat i) mod 4096 = 4 * unat i"
    using assms mod_mult_self1 [of "4 * unat i" 1048575 4096] by (simp add: add.commute)
  then show "(PAGE_DIR_VIRT_ADDR + 4 * i) AND 0xFFF = 4 * i"
    using assms by (simp add: word_unat_eq_iff unat_page_offset u unat_times4)
qed

lemma unat_page_table_virt_addr:
  assumes "unat i < 1024"
  shows "unat (page_table_virt_addr i) = 4290772992 + 4096 * unat i"
proof -
  have "page_table_virt_addr i = 4290772992 + 4096 * i"
    by (simp add: page_table_virt_addr_def distrib_right)
  moreover have "unat (4096 * i) = 4096 * unat i"
    using assms by (simp add: unat_word_ariths)
  ultimately show ?thesis
    using assms by (simp add: unat_plus_if')
qed

lemma table_window:
  assumes "unat i < 1024" "unat j < 1024"
  shows "page_dir_index (page_table_virt_addr i + 4 * j) = 1023"
    and "page_table_index (page_table_virt_addr i + 4 * j) = i"
    and "(page_table_virt_addr i + 4 * j) AND 0xFFF = 4 * j"
proof -
  have al: "page_aligned (page_table_virt_addr i)"
    using assms by (simp add: page_aligned_def unat_page_table_virt_addr)
  have u: "unat (page_table_virt_addr i + 4 * j) = 4290772992 + 4096 * unat i + 4 * unat j"
    using assms al by (simp add: unat_page_slot unat_times4 unat_page_table_virt_addr)
  show "page_dir_index (page_table_virt_addr i + 4 * j) = 1023"
    using assms by (simp add: word_unat_eq_iff unat_page_dir_index u)
  have "(4290772992 + 4096 * unat i + 4 * unat j) div 4096 = 1047552 + unat i"
    using assms by (intro div_nat_eqI) simp_all
  moreover have "(1047552 + unat i) mod 1024 = unat i"
    using assms mod_mult_self1 [of "unat i" 1023 1024] by (simp add: add.commute)
  ultimately show "page_table_index (page_table_virt_addr i + 4 * j) = i"
    by (simp add: word_unat_eq_iff unat_page_table_index u)
  have "(4290772992 + 4096 * unat i + 4 * unat j) mod 4096 = 4 * unat j"
    using assms mod_mult_self1 [of "4 * unat j" "1047552 + unat i" 4096]
    by (simp add: add.commute add.left_commute distrib_right mult.commute)
  then show "(page_table_virt_addr i + 4 * j) AND 0xFFF = 4 * j"
    using assms by (simp add: word_unat_eq_iff unat_page_offset u unat_times4)
qed

section \<open>The recursive mapping\<close>

definition self_mapped :: "'a machine_scheme \<Rightarrow> bool" where
  "self_mapped s \<longleftrightarrow> pde 1023 s AND PAGE_PRESENT \<noteq> 0 \<and> pde 1023 s AND 0xFFFFF000 = pdir s"

lemma translate_dir_window:
  assumes "self_mapped s" "unat i < 1024"
  shows "mmu_translate (PAGE_DIR_VIRT_ADDR + 4 * i) s = Some (pdir s + 4 * i)"
  using assms
  by (simp add: mmu_translate_def pte_slot_def dir_window self_mapped_def pde_def Let_def)

lemma translate_table_window:
  assumes "self_mapped s" "unat i < 1024" "unat j < 1024" "pde i s AND PAGE_PRESENT \<noteq> 0"
  shows "mmu_translate (page_table_virt_addr i + 4 * j) s = Some ((pde i s AND 0xFFFFF000) + 4 * j)"
  using assms
  by (simp add: mmu_translate_def pte_slot_def table_window self_mapped_def pde_def Let_def)

lemma vread_dir [simp]:
  "self_mapped s \<Longrightarrow> unat i < 1024 \<Longrightarrow> vread (PAGE_DIR_VIRT_ADDR + 4 * i) s = Inr (pde i s)"
  by (simp add: vread_def translate_dir_window pde_def)

lemma vread_table:
  "self_mapped s \<Longrightarrow> unat i < 1024 \<Longrightarrow> unat j < 1024 \<Longrightarrow> pde i s AND PAGE_PRESENT \<noteq> 0 \<Longrightarrow>
   vread (page_table_virt_addr i + 4 * j) s = Inr (phys_mem s ((pde i s AND 0xFFFFF000) + 4 * j))"
  by (simp add: vread_def translate_table_window)

lemma vwrite_dir:
  "self_mapped s \<Longrightarrow> unat i < 1024 \<Longrightarrow>
   vwrite (PAGE_DIR_VIRT_ADDR + 4 * i) x s = Inr (s\<lparr>phys_mem := (phys_mem s)(pdir s + 4 * i := x)\<rparr>)"
  by (simp add: vwrite_def translate_dir_window)

lemma vwrite_table:
  "self_mapped s \<Longrightarrow> unat i < 1024 \<Longrightarrow> unat j < 1024 \<Longrightarrow> pde i s AND PAGE_PRESENT \<noteq> 0 \<Longrightarrow>
   vwrite (page_table_virt_addr i + 4 * j) x s =
   Inr (s\<lparr>phys_mem := (phys_mem s)((pde i s AND 0xFFFFF000) + 4 * j := x)\<rparr>)"
  by (simp add: vwrite_def translate_table_window)


text \<open>
  A directory in good order: it is self-mapped, no frame that serves as the directory or as
  one of its page tables is in the pool of free frames, no page table is the directory
  itself, and no two entries share a page table, except the two that \<^verbatim>\<open>entry.s\<close> fills with the same
  table: the first four megabytes are also at \<open>0xC0000000\<close>.
\<close>

definition twins :: "uint32 \<Rightarrow> uint32 \<Rightarrow> bool" where
  "twins i j \<longleftrightarrow> i = 0 \<and> j = 768 \<or> i = 768 \<and> j = 0"

lemma not_twins [simp]: "\<not> twins i i" "i \<noteq> 0 \<Longrightarrow> i \<noteq> 768 \<Longrightarrow> \<not> twins j i" "i \<noteq> 0 \<Longrightarrow> i \<noteq> 768 \<Longrightarrow> \<not> twins i j"
  by (auto simp: twins_def)

definition dir_ok :: "'a machine_scheme \<Rightarrow> bool" where
  "dir_ok s \<longleftrightarrow> self_mapped s \<and> frame_of (pdir s) \<notin> frames s \<and>
     (\<forall>i. unat i < 1023 \<longrightarrow> pde i s AND PAGE_PRESENT \<noteq> 0 \<longrightarrow>
        pde i s AND 0xFFFFF000 \<noteq> pdir s \<and> frame_of (pde i s) \<notin> frames s) \<and>
     (\<forall>i j. unat i < 1023 \<longrightarrow> unat j < 1023 \<longrightarrow> pde i s AND PAGE_PRESENT \<noteq> 0 \<longrightarrow> pde j s AND PAGE_PRESENT \<noteq> 0 \<longrightarrow>
        pde i s AND 0xFFFFF000 = pde j s AND 0xFFFFF000 \<longrightarrow> i = j \<or> twins i j)"

lemma dir_ok_frames:
  "dir_ok s \<Longrightarrow> unat i < 1023 \<Longrightarrow> pde i s AND PAGE_PRESENT \<noteq> 0 \<Longrightarrow> frame_of (pde i s) \<notin> frames s"
  by (simp add: dir_ok_def)

lemma dir_ok_tables:
  "dir_ok s \<Longrightarrow> unat i < 1023 \<Longrightarrow> unat j < 1023 \<Longrightarrow> pde i s AND PAGE_PRESENT \<noteq> 0 \<Longrightarrow> pde j s AND PAGE_PRESENT \<noteq> 0 \<Longrightarrow>
   \<not> twins i j \<Longrightarrow> pde i s AND 0xFFFFF000 = pde j s AND 0xFFFFF000 \<longleftrightarrow> i = j"
  by (auto simp: dir_ok_def)

lemma frame_of_base [simp]: "frame_of (w AND 0xFFFFF000) = frame_of w"
  by (simp add: frame_of_def unat_page_base)

lemma frame_of_eq_iff: "page_aligned a \<Longrightarrow> page_aligned b \<Longrightarrow> frame_of a = frame_of b \<longleftrightarrow> a = b"
  unfolding frame_of_def page_aligned_def word_unat_eq_iff
  by (metis add.right_neutral div_mult_mod_eq)

lemma frame_addr_aligned [simp]: "page_aligned (frame_addr p)"
proof -
  have "unat (frame_addr p) = (4096 * p) mod (4096 * 1048576)"
    by (simp add: frame_addr_def unat_word_ariths unat_of_nat mod_simps)
  then show ?thesis by (simp add: page_aligned_def mod_mult2_eq [of _ 4096 1048576, simplified])
qed

lemma pde_upd_other:
  "a \<noteq> pdir s + 4 * i \<Longrightarrow> pde i (s\<lparr>phys_mem := (phys_mem s)(a := x)\<rparr>) = pde i s"
  by (simp add: pde_def pdir_def)

lemma pdir_upd [simp]: "pdir (s\<lparr>phys_mem := m\<rparr>) = pdir s"
  by (simp add: pdir_def)

lemma frames_phys_mem [simp]: "frames (s\<lparr>phys_mem := m\<rparr>) = frames s"
  by (simp add: frames_def)

lemma palloc_ready_phys_mem [simp]: "palloc_ready (s\<lparr>phys_mem := m\<rparr>) = palloc_ready s"
  by (simp add: palloc_ready_def)

lemma machine_reserve [simp]:
  "phys_mem (mem_phys_reserve a s) = phys_mem s" "cr3 (mem_phys_reserve a s) = cr3 s"
  "pdir (mem_phys_reserve a s) = pdir s" "pde i (mem_phys_reserve a s) = pde i s"
  "self_mapped (mem_phys_reserve a s) = self_mapped s"
  by (simp_all add: mem_phys_reserve_def Let_def pdir_def pde_def self_mapped_def)

text \<open>
  Zeroing a fresh table through its window writes exactly the 1024 words of its frame, as
  long as that frame is not the directory.
\<close>

definition zero_slots :: "uint32 \<Rightarrow> nat \<Rightarrow> nat \<Rightarrow> (uint32 \<Rightarrow> uint32) \<Rightarrow> uint32 \<Rightarrow> uint32" where
  "zero_slots b j n m a = (if \<exists>k. j \<le> k \<and> k < j + n \<and> a = b + 4 * of_nat k then 0 else m a)"

lemma self_mapped_upd:
  "self_mapped s \<Longrightarrow> a \<noteq> pdir s + 4 * 1023 \<Longrightarrow> self_mapped (s\<lparr>phys_mem := (phys_mem s)(a := x)\<rparr>)"
  by (simp add: self_mapped_def pde_upd_other)

lemma zero_slots_0 [simp]: "zero_slots b j 0 m = m"
  by (rule ext) (auto simp: zero_slots_def)

lemma zero_slots_Suc: "zero_slots b j (Suc n) m = zero_slots b (Suc j) n (m(b + 4 * of_nat j := 0))"
proof
  fix a
  have "(\<exists>k. j \<le> k \<and> k < j + Suc n \<and> a = b + 4 * of_nat k) \<longleftrightarrow>
      a = b + 4 * of_nat j \<or> (\<exists>k. Suc j \<le> k \<and> k < Suc j + n \<and> a = b + 4 * of_nat k)"
    by (auto simp: Suc_le_eq le_eq_less_or_eq [of j] intro: exI [of _ j])
  then show "zero_slots b j (Suc n) m a = zero_slots b (Suc j) n (m(b + 4 * of_nat j := 0)) a"
    by (auto simp: zero_slots_def)
qed

lemma kmemset32_table:
  assumes "self_mapped s" "unat i < 1024" "pde i s AND PAGE_PRESENT \<noteq> 0"
    and "pde i s AND 0xFFFFF000 \<noteq> pdir s" "j + n \<le> 1024"
  shows "kmemset32 n (page_table_virt_addr i + 4 * of_nat j) 0 s =
    Inr (s\<lparr>phys_mem := zero_slots (pde i s AND 0xFFFFF000) j n (phys_mem s)\<rparr>)"
  using assms
proof (induction n arbitrary: s j)
  case 0
  then show ?case by simp
next
  case (Suc n)
  let ?b = "pde i s AND 0xFFFFF000"
  let ?s = "s\<lparr>phys_mem := (phys_mem s)(?b + 4 * of_nat j := 0)\<rparr>"
  have j: "unat (of_nat j :: uint32) < 1024" using Suc.prems by (simp add: unat_of_nat)
  have ne: "?b + 4 * of_nat j \<noteq> pdir s + 4 * k" if "unat k < 1024" for k
    using Suc.prems j that by (simp add: slot_eq_iff)
  have w: "vwrite (page_table_virt_addr i + 4 * of_nat j) 0 s = Inr ?s"
    using Suc.prems j by (simp add: vwrite_table)
  have p: "pde i ?s = pde i s" "self_mapped ?s"
    using ne [of i] ne [of 1023] Suc.prems by (simp_all add: pde_upd_other self_mapped_upd)
  have a: "page_table_virt_addr i + 4 * of_nat j + 4 = page_table_virt_addr i + 4 * of_nat (Suc j)"
    by (simp add: algebra_simps)
  have "kmemset32 n (page_table_virt_addr i + 4 * of_nat (Suc j)) 0 ?s =
      Inr (?s\<lparr>phys_mem := zero_slots (pde i ?s AND 0xFFFFF000) (Suc j) n (phys_mem ?s)\<rparr>)"
    by (rule Suc.IH) (use Suc.prems p in simp_all)
  then show ?case
    by (simp only: kmemset32.simps w bindE_Inr a) (simp add: p zero_slots_Suc)
qed


section \<open>Mapping a page\<close>

text \<open>Writing one entry of a page table, and giving a directory slot a fresh table.\<close>

definition install_pte :: "uint32 \<Rightarrow> uint32 \<Rightarrow> 'a machine_scheme \<Rightarrow> 'a machine_scheme" where
  "install_pte virt e s = s\<lparr>phys_mem := (phys_mem s)(pte_slot virt s := e)\<rparr>"

definition fresh_table :: "uint32 \<Rightarrow> uint32 \<Rightarrow> 'a machine_scheme \<Rightarrow> 'a machine_scheme" where
  "fresh_table i f s =
     (let s = mem_phys_reserve f s
      in s\<lparr>phys_mem := zero_slots f 0 1024 ((phys_mem s)(pdir s + 4 * i := page_entry f 7))\<rparr>)"

definition with_table :: "uint32 \<Rightarrow> 'a machine_scheme \<Rightarrow> 'a machine_scheme" where
  "with_table i s =
     (if pde i s AND PAGE_PRESENT \<noteq> 0 then s else fresh_table i (frame_addr (Min (frames s))) s)"

lemma dir_index_less: "unat i < 1024 \<Longrightarrow> i \<noteq> 1023 \<Longrightarrow> unat (i :: uint32) < 1023"
  by (simp add: word_unat_eq_iff)

lemma install_pte_pde:
  assumes "dir_ok s" "page_dir_index virt \<noteq> 1023" "pde (page_dir_index virt) s AND PAGE_PRESENT \<noteq> 0"
    and "unat i < 1024"
  shows "pde i (install_pte virt e s) = pde i s"
  using assms dir_index_less [of "page_dir_index virt"]
  by (simp add: install_pte_def pde_upd_other pte_slot_def slot_eq_iff dir_ok_def)

lemma pdir_install_pte [simp]: "pdir (install_pte virt e s) = pdir s"
  by (simp add: install_pte_def)

lemma frames_install_pte [simp]: "frames (install_pte virt e s) = frames s"
  by (simp add: install_pte_def)

lemma dir_ok_cong:
  assumes "pdir t = pdir s" "frames t \<subseteq> frames s" "\<And>i. unat i < 1024 \<Longrightarrow> pde i t = pde i s"
  shows "dir_ok s \<Longrightarrow> dir_ok t"
  using assms by (auto simp: dir_ok_def self_mapped_def subset_iff)

lemma install_pte_ok:
  assumes "dir_ok s" "page_dir_index virt \<noteq> 1023" "pde (page_dir_index virt) s AND PAGE_PRESENT \<noteq> 0"
  shows "dir_ok (install_pte virt e s)"
  by (rule dir_ok_cong [OF _ _ _ assms(1)]) (use assms install_pte_pde in simp_all)

lemma translate_install_pte:
  assumes ok: "dir_ok s" "page_dir_index virt \<noteq> 1023" "pde (page_dir_index virt) s AND PAGE_PRESENT \<noteq> 0"
  shows "mmu_translate v (install_pte virt e s) =
    (if pde (page_dir_index v) s AND PAGE_PRESENT \<noteq> 0 \<and> pte_slot v s = pte_slot virt s
     then if e AND PAGE_PRESENT = 0 then None else Some ((e AND 0xFFFFF000) + (v AND 0xFFF))
     else mmu_translate v s)"
proof -
  have "pde (page_dir_index v) (install_pte virt e s) = pde (page_dir_index v) s"
    using ok by (intro install_pte_pde) simp_all
  moreover from this have "pte_slot v (install_pte virt e s) = pte_slot v s"
    by (simp add: pte_slot_def)
  moreover have "phys_mem (install_pte virt e s) a = (if a = pte_slot virt s then e else phys_mem s a)" for a
    by (simp add: install_pte_def)
  ultimately show ?thesis
    by (simp add: mmu_translate_def Let_def)
qed


text \<open>The frame chosen for a fresh table is in use neither as the directory nor as a table.\<close>

lemma fresh_frame:
  assumes "dir_ok s" "frames s \<noteq> {}"
  defines "f \<equiv> frame_addr (Min (frames s))"
  shows "page_aligned f" "f \<noteq> pdir s" "frame_of f \<in> frames s"
    and "\<And>i. unat i < 1023 \<Longrightarrow> pde i s AND PAGE_PRESENT \<noteq> 0 \<Longrightarrow> pde i s AND 0xFFFFF000 \<noteq> f"
proof -
  have m: "Min (frames s) \<in> frames s" using assms(2) by simp
  then have "Min (frames s) < PAGES" using frames_bounded [of s] by auto
  then show f: "frame_of f \<in> frames s" using m by (simp add: f_def)
  show "page_aligned f" by (simp add: f_def)
  show "f \<noteq> pdir s" using f assms(1) by (auto simp: dir_ok_def)
  show "pde i s AND 0xFFFFF000 \<noteq> f" if "unat i < 1023" "pde i s AND PAGE_PRESENT \<noteq> 0" for i
    using that f assms(1) by (auto simp: dir_ok_def dest: arg_cong [of _ _ frame_of])
qed

lemma zero_slots_other: "page_aligned b \<Longrightarrow> page_aligned f \<Longrightarrow> b \<noteq> f \<Longrightarrow> unat i < 1024 \<Longrightarrow>
   zero_slots f 0 1024 m (b + 4 * i) = m (b + 4 * i)"
  by (auto simp: zero_slots_def slot_eq_iff unat_of_nat)

lemma zero_slots_inside: "unat i < 1024 \<Longrightarrow> zero_slots f 0 1024 m (f + 4 * i) = 0"
  unfolding zero_slots_def by (rule if_P) (auto intro!: exI [of _ "unat i"])

lemma fresh_table_pde:
  assumes "page_aligned f" "f \<noteq> pdir s" "unat i < 1024" "unat j < 1024"
  shows "pde j (fresh_table i f s) = (if j = i then page_entry f 7 else pde j s)"
  using assms by (simp add: fresh_table_def Let_def pde_def zero_slots_other times4_inject)

lemma pdir_fresh_table [simp]: "pdir (fresh_table i f s) = pdir s"
  by (simp add: fresh_table_def Let_def)

lemma frames_fresh_table [simp]: "frames (fresh_table i f s) = frames s - {frame_of f}"
  by (simp add: fresh_table_def Let_def)

lemma frame_of_page_entry [simp]: "frame_of (page_entry a fl) = frame_of a"
  by (metis frame_of_base page_entry_base)

lemma fresh_table_ok:
  assumes ok: "dir_ok s" and f: "page_aligned f" "f \<noteq> pdir s" "frame_of f \<in> frames s"
    and i: "unat i < 1024" "i \<noteq> 1023"
  shows "dir_ok (fresh_table i f s)"
proof -
  have other: "pde j s AND 0xFFFFF000 \<noteq> f" if "unat j < 1023" "pde j s AND PAGE_PRESENT \<noteq> 0" for j
    using dir_ok_frames [OF ok that] f(3) by (metis frame_of_base)
  show ?thesis
    unfolding dir_ok_def
  proof (intro conjI allI impI)
    show "self_mapped (fresh_table i f s)"
      using ok f i by (simp add: self_mapped_def fresh_table_pde dir_ok_def)
    show "frame_of (pdir (fresh_table i f s)) \<notin> frames (fresh_table i f s)"
      using ok by (simp add: dir_ok_def)
    fix j assume j: "unat j < 1023" "pde j (fresh_table i f s) AND PAGE_PRESENT \<noteq> 0"
    show "pde j (fresh_table i f s) AND 0xFFFFF000 \<noteq> pdir (fresh_table i f s)"
      "frame_of (pde j (fresh_table i f s)) \<notin> frames (fresh_table i f s)"
      using j ok f i by (auto simp: fresh_table_pde dir_ok_def page_base_aligned split: if_splits)
    fix k assume k: "unat k < 1023" "pde k (fresh_table i f s) AND PAGE_PRESENT \<noteq> 0"
      and same: "pde j (fresh_table i f s) AND 0xFFFFF000 = pde k (fresh_table i f s) AND 0xFFFFF000"
    show "j = k \<or> twins j k"
    proof (rule ccontr)
      assume nt: "\<not> (j = k \<or> twins j k)"
      then have "j \<noteq> k" by simp
      have p: "pde x (fresh_table i f s) = (if x = i then page_entry f 7 else pde x s)" if "unat x < 1023" for x
        using that f i by (intro fresh_table_pde) simp_all
      consider "j = i" "k \<noteq> i" | "k = i" "j \<noteq> i" | "j \<noteq> i" "k \<noteq> i" using \<open>j \<noteq> k\<close> by blast
      then show False
      proof cases
        case 1
        then show False using k same other [of k] f(1) p [OF j(1)] p [OF k(1)] by (simp add: page_base_aligned)
      next
        case 2
        then show False using j same other [of j] f(1) p [OF j(1)] p [OF k(1)] by (simp add: page_base_aligned)
      next
        case 3
        then show False
          using j k same p [OF j(1)] p [OF k(1)] dir_ok_tables [OF ok j(1) k(1)] nt by simp
      qed
    qed
  qed
qed

lemma translate_fresh_table:
  assumes ok: "dir_ok s" and f: "page_aligned f" "f \<noteq> pdir s"
    and other: "\<And>j. unat j < 1023 \<Longrightarrow> pde j s AND PAGE_PRESENT \<noteq> 0 \<Longrightarrow> pde j s AND 0xFFFFF000 \<noteq> f"
    and i: "unat i < 1024" "pde i s AND PAGE_PRESENT = 0"
    and v: "page_dir_index v \<noteq> 1023"
  shows "mmu_translate v (fresh_table i f s) = mmu_translate v s"
proof (cases "page_dir_index v = i")
  case True
  have "pte_slot v (fresh_table i f s) = f + 4 * page_table_index v"
    using True f i by (simp add: pte_slot_def fresh_table_pde page_base_aligned)
  then have "phys_mem (fresh_table i f s) (pte_slot v (fresh_table i f s)) = 0"
    by (simp add: fresh_table_def Let_def zero_slots_inside)
  then show ?thesis using True i by (simp add: mmu_translate_def Let_def)
next
  case False
  let ?j = "page_dir_index v"
  have j: "unat ?j < 1023" using v by (intro dir_index_less) simp_all
  have p: "pde ?j (fresh_table i f s) = pde ?j s"
    using False f i by (simp add: fresh_table_pde)
  show ?thesis
  proof (cases "pde ?j s AND PAGE_PRESENT = 0")
    case True
    then show ?thesis by (simp add: mmu_translate_def p)
  next
    case pr: False
    have ne: "pde ?j s AND 0xFFFFF000 \<noteq> f" "pde ?j s AND 0xFFFFF000 \<noteq> pdir s"
      using other [OF j pr] ok j pr by (auto simp: dir_ok_def)
    have "phys_mem (fresh_table i f s) (pte_slot v s) = phys_mem s (pte_slot v s)"
      using ne f i by (simp add: fresh_table_def Let_def pte_slot_def zero_slots_other slot_eq_iff)
    then show ?thesis by (simp add: mmu_translate_def p pte_slot_def)
  qed
qed


definition map_ready :: "'a machine_scheme \<Rightarrow> bool" where
  "map_ready s \<longleftrightarrow> dir_ok s \<and> palloc_ready s \<and> frames s \<noteq> {}"

lemma fresh_table_chain:
  assumes "map_ready s" "unat i < 1024" "i \<noteq> 1023" "pde i s AND PAGE_PRESENT = 0"
  defines "f \<equiv> frame_addr (Min (frames s))"
  shows "bindE (vwrite (PAGE_DIR_VIRT_ADDR + 4 * i) (page_entry f 7) (mem_phys_reserve f s))
      (kmemset32 1024 (page_table_virt_addr i) 0) = Inr (fresh_table i f s)"
proof -
  let ?s = "mem_phys_reserve f s"
  let ?t = "?s\<lparr>phys_mem := (phys_mem s)(pdir s + 4 * i := page_entry f 7)\<rparr>"
  have sm: "self_mapped s" and ok: "dir_ok s" "frames s \<noteq> {}"
    using assms(1) by (auto simp: map_ready_def dir_ok_def)
  note f = fresh_frame [OF ok, folded f_def]
  have w: "vwrite (PAGE_DIR_VIRT_ADDR + 4 * i) (page_entry f 7) ?s = Inr ?t"
    using assms sm by (simp add: vwrite_dir)
  have "pdir s + 4 * i \<noteq> pdir s + 4 * 1023"
    using assms(2,3) times4_inject [of i 1023] by simp
  then have smt: "self_mapped ?t" using sm self_mapped_upd [of ?s] by simp
  have pt: "pde i ?t = page_entry f 7" by (simp add: pde_def)
  have k: "kmemset32 1024 (page_table_virt_addr i + 4 * of_nat 0) 0 ?t =
      Inr (?t\<lparr>phys_mem := zero_slots (pde i ?t AND 0xFFFFF000) 0 1024 (phys_mem ?t)\<rparr>)"
    using smt assms(2) f(1,2) by (intro kmemset32_table) (simp_all add: pt page_base_aligned)
  then show ?thesis
    using f(1) by (simp add: w pt page_base_aligned fresh_table_def Let_def)
qed

lemma with_table_present: "pde i (with_table i s) AND PAGE_PRESENT \<noteq> 0"
  if "map_ready s" "unat i < 1024"
  using that fresh_frame [of s] by (auto simp: with_table_def map_ready_def fresh_table_pde)

lemma with_table_ok: "dir_ok (with_table i s)"
  if "map_ready s" "unat i < 1024" "i \<noteq> 1023"
  using that fresh_frame [of s] by (auto simp: with_table_def map_ready_def intro!: fresh_table_ok)

lemma translate_with_table:
  "map_ready s \<Longrightarrow> unat i < 1024 \<Longrightarrow> page_dir_index v \<noteq> 1023 \<Longrightarrow>
   mmu_translate v (with_table i s) = mmu_translate v s"
  using fresh_frame [of s] by (auto simp: with_table_def map_ready_def intro!: translate_fresh_table)

lemma with_table_frame [simp]:
  "pdir (with_table i s) = pdir s" "cr3 (with_table i s) = cr3 s"
  "palloc_ready (with_table i s) = palloc_ready s" "machine.more (with_table i s) = machine.more s"
  by (simp_all add: with_table_def fresh_table_def Let_def) (simp add: mem_phys_reserve_def Let_def)

lemma frames_with_table:
  "frames (with_table i s) = (if pde i s AND PAGE_PRESENT \<noteq> 0 then frames s else frames s - {Min (frames s)})"
  if "map_ready s"
proof -
  have "Min (frames s) \<in> frames s" using that by (simp add: map_ready_def)
  then have "Min (frames s) < PAGES" using frames_bounded [of s] by auto
  then show ?thesis by (simp add: with_table_def)
qed

text \<open>What \<open>paging_map\<close> computes: make sure there is a table, then install the entry in it.\<close>

definition map_page :: "uint32 \<Rightarrow> uint32 \<Rightarrow> 'a machine_scheme \<Rightarrow> 'a machine_scheme" where
  "map_page virt e s = install_pte virt e (with_table (page_dir_index virt) s)"

lemma paging_map_eq:
  assumes "map_ready s" "page_dir_index virt \<noteq> 1023"
  shows "paging_map virt phys flags s =
    Inr (map_page virt (page_entry phys flags) s)"
proof -
  let ?i = "page_dir_index virt" and ?j = "page_table_index virt"
  let ?t = "with_table ?i s"
  have r: "palloc_ready s" "frames s \<noteq> {}" and sm: "self_mapped s"
    using assms(1) by (auto simp: map_ready_def dir_ok_def)
  have tab: "(if pde ?i s AND PAGE_PRESENT \<noteq> 0 then Inr s
       else bindE (mem_phys_alloc s) (\<lambda>(frame, s).
         bindE (vwrite (PAGE_DIR_VIRT_ADDR + 4 * ?i) (page_entry frame (2 OR 4 OR 1)) s) (\<lambda>s.
         kmemset32 1024 (page_table_virt_addr ?i) 0 s))) = Inr ?t"
    using fresh_table_chain [OF assms(1) _ assms(2)]
    by (simp add: with_table_def mem_phys_alloc_lowest [OF r])
  have "self_mapped ?t" using with_table_ok [OF assms(1) _ assms(2)] by (simp add: dir_ok_def)
  then have "vwrite (page_table_virt_addr ?i + 4 * ?j) (page_entry phys flags) ?t =
      Inr (install_pte virt (page_entry phys flags) ?t)"
    using with_table_present [OF assms(1), of ?i] by (simp add: vwrite_table install_pte_def pte_slot_def)
  with tab sm show ?thesis by (simp add: paging_map_def Let_def map_page_def)
qed


lemma same_page_iff:
  "v AND 0xFFFFF000 = w AND 0xFFFFF000 \<longleftrightarrow>
   page_dir_index v = page_dir_index w \<and> page_table_index v = page_table_index w"
proof -
  have "v AND 0xFFFFF000 = w AND 0xFFFFF000 \<longleftrightarrow> unat v div 4096 = unat w div 4096"
    by (simp add: word_unat_eq_iff unat_page_base)
  moreover have "unat x div 4194304 = unat x div 4096 div 1024" for x :: uint32
    by (simp add: div_mult2_eq [symmetric])
  moreover have "unat v div 4096 = unat w div 4096 \<longleftrightarrow>
      unat v div 4096 div 1024 = unat w div 4096 div 1024 \<and> unat v div 4096 mod 1024 = unat w div 4096 mod 1024"
    by (metis div_mult_mod_eq)
  ultimately show ?thesis
    unfolding word_unat_eq_iff [of "page_dir_index v"] word_unat_eq_iff [of "page_table_index v"]
      unat_page_dir_index unat_page_table_index by (simp only:)
qed

text \<open>In a directory in good order, two pages of the user and kernel area have different slots.\<close>

lemma pte_slot_inject:
  assumes "dir_ok s" "page_dir_index v \<noteq> 1023" "page_dir_index w \<noteq> 1023"
    and "pde (page_dir_index v) s AND PAGE_PRESENT \<noteq> 0" "pde (page_dir_index w) s AND PAGE_PRESENT \<noteq> 0"
    and "\<not> twins (page_dir_index v) (page_dir_index w)"
  shows "pte_slot v s = pte_slot w s \<longleftrightarrow> v AND 0xFFFFF000 = w AND 0xFFFFF000"
proof -
  have "unat (page_dir_index v) < 1023" "unat (page_dir_index w) < 1023"
    using assms(2,3) by (auto intro: dir_index_less)
  with assms show ?thesis
    by (simp add: pte_slot_def slot_eq_iff same_page_iff [of v w] dir_ok_tables)
qed

lemma map_page_translate:
  assumes "map_ready s" "page_dir_index virt \<noteq> 1023" "page_dir_index v \<noteq> 1023" "\<not> twins (page_dir_index v) (page_dir_index virt)"
  shows "mmu_translate v (map_page virt e s) =
    (if v AND 0xFFFFF000 = virt AND 0xFFFFF000
     then if e AND PAGE_PRESENT = 0 then None else Some ((e AND 0xFFFFF000) + (v AND 0xFFF))
     else mmu_translate v s)"
proof -
  let ?i = "page_dir_index virt"
  let ?t = "with_table ?i s"
  have ok: "dir_ok ?t" and pr: "pde ?i ?t AND PAGE_PRESENT \<noteq> 0"
    using assms by (simp_all add: with_table_ok with_table_present)
  have "pde (page_dir_index v) ?t AND PAGE_PRESENT \<noteq> 0" if "v AND 0xFFFFF000 = virt AND 0xFFFFF000"
    using that pr by (simp add: same_page_iff)
  then show ?thesis
    using pte_slot_inject [OF ok assms(3,2) _ pr assms(4)] assms
    by (auto simp: map_page_def translate_install_pte [OF ok assms(2) pr] translate_with_table)
qed

lemma map_page_ok:
  assumes "map_ready s" "page_dir_index virt \<noteq> 1023"
  shows "dir_ok (map_page virt e s)"
  unfolding map_page_def using assms by (intro install_pte_ok) (simp_all add: with_table_ok with_table_present)

lemma map_page_frame [simp]:
  "pdir (map_page virt e s) = pdir s" "cr3 (map_page virt e s) = cr3 s"
  "palloc_ready (map_page virt e s) = palloc_ready s" "machine.more (map_page virt e s) = machine.more s"
  by (simp_all add: map_page_def) (simp_all add: install_pte_def)

lemma frames_map_page:
  "map_ready s \<Longrightarrow> frames (map_page virt e s) =
    (if pde (page_dir_index virt) s AND PAGE_PRESENT \<noteq> 0 then frames s else frames s - {Min (frames s)})"
  by (simp add: map_page_def frames_with_table)

lemma map_page_pde:
  assumes "map_ready s" "page_dir_index virt \<noteq> 1023" "unat i < 1024"
  shows "pde i (map_page virt e s) =
    (if i = page_dir_index virt \<and> pde i s AND PAGE_PRESENT = 0
     then page_entry (frame_addr (Min (frames s))) 7 else pde i s)"
proof -
  have "pde i (map_page virt e s) = pde i (with_table (page_dir_index virt) s)"
    unfolding map_page_def using assms by (intro install_pte_pde) (simp_all add: with_table_ok with_table_present)
  then show ?thesis
    using assms fresh_frame [of s] by (auto simp: with_table_def map_ready_def fresh_table_pde)
qed

text \<open>The two queries agree with the walk of the MMU.\<close>

lemma paging_is_mapped_eq:
  "self_mapped s \<Longrightarrow> paging_is_mapped virt s = Inr (if mmu_translate virt s = None then 0 else 1)"
proof -
  assume sm: "self_mapped s"
  have one: "ucast (e AND 1 :: uint32) = (if e AND 1 = 0 then 0 else 1 :: uint8)" for e
    by (simp add: and_one_eq mod_2_eq_odd)
  show ?thesis
    using sm by (simp add: paging_is_mapped_def Let_def vread_table mmu_translate_def pte_slot_def one)
qed

lemma paging_get_phys_eq:
  assumes "self_mapped s"
  shows "paging_get_phys addr s =
    Inr (case mmu_translate addr s of None \<Rightarrow> 0 | Some p \<Rightarrow> p AND 0xFFFFF000)"
proof (cases "mmu_translate addr s")
  case None
  then show ?thesis using assms by (simp add: paging_get_phys_def paging_is_mapped_eq)
next
  case (Some p)
  then have pr: "pde (page_dir_index addr) s AND PAGE_PRESENT \<noteq> 0"
    and p: "p = (phys_mem s (pte_slot addr s) AND 0xFFFFF000) + (addr AND 0xFFF)"
    by (auto simp: mmu_translate_def Let_def split: if_splits)
  have off: "unat (addr AND 0xFFF) < 4096" by (simp add: unat_page_offset)
  have "p AND 0xFFFFF000 = phys_mem s (pte_slot addr s) AND 0xFFFFF000"
    using off unat_page_slot [OF page_aligned_base off, of "phys_mem s (pte_slot addr s)"]
    by (simp add: word_unat_eq_iff unat_page_base p)
  then show ?thesis
    using Some assms pr by (simp add: paging_get_phys_def Let_def paging_is_mapped_eq vread_table pte_slot_def)
qed

end
