(* ===== verification/Kmalloc.thy ===== *)
theory Kmalloc
  imports Prelude
begin

text \<open>
  The kernel heap, \<^verbatim>\<open>kernel/kmalloc.c\<close>: a buddy allocator. \<open>heads[l]\<close> is the head of a list
  of free blocks of \<open>2 ^ (l + 3)\<close> bytes for \<open>l = 1, ..., 15\<close>, and \<open>heads[0]\<close> the head of the
  list of unused nodes. A list is a chain of indices into the array \<open>nodes\<close>, ended by 0, and
  the lists of blocks are ordered by address. This theory models the operations on these
  lists; \<open>mem_alloc\<close> and \<open>mem_free\<close>, which also move the end of the heap, are in the theory
  of \<^verbatim>\<open>memory.c\<close>.

  The arrays are functions of their index, and every access outside the array is the fault
  \<open>OutOfBounds\<close>. The index \<open>list\<close> (\<^verbatim>\<open>uint8\<close> or \<^verbatim>\<open>uint16\<close> in the code, never above 28) is a
  natural number. The loops of \<open>list_put\<close> and \<open>list_clean\<close> follow chains, so they carry fuel;
  \<open>put_fuel\<close> is enough for every list \<open>l\<close> of a well-formed allocator (lemma \<open>list_put_ok\<close>).
\<close>

section \<open>Data\<close>

abbreviation (input) ALOCATORS :: nat where "ALOCATORS \<equiv> 16"
abbreviation (input) NODES :: nat where "NODES \<equiv> 4092"

record mem_node =
  node_addr :: uint32
  node_next :: uint16

record mem_allocator =
  heads :: "nat \<Rightarrow> uint16"
  nodes :: "uint16 \<Rightarrow> mem_node"

definition list_size :: "nat \<Rightarrow> uint32" where
  "list_size list = push_bit (list + 3) 1"

text \<open>Array accesses.\<close>

definition head_at :: "nat \<Rightarrow> mem_allocator \<Rightarrow> uint16 res" where
  "head_at list a = (if list < ALOCATORS then Inr (heads a list) else Inl OutOfBounds)"

definition node_at :: "uint16 \<Rightarrow> mem_allocator \<Rightarrow> mem_node res" where
  "node_at i a = (if unat i < NODES then Inr (nodes a i) else Inl OutOfBounds)"

definition set_head :: "nat \<Rightarrow> uint16 \<Rightarrow> mem_allocator \<Rightarrow> mem_allocator" where
  "set_head list i a = a\<lparr>heads := (heads a)(list := i)\<rparr>"

definition set_next :: "uint16 \<Rightarrow> uint16 \<Rightarrow> mem_allocator \<Rightarrow> mem_allocator res" where
  "set_next i j a =
     bindE (node_at i a) (\<lambda>n. Inr (a\<lparr>nodes := (nodes a)(i := n\<lparr>node_next := j\<rparr>)\<rparr>))"

section \<open>Operations\<close>

definition mem_allocator_init :: "mem_allocator \<Rightarrow> mem_allocator" where
  "mem_allocator_init a = a
     \<lparr>nodes := (\<lambda>i. if unat i < NODES
        then \<lparr>node_addr = 0, node_next = (if unat i = NODES - 1 then 0 else i + 1)\<rparr> else nodes a i),
      heads := (\<lambda>l. if l = 0 then 1 else if l < ALOCATORS then 0 else heads a l)\<rparr>"

definition node_new :: "uint32 \<Rightarrow> mem_allocator \<Rightarrow> (uint16 \<times> mem_allocator) res" where
  "node_new addr a =
     (let i = heads a 0 in
      bindE (node_at i a) (\<lambda>n.
      let a = set_head 0 (node_next n) a
      in Inr (i, a\<lparr>nodes := (nodes a)(i := \<lparr>node_addr = addr, node_next = 0\<rparr>)\<rparr>)))"

definition node_free :: "uint16 \<Rightarrow> mem_allocator \<Rightarrow> mem_allocator res" where
  "node_free i a =
     bindE (node_at i a) (\<lambda>_.
     let a = a\<lparr>nodes := (nodes a)(i := \<lparr>node_addr = 0, node_next = heads a 0\<rparr>)\<rparr>
     in Inr (set_head 0 i a))"

text \<open>The loop of \<open>list_put\<close> that looks for the place of the new node.\<close>

fun list_walk :: "nat \<Rightarrow> mem_allocator \<Rightarrow> uint16 \<Rightarrow> uint16 \<Rightarrow> uint16 \<Rightarrow> (uint16 \<times> uint16) res" where
  "list_walk 0 a new_node prev cur = Inl Diverges"
| "list_walk (Suc fuel) a new_node prev cur =
     (if cur = 0 then Inr (prev, cur)
      else bindE (node_at new_node a) (\<lambda>n. bindE (node_at cur a) (\<lambda>c.
        if node_addr c < node_addr n then list_walk fuel a new_node cur (node_next c)
        else Inr (prev, cur))))"

text \<open>
  \<open>list_put\<close> and \<open>list_clean\<close> call each other; \<open>clean_loop\<close> is the loop of \<open>list_clean\<close>, with
  its local variables \<open>prev\<close> and \<open>cur\<close>.
\<close>

fun list_put :: "nat \<Rightarrow> nat \<Rightarrow> uint16 \<Rightarrow> mem_allocator \<Rightarrow> mem_allocator res"
  and list_clean :: "nat \<Rightarrow> nat \<Rightarrow> mem_allocator \<Rightarrow> mem_allocator res"
  and clean_loop :: "nat \<Rightarrow> nat \<Rightarrow> uint16 \<Rightarrow> uint16 \<Rightarrow> mem_allocator \<Rightarrow> mem_allocator res" where
  "list_put 0 list new_node a = Inl Diverges"
| "list_put (Suc fuel) list new_node a =
     bindE (head_at list a) (\<lambda>cur.
     bindE (list_walk fuel a new_node 0 cur) (\<lambda>(prev, cur).
     bindE (set_next new_node cur a) (\<lambda>a.
     bindE (if prev \<noteq> 0 then set_next prev new_node a else Inr (set_head list new_node a)) (\<lambda>a.
     if list < ALOCATORS - 1 then list_clean fuel list a else Inr a))))"
| "list_clean 0 list a = Inl Diverges"
| "list_clean (Suc fuel) list a = bindE (head_at list a) (\<lambda>cur. clean_loop fuel list 0 cur a)"
| "clean_loop 0 list prev cur a = Inl Diverges"
| "clean_loop (Suc fuel) list prev cur a =
     (if cur = 0 then Inr a
      else bindE (node_at cur a) (\<lambda>c.
      let nxt = node_next c in
      bindE (if nxt \<noteq> 0 \<and> node_addr c mod list_size (list + 1) = 0
             then bindE (node_at nxt a) (\<lambda>n. Inr (node_addr c + list_size list = node_addr n))
             else Inr False) (\<lambda>merge.
      if merge then
        bindE (node_at nxt a) (\<lambda>n.
        bindE (if prev \<noteq> 0 then set_next prev (node_next n) a
               else Inr (set_head list (node_next n) a)) (\<lambda>a.
        bindE (list_put fuel (list + 1) cur a) (\<lambda>a.
        bindE (node_at nxt a) (\<lambda>n.
        let cur = node_next n in
        bindE (node_free nxt a) (\<lambda>a. clean_loop fuel list prev cur a)))))
      else clean_loop fuel list cur nxt a)))"

definition put_fuel :: nat where "put_fuel = 65600"

function list_get :: "nat \<Rightarrow> mem_allocator \<Rightarrow> (uint32 \<times> mem_allocator) res" where
  "list_get list a =
     (if ALOCATORS \<le> list then Inr (0, a)
      else let elem = heads a list in
      if elem \<noteq> 0 then
        bindE (node_at elem a) (\<lambda>n.
        let a = set_head list (node_next n) a; addr = node_addr n in
        bindE (node_free elem a) (\<lambda>a. Inr (addr, a)))
      else
        bindE (list_get (list + 1) a) (\<lambda>(addr, a).
        if addr \<noteq> 0 then
          bindE (node_new (addr + list_size (list + 1) div 2) a) (\<lambda>(elem, a).
          bindE (list_put put_fuel list elem a) (\<lambda>a. Inr (addr, a)))
        else Inr (addr, a)))"
  by pat_completeness auto
termination
  by (relation "measure (\<lambda>(list, a). ALOCATORS - list)") auto

declare list_get.simps [simp del]

section \<open>Free blocks\<close>

text \<open>
  A free block is a pair of its list and its address. \<open>blocks_ok\<close>: every block is aligned to
  its size, does not start at 0, does not reach past the end of the address space, and no two
  blocks overlap. \<open>coalesced\<close>: no two buddies of one list are both free.
\<close>

definition bsize :: "nat \<Rightarrow> nat" where
  "bsize l = 2 ^ (l + 3)"

definition block :: "nat \<times> nat \<Rightarrow> nat set" where
  "block b = {snd b ..< snd b + bsize (fst b)}"

definition block_fits :: "nat \<times> nat \<Rightarrow> bool" where
  "block_fits b \<longleftrightarrow> 1 \<le> fst b \<and> fst b \<le> 15 \<and> bsize (fst b) dvd snd b \<and> 0 < snd b \<and> snd b + bsize (fst b) \<le> 2 ^ 32"

definition blocks_ok :: "(nat \<times> nat) set \<Rightarrow> bool" where
  "blocks_ok B \<longleftrightarrow> (\<forall>b\<in>B. block_fits b) \<and> (\<forall>b\<in>B. \<forall>c\<in>B. b \<noteq> c \<longrightarrow> block b \<inter> block c = {})"

definition bytes :: "(nat \<times> nat) set \<Rightarrow> nat set" where
  "bytes B = (\<Union>b\<in>B. block b)"

definition buddies :: "(nat \<times> nat) set \<Rightarrow> nat \<Rightarrow> nat \<Rightarrow> bool" where
  "buddies B l x \<longleftrightarrow> (l, x) \<in> B \<and> (l, x + bsize l) \<in> B \<and> bsize (Suc l) dvd x"

definition coalesced :: "(nat \<times> nat) set \<Rightarrow> nat \<Rightarrow> bool" where
  "coalesced B l \<longleftrightarrow> (l < 15 \<longrightarrow> (\<forall>x. \<not> buddies B l x))"

lemma bsize_Suc: "bsize (Suc l) = 2 * bsize l"
  unfolding bsize_def by (metis add_Suc power_Suc)

lemma bsize_pos [simp]: "0 < bsize l"
  by (simp add: bsize_def)

lemma bsize_neq_0 [simp]: "bsize l \<noteq> 0"
  by (simp add: bsize_def)

lemma block_split: "block (Suc l, x) = block (l, x) \<union> block (l, x + bsize l)"
  by (auto simp: block_def bsize_Suc)

lemma block_halves_disjoint [simp]: "block (l, x) \<inter> block (l, x + bsize l) = {}"
  by (auto simp: block_def)

lemma blocks_ok_subset: "blocks_ok B \<Longrightarrow> C \<subseteq> B \<Longrightarrow> blocks_ok C"
  unfolding blocks_ok_def by blast

lemma bytes_insert [simp]: "bytes (insert b B) = block b \<union> bytes B"
  by (simp add: bytes_def)

lemma bytes_empty [simp]: "bytes {} = {}"
  by (simp add: bytes_def)

lemma bytes_Un [simp]: "bytes (B \<union> C) = bytes B \<union> bytes C"
  by (auto simp: bytes_def)

lemma blocks_ok_insert:
  "blocks_ok B \<Longrightarrow> block_fits b \<Longrightarrow> block b \<inter> bytes B = {} \<Longrightarrow> blocks_ok (insert b B)"
  unfolding blocks_ok_def bytes_def by blast

lemma bytes_remove:
  assumes "blocks_ok B" "b \<in> B"
  shows "bytes (B - {b}) = bytes B - block b"
  using assms unfolding blocks_ok_def bytes_def by blast

lemma block_notin_bytes: "blocks_ok B \<Longrightarrow> b \<in> B \<Longrightarrow> block b \<inter> bytes (B - {b}) = {}"
  by (auto simp: bytes_remove)

lemma block_fits_double:
  "block_fits (l, x) \<Longrightarrow> block_fits (l, x + bsize l) \<Longrightarrow> bsize (Suc l) dvd x \<Longrightarrow> l < 15 \<Longrightarrow>
   block_fits (Suc l, x)"
  by (simp add: block_fits_def bsize_Suc)

text \<open>Replacing two buddies by the block they form changes no byte.\<close>

lemma merge_buddies:
  assumes ok: "blocks_ok B" and bud: "buddies B l x" and l: "l < 15"
  defines "G \<equiv> B - {(l, x), (l, x + bsize l)}"
  shows "blocks_ok G" "block_fits (Suc l, x)" "block (Suc l, x) \<inter> bytes G = {}"
    "bytes G \<union> block (Suc l, x) = bytes B"
proof -
  have in_B: "(l, x) \<in> B" "(l, x + bsize l) \<in> B" and al: "bsize (Suc l) dvd x"
    using bud by (auto simp: buddies_def)
  show okG: "blocks_ok G" using ok by (rule blocks_ok_subset) (auto simp: G_def)
  show "block_fits (Suc l, x)" using in_B al ok l by (intro block_fits_double) (auto simp: blocks_ok_def)
  have G: "G = (B - {(l, x)}) - {(l, x + bsize l)}" by (auto simp: G_def)
  have ok1: "blocks_ok (B - {(l, x)})" using ok by (rule blocks_ok_subset) blast
  have "(l, x + bsize l) \<in> B - {(l, x)}" using in_B bsize_pos [of l] by (simp add: bsize_def)
  then have eq: "bytes G = bytes B - block (l, x) - block (l, x + bsize l)"
    using ok ok1 in_B by (simp add: G bytes_remove)
  then show "block (Suc l, x) \<inter> bytes G = {}" by (auto simp: block_split)
  have "block (l, x) \<subseteq> bytes B" "block (l, x + bsize l) \<subseteq> bytes B"
    using in_B by (auto simp: bytes_def)
  then show "bytes G \<union> block (Suc l, x) = bytes B" by (auto simp: eq block_split)
qed

text \<open>Two blocks of one list whose addresses differ are at least one block apart.\<close>

lemma blocks_apart:
  assumes "blocks_ok B" "(l, x) \<in> B" "(l, y) \<in> B" "x < y"
  shows "x + bsize l \<le> y"
proof (rule ccontr)
  assume "\<not> x + bsize l \<le> y"
  then have "y \<in> block (l, x)" "y \<in> block (l, y)" using assms(4) by (auto simp: block_def)
  moreover have "block (l, x) \<inter> block (l, y) = {}" using assms unfolding blocks_ok_def by fastforce
  ultimately show False by blast
qed


section \<open>Shape: the chains partition the nodes\<close>

text \<open>
  \<open>shape nx hs C H\<close>: following \<open>nx\<close> from head \<open>l\<close> gives the chain \<open>C l\<close>, the chains are
  disjoint, and together with the nodes \<open>H\<close> that an operation holds in its local variables
  they are all nodes but the unused node 0.
\<close>

definition node_ids :: "uint16 set" where
  "node_ids = {i. 0 < unat i \<and> unat i < NODES}"

definition shape :: "(uint16 \<Rightarrow> uint16) \<Rightarrow> (nat \<Rightarrow> uint16) \<Rightarrow> (nat \<Rightarrow> uint16 list) \<Rightarrow> uint16 set \<Rightarrow> bool" where
  "shape nx hs C H \<longleftrightarrow>
     (\<forall>l<16. chain nx (hs l) (C l) \<and> distinct (C l)) \<and>
     (\<forall>l<16. \<forall>m<16. \<forall>i. i \<in> set (C l) \<longrightarrow> i \<in> set (C m) \<longrightarrow> l = m) \<and>
     (\<forall>l<16. \<forall>i. i \<in> set (C l) \<longrightarrow> i \<notin> H) \<and>
     (\<forall>i. i \<in> node_ids \<longleftrightarrow> i \<in> H \<or> (\<exists>l<16. i \<in> set (C l)))"

lemma shape_chain: "shape nx hs C H \<Longrightarrow> l < 16 \<Longrightarrow> chain nx (hs l) (C l)"
  by (simp add: shape_def)

lemma shape_distinct: "shape nx hs C H \<Longrightarrow> l < 16 \<Longrightarrow> distinct (C l)"
  by (simp add: shape_def)

lemma shape_held: "shape nx hs C H \<Longrightarrow> n \<in> H \<Longrightarrow> l < 16 \<Longrightarrow> n \<notin> set (C l)"
  by (auto simp: shape_def)

lemma shape_other: "shape nx hs C H \<Longrightarrow> i \<in> set (C l) \<Longrightarrow> l < 16 \<Longrightarrow> m < 16 \<Longrightarrow> l \<noteq> m \<Longrightarrow> i \<notin> set (C m)"
  by (auto simp: shape_def)

lemma shape_ids: "shape nx hs C H \<Longrightarrow> l < 16 \<Longrightarrow> set (C l) \<subseteq> node_ids"
  by (auto simp: shape_def)

lemma shape_held_ids: "shape nx hs C H \<Longrightarrow> H \<subseteq> node_ids"
  by (auto simp: shape_def)

lemma finite_node_ids [simp]: "finite node_ids"
  by simp

lemma card_node_ids: "card node_ids = 4091"
proof -
  have "node_ids = of_nat ` {1..<NODES}"
  proof (intro equalityI subsetI)
    fix i assume "i \<in> node_ids"
    then have "i = of_nat (unat i)" "unat i \<in> {1..<NODES}" by (auto simp: node_ids_def)
    then show "i \<in> of_nat ` {1..<NODES}" by blast
  qed (auto simp: node_ids_def unat_of_nat)
  moreover have "inj_on (of_nat :: nat \<Rightarrow> uint16) {1..<NODES}"
    by (rule inj_onI) (auto dest: arg_cong [of _ _ unat] simp: unat_of_nat)
  ultimately have "card node_ids = card {1..<NODES}" by (metis card_image)
  then show ?thesis by simp
qed

lemma shape_length: "shape nx hs C H \<Longrightarrow> l < 16 \<Longrightarrow> length (C l) \<le> 4091"
  using card_mono [OF finite_node_ids shape_ids] card_node_ids
  by (metis distinct_card shape_distinct)

text \<open>
  Every operation on list \<open>l\<close> moves nodes between the list and the held nodes and writes only
  to these; the other lists are not affected.
\<close>

lemma shape_change:
  assumes s: "shape nx hs C H" and l: "l < 16"
    and R: "chain nx' (hs' l) R" "distinct R"
    and move: "set R \<union> H' = set (C l) \<union> H" "set R \<inter> H' = {}"
    and hs: "\<And>m. m \<noteq> l \<Longrightarrow> hs' m = hs m"
    and nx: "\<And>i. i \<notin> set (C l) \<union> H \<Longrightarrow> nx' i = nx i"
  shows "shape nx' hs' (C(l := R)) H'"
proof -
  have out: "i \<notin> set (C l) \<union> H" if "i \<in> set (C m)" "m < 16" "m \<noteq> l" for i m
    using s l that unfolding shape_def by blast
  have r_out: "i \<notin> set R \<and> i \<notin> H'" if "i \<in> set (C m)" "m < 16" "m \<noteq> l" for i m
    using out [OF that] move(1) by blast
  have "chain nx' (hs' m) (C m) \<and> distinct (C m)" if "m < 16" "m \<noteq> l" for m
  proof -
    have "chain nx' (hs m) (C m) = chain nx (hs m) (C m)"
      by (rule chain_cong) (use nx out that in blast)
    then show ?thesis using s that hs by (simp add: shape_def)
  qed
  then have "\<forall>m<16. chain nx' (hs' m) ((C(l := R)) m) \<and> distinct ((C(l := R)) m)"
    using R by simp
  moreover have "\<forall>m<16. \<forall>k<16. \<forall>i. i \<in> set ((C(l := R)) m) \<longrightarrow> i \<in> set ((C(l := R)) k) \<longrightarrow> m = k"
    using s r_out by (auto simp: shape_def)
  moreover have "\<forall>m<16. \<forall>i. i \<in> set ((C(l := R)) m) \<longrightarrow> i \<notin> H'"
    using r_out move(2) by auto
  moreover have "i \<in> node_ids \<longleftrightarrow> i \<in> H' \<or> (\<exists>m<16. i \<in> set ((C(l := R)) m))" for i
  proof -
    have "i \<in> node_ids \<longleftrightarrow> i \<in> set (C l) \<union> H \<or> (\<exists>m<16. m \<noteq> l \<and> i \<in> set (C m))"
      using s l unfolding shape_def by blast
    also have "\<dots> \<longleftrightarrow> i \<in> H' \<or> (\<exists>m<16. i \<in> set ((C(l := R)) m))"
      unfolding move(1) [symmetric] using l by (auto split: if_splits)
    finally show ?thesis .
  qed
  ultimately show ?thesis unfolding shape_def by blast
qed

lemma shape_pop:
  assumes "shape nx hs C H" "l < 16" "C l = n # r"
  shows "shape (nx(n := v)) (hs(l := nx n)) (C(l := r)) (insert n H)"
  using assms(1,2)
  by (rule shape_change)
     (use assms shape_chain [OF assms(1,2)] shape_distinct [OF assms(1,2)] shape_held [OF assms(1) _ assms(2)]
      in \<open>auto split: if_splits\<close>)

lemma shape_push:
  assumes "shape nx hs C H" "l < 16" "n \<in> H"
  shows "shape (nx(n := hs l)) (hs(l := n)) (C(l := n # C l)) (H - {n})"
  using assms(1,2)
proof (rule shape_change)
  have "n \<notin> set (C l)" "n \<noteq> 0"
    using shape_held [OF assms(1,3,2)] shape_held_ids [OF assms(1)] assms(3) by (auto simp: node_ids_def)
  then show "chain (nx(n := hs l)) ((hs(l := n)) l) (n # C l)" "distinct (n # C l)"
    using shape_chain [OF assms(1,2)] shape_distinct [OF assms(1,2)] by simp_all
qed (use assms shape_held [OF assms(1) _ assms(2)] in \<open>auto split: if_splits\<close>)

lemma shape_insert:
  assumes "shape nx hs C H" "l < 16" "n \<in> H" "C l = ps @ p # qs"
  shows "shape (nx(n := hd0 qs, p := n)) hs (C(l := ps @ p # n # qs)) (H - {n})"
  using assms(1,2)
proof (rule shape_change)
  have n: "n \<notin> set (ps @ p # qs)" "n \<noteq> 0"
    using shape_held [OF assms(1,3,2)] shape_held_ids [OF assms(1)] assms(3,4) by (auto simp: node_ids_def)
  show "chain (nx(n := hd0 qs, p := n)) (hs l) (ps @ p # n # qs)"
    using shape_chain [OF assms(1,2)] shape_distinct [OF assms(1,2)] n assms(4) by (intro chain_insert) simp_all
  show "distinct (ps @ p # n # qs)" using shape_distinct [OF assms(1,2)] n assms(4) by auto
qed (use assms shape_held [OF assms(1) _ assms(2)] in \<open>auto split: if_splits\<close>)

lemma shape_cut_front:
  assumes "shape nx hs C H" "l < 16" "C l = c # x # r"
  shows "shape nx (hs(l := nx x)) (C(l := r)) (insert c (insert x H))"
  using assms(1,2)
  by (rule shape_change)
     (use assms shape_chain [OF assms(1,2)] shape_distinct [OF assms(1,2)] shape_held [OF assms(1) _ assms(2)]
      in \<open>auto split: if_splits\<close>)

lemma shape_cut:
  assumes "shape nx hs C H" "l < 16" "C l = ps @ p # c # x # r"
  shows "shape (nx(p := nx x)) hs (C(l := ps @ p # r)) (insert c (insert x H))"
  using assms(1,2)
proof (rule shape_change)
  have ch: "chain nx (hs l) (ps @ p # [c, x] @ r)" and d: "distinct (ps @ p # c # x # r)"
    using shape_chain [OF assms(1,2)] shape_distinct [OF assms(1,2)] assms(3) by simp_all
  have "nx x = hd0 r" using ch chain_next [of nx "hs l" "ps @ [p, c]" x r] by simp
  then show "chain (nx(p := nx x)) (hs l) (ps @ p # r)" using chain_relink [OF ch] d by simp
  show "distinct (ps @ p # r)" using d by simp
qed (use assms shape_distinct [OF assms(1,2)] shape_held [OF assms(1) _ assms(2)] in \<open>auto split: if_splits\<close>)


section \<open>The allocator invariant\<close>

definition nxt :: "mem_allocator \<Rightarrow> uint16 \<Rightarrow> uint16" where
  "nxt a i = node_next (nodes a i)"

definition adr :: "mem_allocator \<Rightarrow> uint16 \<Rightarrow> nat" where
  "adr a i = unat (node_addr (nodes a i))"

definition free_set :: "(uint16 \<Rightarrow> nat) \<Rightarrow> (nat \<Rightarrow> uint16 list) \<Rightarrow> (nat \<times> nat) set" where
  "free_set ad C = {(l, ad i) | l i. 1 \<le> l \<and> l \<le> 15 \<and> i \<in> set (C l)}"

definition lists_sorted :: "(uint16 \<Rightarrow> nat) \<Rightarrow> (nat \<Rightarrow> uint16 list) \<Rightarrow> bool" where
  "lists_sorted ad C \<longleftrightarrow> (\<forall>l. 1 \<le> l \<longrightarrow> l \<le> 15 \<longrightarrow> sorted_wrt (<) (map ad (C l)))"

definition alloc_inv :: "mem_allocator \<Rightarrow> (nat \<Rightarrow> uint16 list) \<Rightarrow> uint16 set \<Rightarrow> bool" where
  "alloc_inv a C H \<longleftrightarrow> shape (nxt a) (heads a) C H \<and> lists_sorted (adr a) C \<and> blocks_ok (free_set (adr a) C)"

text \<open>The updates the operations make, and what each of them changes.\<close>

definition upd_next :: "uint16 \<Rightarrow> uint16 \<Rightarrow> mem_allocator \<Rightarrow> mem_allocator" where
  "upd_next i j a = a\<lparr>nodes := (nodes a)(i := (nodes a i)\<lparr>node_next := j\<rparr>)\<rparr>"

lemma upd_next_simps [simp]:
  "nxt (upd_next i j a) = (nxt a)(i := j)" "adr (upd_next i j a) = adr a"
  "heads (upd_next i j a) = heads a" "k \<noteq> i \<Longrightarrow> nodes (upd_next i j a) k = nodes a k"
  by (auto simp: upd_next_def nxt_def adr_def)

lemma set_head_simps [simp]:
  "nxt (set_head l i a) = nxt a" "adr (set_head l i a) = adr a" "nodes (set_head l i a) = nodes a"
  "heads (set_head l i a) = (heads a)(l := i)"
  by (auto simp: set_head_def nxt_def adr_def)

lemma node_at_ids [simp]: "i \<in> node_ids \<Longrightarrow> node_at i a = Inr (nodes a i)"
  by (simp add: node_at_def node_ids_def)

lemma set_next_ids [simp]: "i \<in> node_ids \<Longrightarrow> set_next i j a = Inr (upd_next i j a)"
  by (simp add: set_next_def upd_next_def)

lemma node_ids_nonzero: "i \<in> node_ids \<Longrightarrow> i \<noteq> 0"
  by (auto simp: node_ids_def)

lemma free_set_mem: "(l, x) \<in> free_set ad C \<longleftrightarrow> 1 \<le> l \<and> l \<le> 15 \<and> (\<exists>i\<in>set (C l). x = ad i)"
  by (auto simp: free_set_def)

lemma free_set_insert:
  assumes "1 \<le> l" "l \<le> 15" "set R = insert n (set (C l))"
  shows "free_set ad (C(l := R)) = insert (l, ad n) (free_set ad C)"
  using assms by (auto simp: free_set_def)

lemma lists_sorted_inj: "lists_sorted ad C \<Longrightarrow> 1 \<le> l \<Longrightarrow> l \<le> 15 \<Longrightarrow> distinct (map ad (C l))"
  by (simp add: lists_sorted_def strict_sorted_iff)

lemma free_set_cut:
  assumes "lists_sorted ad C" "1 \<le> l" "l \<le> 15" "C l = ps @ c # x # r"
  shows "free_set ad (C(l := ps @ r)) = free_set ad C - {(l, ad c), (l, ad x)}"
proof -
  have "distinct (map ad (ps @ c # x # r))" using lists_sorted_inj [OF assms(1-3)] assms(4) by simp
  then have ne: "\<forall>i\<in>set (ps @ r). ad i \<noteq> ad c \<and> ad i \<noteq> ad x" by (auto simp: image_iff)
  show ?thesis
  proof (intro set_eqI)
    fix b
    show "b \<in> free_set ad (C(l := ps @ r)) \<longleftrightarrow> b \<in> free_set ad C - {(l, ad c), (l, ad x)}"
      using ne assms(2-4) by (cases b; cases "fst b = l") (auto simp: free_set_mem)
  qed
qed

lemma free_set_level0 [simp]: "free_set ad (C(0 := R)) = free_set ad C"
  by (auto simp: free_set_mem set_eq_iff)

lemma lists_sorted_level0 [simp]: "lists_sorted ad (C(0 := R)) = lists_sorted ad C"
  by (auto simp: lists_sorted_def)

lemma free_set_cong:
  "(\<And>l i. 1 \<le> l \<Longrightarrow> l \<le> 15 \<Longrightarrow> i \<in> set (C l) \<Longrightarrow> ad i = ad' i) \<Longrightarrow> free_set ad C = free_set ad' C"
  unfolding free_set_def by (rule Collect_cong) metis

lemma lists_sorted_cong:
  assumes "\<And>l i. 1 \<le> l \<Longrightarrow> l \<le> 15 \<Longrightarrow> i \<in> set (C l) \<Longrightarrow> ad i = ad' i"
  shows "lists_sorted ad C = lists_sorted ad' C"
proof -
  have "map ad (C l) = map ad' (C l)" if "1 \<le> l" "l \<le> 15" for l using assms that by auto
  then show ?thesis unfolding lists_sorted_def by metis
qed

text \<open>Looking for the place of a node among the nodes \<open>qs\<close> of a list.\<close>

lemma list_walk_splits:
  assumes "chain (nxt a) cur qs" "set qs \<subseteq> node_ids" "n \<in> node_ids" "length qs < fuel"
  shows "\<exists>us vs. qs = us @ vs \<and>
    list_walk fuel a n prev cur = Inr (if us = [] then prev else last us, hd0 vs) \<and>
    (\<forall>i\<in>set us. adr a i < adr a n) \<and> (vs = [] \<or> adr a n \<le> adr a (hd0 vs))"
  using assms
proof (induction qs arbitrary: fuel prev cur)
  case Nil
  then show ?case by (cases fuel) auto
next
  case (Cons q qs)
  then obtain f where f: "fuel = Suc f" "length qs < f" by (cases fuel) auto
  from Cons.prems have q: "cur = q" "q \<noteq> 0" "chain (nxt a) (nxt a q) qs" "q \<in> node_ids" by auto
  show ?case
  proof (cases "adr a q < adr a n")
    case True
    with Cons.IH [OF q(3) _ Cons.prems(3) f(2), of q] Cons.prems(2) obtain us vs where
      "qs = us @ vs" "list_walk f a n q (nxt a q) = Inr (if us = [] then q else last us, hd0 vs)"
      "\<forall>i\<in>set us. adr a i < adr a n" "vs = [] \<or> adr a n \<le> adr a (hd0 vs)" by auto
    with True q f Cons.prems(3) show ?thesis
      by (intro exI [of _ "q # us"] exI [of _ vs]) (auto simp: nxt_def adr_def word_less_nat_alt)
  next
    case False
    with q f Cons.prems(3) show ?thesis
      by (intro exI [of _ "[]"] exI [of _ "q # qs"]) (auto simp: adr_def word_less_nat_alt)
  qed
qed


section \<open>Steps of the operations\<close>

text \<open>
  What an operation on list \<open>l\<close> leaves alone: the block lists below \<open>l\<close> with their nodes, and
  the nodes held by the callers.
\<close>

definition same_below ::
  "nat \<Rightarrow> (nat \<Rightarrow> uint16 list) \<Rightarrow> (nat \<Rightarrow> uint16 list) \<Rightarrow> mem_allocator \<Rightarrow> mem_allocator \<Rightarrow> uint16 set \<Rightarrow> bool" where
  "same_below l C C' a a' H \<longleftrightarrow>
     (\<forall>m. 1 \<le> m \<longrightarrow> m < l \<longrightarrow> C' m = C m \<and> (\<forall>i\<in>set (C m). nodes a' i = nodes a i)) \<and>
     (\<forall>i\<in>H. nodes a' i = nodes a i)"

lemma same_below_refl [simp]: "same_below l C C a a H"
  by (simp add: same_below_def)

lemma same_belowI:
  assumes "\<And>i. i \<notin> P \<Longrightarrow> nodes a' i = nodes a i" "\<And>m i. 1 \<le> m \<Longrightarrow> m < l \<Longrightarrow> i \<in> set (C m) \<Longrightarrow> i \<notin> P"
    and "\<And>i. i \<in> H \<Longrightarrow> i \<notin> P" "\<And>m. 1 \<le> m \<Longrightarrow> m < l \<Longrightarrow> C' m = C m"
  shows "same_below l C C' a a' H"
  using assms by (simp add: same_below_def)

lemma same_below_trans:
  "same_below l C C1 a a1 H \<Longrightarrow> same_below l C1 C2 a1 a2 H \<Longrightarrow> same_below l C C2 a a2 H"
  by (auto simp: same_below_def)

lemma same_below_weaken: "same_below k C C' a a' H \<Longrightarrow> l \<le> k \<Longrightarrow> H' \<subseteq> H \<Longrightarrow> same_below l C C' a a' H'"
  by (auto simp: same_below_def)

lemma alloc_invD:
  assumes "alloc_inv a C H"
  shows "shape (nxt a) (heads a) C H" "lists_sorted (adr a) C" "blocks_ok (free_set (adr a) C)"
  using assms by (simp_all add: alloc_inv_def)

lemma node_free_ok:
  assumes "alloc_inv a C H" "n \<in> H"
  shows "\<exists>a'. node_free n a = Inr a' \<and> alloc_inv a' (C(0 := n # C 0)) (H - {n}) \<and>
    free_set (adr a') C = free_set (adr a) C \<and> (\<forall>i. i \<noteq> n \<longrightarrow> nodes a' i = nodes a i)"
proof -
  note inv = alloc_invD [OF assms(1)]
  let ?a = "a\<lparr>nodes := (nodes a)(n := \<lparr>node_addr = 0, node_next = heads a 0\<rparr>), heads := (heads a)(0 := n)\<rparr>"
  have n: "n \<in> node_ids" using shape_held_ids [OF inv(1)] assms(2) by blast
  have f: "nxt ?a = (nxt a)(n := heads a 0)" "adr ?a = (adr a)(n := 0)" "heads ?a = (heads a)(0 := n)"
    by (auto simp: nxt_def adr_def)
  have out: "i \<noteq> n" if "i \<in> set (C l)" "1 \<le> l" "l \<le> 15" for i l
    using shape_held [OF inv(1) assms(2), of l] that by auto
  have fs: "free_set (adr ?a) C = free_set (adr a) C" "lists_sorted (adr ?a) C = lists_sorted (adr a) C"
    using out by (auto intro!: free_set_cong lists_sorted_cong simp: f)
  have "alloc_inv ?a (C(0 := n # C 0)) (H - {n})"
    using shape_push [OF inv(1) _ assms(2), of 0] inv fs by (simp add: alloc_inv_def f)
  moreover have "node_free n a = Inr ?a" using n by (simp add: node_free_def set_head_def)
  ultimately show ?thesis using fs by (intro exI [of _ ?a]) simp
qed

lemma node_new_ok:
  assumes "alloc_inv a C H" "C 0 = n # r"
  shows "\<exists>a'. node_new addr a = Inr (n, a') \<and> alloc_inv a' (C(0 := r)) (insert n H) \<and> n \<notin> H \<and>
    adr a' n = unat addr \<and> free_set (adr a') C = free_set (adr a) C \<and> (\<forall>i. i \<noteq> n \<longrightarrow> nodes a' i = nodes a i)"
proof -
  note inv = alloc_invD [OF assms(1)]
  let ?a = "(set_head 0 (nxt a n) a)\<lparr>nodes := (nodes a)(n := \<lparr>node_addr = addr, node_next = 0\<rparr>)\<rparr>"
  have n: "heads a 0 = n" "n \<in> node_ids"
    using shape_chain [OF inv(1), of 0] shape_ids [OF inv(1), of 0] assms(2) by auto
  have f: "nxt ?a = (nxt a)(n := 0)" "adr ?a = (adr a)(n := unat addr)" "heads ?a = (heads a)(0 := nxt a n)"
    by (auto simp: set_head_def nxt_def adr_def)
  have out: "i \<noteq> n" if "i \<in> set (C l)" "1 \<le> l" "l \<le> 15" for i l
    using shape_other [OF inv(1), of i l 0] assms(2) that by auto
  have fs: "free_set (adr ?a) C = free_set (adr a) C" "lists_sorted (adr ?a) C = lists_sorted (adr a) C"
    using out by (auto intro!: free_set_cong lists_sorted_cong simp: f)
  have "alloc_inv ?a (C(0 := r)) (insert n H)"
    using shape_pop [OF inv(1) _ assms(2), of 0] inv fs by (simp add: alloc_inv_def f)
  moreover have "node_new addr a = Inr (n, ?a)"
    using n by (simp add: node_new_def Let_def nxt_def)
  moreover have "n \<notin> H" using shape_held [OF inv(1), of n 0] assms(2) by auto
  ultimately show ?thesis using fs by (intro exI [of _ ?a]) (simp add: f)
qed

text \<open>The first half of \<open>list_put\<close>: linking the node into its list.\<close>

definition link_node :: "nat \<Rightarrow> nat \<Rightarrow> uint16 \<Rightarrow> mem_allocator \<Rightarrow> mem_allocator res" where
  "link_node fuel l n a =
     bindE (head_at l a) (\<lambda>cur.
     bindE (list_walk fuel a n 0 cur) (\<lambda>(prev, cur).
     bindE (set_next n cur a) (\<lambda>a.
     if prev \<noteq> 0 then set_next prev n a else Inr (set_head l n a))))"

lemma list_put_link:
  "list_put (Suc fuel) l n a =
   bindE (link_node fuel l n a) (\<lambda>a. if l < 15 then list_clean fuel l a else Inr a)"
  by (simp add: link_node_def bindE_assoc case_prod_unfold)

declare list_put.simps(2) [simp del]

lemma link_node_ok:
  assumes inv: "alloc_inv a C H" and n: "n \<in> H" and l: "1 \<le> l" "l \<le> 15"
    and fits: "block_fits (l, adr a n)" and free: "block (l, adr a n) \<inter> bytes (free_set (adr a) C) = {}"
    and fuel: "length (C l) < fuel"
  shows "\<exists>a' R. link_node fuel l n a = Inr a' \<and> alloc_inv a' (C(l := R)) (H - {n}) \<and>
    free_set (adr a') (C(l := R)) = insert (l, adr a n) (free_set (adr a) C) \<and>
    same_below l C (C(l := R)) a a' (H - {n})"
proof -
  note i = alloc_invD [OF inv]
  have l16: "l < 16" using l by simp
  have ids: "set (C l) \<subseteq> node_ids" "n \<in> node_ids"
    using shape_ids [OF i(1) l16] shape_held_ids [OF i(1)] n by auto
  obtain us vs where sp: "C l = us @ vs"
    and walk: "list_walk fuel a n 0 (heads a l) = Inr (last0 us, hd0 vs)"
    and less: "\<forall>j\<in>set us. adr a j < adr a n" and ge: "vs = [] \<or> adr a n \<le> adr a (hd0 vs)"
    using list_walk_splits [OF shape_chain [OF i(1) l16] ids fuel, of 0] by (auto simp: last0_def)
  have neq: "adr a j \<noteq> adr a n" if "j \<in> set (C l)" for j
  proof
    assume "adr a j = adr a n"
    then have "(l, adr a n) \<in> free_set (adr a) C" using that l by (auto simp: free_set_mem intro!: bexI [of _ j])
    then have "adr a n \<in> bytes (free_set (adr a) C)" by (auto simp: bytes_def block_def intro!: bexI)
    then show False using free bsize_pos [of l] by (auto simp: block_def disjoint_iff)
  qed
  have srt: "sorted_wrt (<) (map (adr a) (us @ vs))" using i(2) l sp unfolding lists_sorted_def by metis
  have gt: "adr a n < adr a j" if j: "j \<in> set vs" for j
  proof -
    obtain v ws where vs: "vs = v # ws" using j by (cases vs) auto
    have "adr a n < adr a v" using ge neq [of v] sp vs by (simp add: nat_less_le)
    moreover have "adr a v \<le> adr a j" using srt j vs by (auto simp: sorted_wrt_append order_le_less)
    ultimately show ?thesis by simp
  qed
  let ?R = "us @ n # vs"
  have sorted: "lists_sorted (adr a) (C(l := ?R))"
    using i(2) srt less gt by (auto simp: lists_sorted_def sorted_wrt_append less_trans)
  have fs: "free_set (adr a) (C(l := ?R)) = insert (l, adr a n) (free_set (adr a) C)"
    using l sp by (intro free_set_insert) auto
  have blocks: "blocks_ok (free_set (adr a) (C(l := ?R)))"
    unfolding fs using i(3) fits free by (rule blocks_ok_insert)
  show ?thesis
  proof (cases us rule: rev_cases)
    case Nil
    let ?a = "set_head l n (upd_next n (heads a l) a)"
    have h: "hd0 vs = heads a l" using shape_chain [OF i(1) l16] sp Nil by (auto dest: chain_hd0)
    have "link_node fuel l n a = Inr ?a"
      using l16 ids walk Nil h by (simp add: link_node_def head_at_def)
    moreover have "alloc_inv ?a (C(l := ?R)) (H - {n})"
      using shape_push [OF i(1) l16 n] sorted blocks sp Nil by (simp add: alloc_inv_def)
    moreover have "same_below l C (C(l := ?R)) a ?a (H - {n})"
      using shape_held [OF i(1) n] l by (intro same_belowI [of "{n}"]) auto
    ultimately show ?thesis using fs by (intro exI [of _ ?a] exI [of _ ?R]) simp
  next
    case (snoc ws p)
    let ?a = "upd_next p n (upd_next n (hd0 vs) a)"
    have p: "p \<in> node_ids" "p \<in> set (C l)" using ids sp snoc by auto
    have "link_node fuel l n a = Inr ?a"
      using l16 ids walk snoc p node_ids_nonzero [of p] by (simp add: link_node_def head_at_def)
    moreover have "alloc_inv ?a (C(l := ?R)) (H - {n})"
      using shape_insert [OF i(1) l16 n, of ws p vs] sorted blocks sp snoc by (simp add: alloc_inv_def)
    moreover have "same_below l C (C(l := ?R)) a ?a (H - {n})"
      using shape_held [OF i(1) n] shape_other [OF i(1) p(2) l16] shape_held [OF i(1) _ l16] p(2) l
      by (intro same_belowI [of "{n, p}"]) auto
    ultimately show ?thesis using fs by (intro exI [of _ ?a] exI [of _ ?R]) simp
  qed
qed


text \<open>The merge step of \<open>list_clean\<close> takes two buddies out of list \<open>l\<close>.\<close>

definition cut_pair :: "nat \<Rightarrow> uint16 \<Rightarrow> uint16 \<Rightarrow> mem_allocator \<Rightarrow> mem_allocator res" where
  "cut_pair l prev x a = (if prev \<noteq> 0 then set_next prev (nxt a x) a else Inr (set_head l (nxt a x) a))"

lemma sorted_cut: "sorted_wrt (<) (map f (ps @ c # x # r)) \<Longrightarrow> sorted_wrt (<) (map f (ps @ r))"
  by (auto simp: sorted_wrt_append)

lemma cut_pair_ok:
  assumes inv: "alloc_inv a C H" and l: "1 \<le> l" "l < 15" and sp: "C l = ps @ c # x # r"
  shows "\<exists>a'. cut_pair l (last0 ps) x a = Inr a' \<and> alloc_inv a' (C(l := ps @ r)) (insert c (insert x H)) \<and>
    adr a' = adr a \<and> free_set (adr a') (C(l := ps @ r)) = free_set (adr a) C - {(l, adr a c), (l, adr a x)} \<and>
    same_below l C (C(l := ps @ r)) a a' (insert c (insert x H))"
proof -
  note i = alloc_invD [OF inv]
  have l16: "l < 16" using l by simp
  have fs: "free_set (adr a) (C(l := ps @ r)) = free_set (adr a) C - {(l, adr a c), (l, adr a x)}"
    using l by (intro free_set_cut [OF i(2) _ _ sp]) simp_all
  have blocks: "blocks_ok (free_set (adr a) (C(l := ps @ r)))"
    unfolding fs using i(3) by (rule blocks_ok_subset) blast
  have sorted: "lists_sorted (adr a) (C(l := ps @ r))"
    using i(2) sorted_cut [of "adr a" ps c x r] sp unfolding lists_sorted_def by auto
  have d: "distinct (ps @ c # x # r)" using shape_distinct [OF i(1) l16] sp by simp
  show ?thesis
  proof (cases ps rule: rev_cases)
    case Nil
    let ?a = "set_head l (nxt a x) a"
    have "alloc_inv ?a (C(l := ps @ r)) (insert c (insert x H))"
      using shape_cut_front [OF i(1) l16] sorted blocks sp Nil by (simp add: alloc_inv_def)
    then show ?thesis using fs l Nil by (intro exI [of _ ?a]) (simp add: cut_pair_def same_below_def)
  next
    case (snoc ws p)
    let ?a = "upd_next p (nxt a x) a"
    have p: "p \<in> node_ids" "p \<in> set (C l)" "p \<noteq> c" "p \<noteq> x"
      using shape_ids [OF i(1) l16] sp snoc d by auto
    have "alloc_inv ?a (C(l := ps @ r)) (insert c (insert x H))"
      using shape_cut [OF i(1) l16, of ws p c x r] sorted blocks sp snoc by (simp add: alloc_inv_def)
    moreover have "same_below l C (C(l := ps @ r)) a ?a (insert c (insert x H))"
      using shape_other [OF i(1) p(2) l16] shape_held [OF i(1) _ l16] p l
      by (intro same_belowI [of "{p}"]) auto
    moreover have "cut_pair l (last0 ps) x a = Inr ?a"
      using snoc p node_ids_nonzero [of p] by (simp add: cut_pair_def)
    ultimately show ?thesis using fs by (intro exI [of _ ?a]) simp
  qed
qed

text \<open>The condition of the merge step, in terms of free blocks.\<close>

lemma list_size_nat: "l \<le> 28 \<Longrightarrow> unat (list_size l) = bsize l"
proof -
  assume "l \<le> 28"
  then have "(2 :: nat) ^ (l + 3) < 2 ^ 32" by (intro power_strict_increasing) simp_all
  moreover have "list_size l = of_nat (2 ^ (l + 3))" by (simp add: list_size_def)
  ultimately show ?thesis by (simp only: bsize_def unat_of_nat) simp
qed

lemma bsize_small: "l \<le> 16 \<Longrightarrow> bsize l \<le> 524288"
  unfolding bsize_def using power_increasing [of "l + 3" 19 "2 :: nat"] by simp

lemma merge_condition:
  assumes ok: "blocks_ok B" and l: "l < 15" and c: "(l, unat c) \<in> B"
  shows "c mod list_size (l + 1) = 0 \<and> c + list_size l = x \<longleftrightarrow> bsize (Suc l) dvd unat c \<and> unat x = unat c + bsize l"
proof -
  have fit: "unat c + bsize l \<le> 2 ^ 32" "bsize l dvd unat c"
    using ok c by (auto simp: blocks_ok_def block_fits_def)
  have m: "c mod list_size (l + 1) = 0 \<longleftrightarrow> bsize (Suc l) dvd unat c"
    using l by (simp add: word_unat_eq_iff unat_mod list_size_nat dvd_eq_mod_eq_0)
  show ?thesis
  proof (cases "bsize (Suc l) dvd unat c")
    case True
    have "bsize (Suc l) dvd (2 :: nat) ^ 32" unfolding bsize_def by (rule le_imp_power_dvd) (use l in simp)
    moreover have "unat c + bsize l \<noteq> 2 ^ 32"
    proof
      assume "unat c + bsize l = 2 ^ 32"
      with calculation have "bsize (Suc l) dvd unat c + bsize l" by simp
      with True have "bsize (Suc l) dvd bsize l" by (simp add: dvd_add_right_iff)
      then show False using bsize_pos [of l] by (auto simp: bsize_Suc dest: dvd_imp_le)
    qed
    ultimately have "unat (c + list_size l) = unat c + bsize l"
      using fit l by (simp add: unat_word_ariths list_size_nat)
    then show ?thesis using m True by (auto simp: word_unat_eq_iff)
  next
    case False
    then show ?thesis using m by simp
  qed
qed


section \<open>Correctness of \<open>list_put\<close> and \<open>list_clean\<close>\<close>

text \<open>
  Each call of \<open>list_put\<close> on list \<open>l\<close> walks at most 4091 nodes, then \<open>list_clean\<close> makes at
  most 4091 rounds, each of which may call \<open>list_put\<close> on list \<open>l + 1\<close>; the depth of the
  recursion is therefore at most \<open>(16 - l) * 4100\<close>.
\<close>

definition put_need :: "nat \<Rightarrow> nat" where
  "put_need l = (16 - l) * 4100"

lemma put_need_fuel: "1 \<le> l \<Longrightarrow> put_need l \<le> put_fuel"
  by (simp add: put_need_def put_fuel_def)

lemma put_need_step: "l < 15 \<Longrightarrow> put_need l = put_need (Suc l) + 4100"
  by (simp add: put_need_def)

text \<open>
  The result \<open>r\<close> of an operation on list \<open>l\<close>: it returns, the invariant holds with the held
  nodes \<open>H\<close>, exactly the bytes \<open>X\<close> are free, no buddies are left in the lists from \<open>l\<close> on,
  and no node has been lost.
\<close>

definition put_post ::
  "nat \<Rightarrow> (nat \<Rightarrow> uint16 list) \<Rightarrow> mem_allocator \<Rightarrow> uint16 set \<Rightarrow> nat set \<Rightarrow> mem_allocator res \<Rightarrow> bool" where
  "put_post l C a H X r \<longleftrightarrow>
     (\<exists>a' C'. r = Inr a' \<and> alloc_inv a' C' H \<and> bytes (free_set (adr a') C') = X \<and>
        (\<forall>m\<ge>l. coalesced (free_set (adr a') C') m) \<and> length (C 0) \<le> length (C' 0) \<and>
        same_below l C C' a a' H)"

definition put_spec :: "nat \<Rightarrow> bool" where
  "put_spec fuel \<longleftrightarrow>
     (\<forall>l n a C H. put_need l \<le> fuel \<longrightarrow> 1 \<le> l \<longrightarrow> l \<le> 15 \<longrightarrow> alloc_inv a C H \<longrightarrow> n \<in> H \<longrightarrow>
        block_fits (l, adr a n) \<longrightarrow> block (l, adr a n) \<inter> bytes (free_set (adr a) C) = {} \<longrightarrow>
        (\<forall>m>l. coalesced (free_set (adr a) C) m) \<longrightarrow>
        put_post l C a (H - {n}) (block (l, adr a n) \<union> bytes (free_set (adr a) C)) (list_put fuel l n a))"

definition loop_spec :: "nat \<Rightarrow> bool" where
  "loop_spec fuel \<longleftrightarrow>
     (\<forall>l a C H ps qs. put_need (Suc l) + length qs < fuel \<longrightarrow> 1 \<le> l \<longrightarrow> l < 15 \<longrightarrow> alloc_inv a C H \<longrightarrow>
        C l = ps @ qs \<longrightarrow> (\<forall>i\<in>set ps. \<not> buddies (free_set (adr a) C) l (adr a i)) \<longrightarrow>
        (\<forall>m>l. coalesced (free_set (adr a) C) m) \<longrightarrow>
        put_post l C a H (bytes (free_set (adr a) C)) (clean_loop fuel l (last0 ps) (hd0 qs) a))"

lemma no_buddies:
  assumes inv: "alloc_inv a C H" and l: "1 \<le> l" "l \<le> 15" and sp: "C l = ps @ c # qs"
    and no: "qs = [] \<or> \<not> (bsize (Suc l) dvd adr a c \<and> adr a (hd0 qs) = adr a c + bsize l)"
  shows "\<not> buddies (free_set (adr a) C) l (adr a c)"
proof
  assume b: "buddies (free_set (adr a) C) l (adr a c)"
  then obtain j where j: "j \<in> set (C l)" "adr a j = adr a c + bsize l" by (auto simp: buddies_def free_set_mem)
  have srt: "sorted_wrt (<) (map (adr a) (ps @ c # qs))"
    using alloc_invD(2) [OF inv] l sp unfolding lists_sorted_def by metis
  then have "j \<in> set qs" using j sp by (auto simp: sorted_wrt_append)
  then obtain x r where x: "qs = x # r" by (cases qs) auto
  have "adr a x \<le> adr a j" using \<open>j \<in> set qs\<close> srt x by (auto simp: sorted_wrt_append order_le_less)
  moreover have "adr a c + bsize l \<le> adr a x"
    using srt x l sp by (intro blocks_apart [OF alloc_invD(3) [OF inv]]) (auto simp: free_set_mem sorted_wrt_append)
  ultimately show False using no x j b by (auto simp: buddies_def)
qed

lemma coalesced_if_scanned:
  "C l = ps \<Longrightarrow> (\<forall>i\<in>set ps. \<not> buddies (free_set ad C) l (ad i)) \<Longrightarrow> coalesced (free_set ad C) l"
  by (auto simp: coalesced_def buddies_def free_set_mem)

lemma clean_loop_unfold:
  assumes inv: "alloc_inv a C H" and l: "1 \<le> l" "l < 15" and sp: "C l = ps @ c # qs"
  defines "x \<equiv> hd0 qs"
  shows "clean_loop (Suc f) l (last0 ps) c a =
    (if qs \<noteq> [] \<and> bsize (Suc l) dvd adr a c \<and> adr a x = adr a c + bsize l
     then bindE (cut_pair l (last0 ps) x a) (\<lambda>a. bindE (list_put f (Suc l) c a) (\<lambda>a.
       bindE (node_at x a) (\<lambda>n. bindE (node_free x a) (clean_loop f l (last0 ps) (node_next n)))))
     else clean_loop f l c x a)"
proof -
  note i = alloc_invD [OF inv]
  have ids: "c \<in> node_ids" "set qs \<subseteq> node_ids" using shape_ids [OF i(1), of l] l sp by auto
  have nx: "nxt a c = x" using chain_next shape_chain [OF i(1), of l] l sp by (fastforce simp: x_def)
  have x: "x = 0 \<longleftrightarrow> qs = []" "qs \<noteq> [] \<Longrightarrow> x \<in> node_ids"
    using ids node_ids_nonzero by (cases qs; auto simp: x_def)+
  have "(l, adr a c) \<in> free_set (adr a) C" using l sp by (auto simp: free_set_mem)
  then have m: "node_addr (nodes a c) mod list_size (l + 1) = 0 \<and>
      node_addr (nodes a c) + list_size l = node_addr (nodes a x) \<longleftrightarrow>
      bsize (Suc l) dvd adr a c \<and> adr a x = adr a c + bsize l"
    using merge_condition [OF i(3) l(2)] by (simp add: adr_def)
  have nz: "c \<noteq> 0" using ids node_ids_nonzero by blast
  show ?thesis
    using ids x nx nz m
    by (cases "qs = []"; cases "node_addr (nodes a c) mod list_size (l + 1) = 0")
       (auto simp: nxt_def cut_pair_def Let_def)
qed


lemma clean_loop_end [simp]: "clean_loop (Suc f) l prev 0 a = Inr a"
  by simp

declare clean_loop.simps [simp del]

text \<open>The step that does not merge: the loop goes on behind \<open>c\<close>.\<close>

lemma loop_skip:
  assumes spec: "loop_spec f" and fuel: "put_need (Suc l) + length (c # qs) < Suc f"
    and l: "1 \<le> l" "l < 15" and inv: "alloc_inv a C H" and sp: "C l = ps @ c # qs"
    and ps: "\<forall>i\<in>set ps. \<not> buddies (free_set (adr a) C) l (adr a i)"
    and co: "\<forall>m>l. coalesced (free_set (adr a) C) m"
    and no: "qs = [] \<or> \<not> (bsize (Suc l) dvd adr a c \<and> adr a (hd0 qs) = adr a c + bsize l)"
  shows "put_post l C a H (bytes (free_set (adr a) C)) (clean_loop f l c (hd0 qs) a)"
proof -
  have "\<not> buddies (free_set (adr a) C) l (adr a c)"
    using no_buddies [OF inv l(1) _ sp no] l by simp
  then have "\<forall>i\<in>set (ps @ [c]). \<not> buddies (free_set (adr a) C) l (adr a i)" using ps by auto
  moreover have "C l = (ps @ [c]) @ qs" using sp by simp
  moreover have "put_need (Suc l) + length qs < f" using fuel by simp
  ultimately have "put_post l C a H (bytes (free_set (adr a) C)) (clean_loop f l (last0 (ps @ [c])) (hd0 qs) a)"
    using spec l inv co unfolding loop_spec_def by blast
  then show ?thesis by simp
qed

lemma put_specD:
  "put_spec fuel \<Longrightarrow> put_need l \<le> fuel \<Longrightarrow> 1 \<le> l \<Longrightarrow> l \<le> 15 \<Longrightarrow> alloc_inv a C H \<Longrightarrow> n \<in> H \<Longrightarrow>
   block_fits (l, adr a n) \<Longrightarrow> block (l, adr a n) \<inter> bytes (free_set (adr a) C) = {} \<Longrightarrow>
   (\<forall>m>l. coalesced (free_set (adr a) C) m) \<Longrightarrow>
   put_post l C a (H - {n}) (block (l, adr a n) \<union> bytes (free_set (adr a) C)) (list_put fuel l n a)"
  by (simp add: put_spec_def)

lemma loop_specD:
  "loop_spec fuel \<Longrightarrow> put_need (Suc l) + length qs < fuel \<Longrightarrow> 1 \<le> l \<Longrightarrow> l < 15 \<Longrightarrow> alloc_inv a C H \<Longrightarrow>
   C l = ps @ qs \<Longrightarrow> (\<forall>i\<in>set ps. \<not> buddies (free_set (adr a) C) l (adr a i)) \<Longrightarrow>
   (\<forall>m>l. coalesced (free_set (adr a) C) m) \<Longrightarrow>
   put_post l C a H (bytes (free_set (adr a) C)) (clean_loop fuel l (last0 ps) (hd0 qs) a)"
  by (simp add: loop_spec_def)

text \<open>
  The step that merges, first half: the buddies \<open>c\<close> and \<open>x\<close> leave list \<open>l\<close>, and \<open>c\<close>, which
  now stands for both, goes to the next list. The node \<open>x\<close> is still held.
\<close>

lemma cut_and_put:
  assumes pspec: "put_spec f" and fuel: "put_need (Suc l) \<le> f"
    and l: "1 \<le> l" "l < 15" and inv: "alloc_inv a C H" and sp: "C l = ps @ c # x # r"
    and co: "\<forall>m>l. coalesced (free_set (adr a) C) m"
    and yes: "bsize (Suc l) dvd adr a c" "adr a x = adr a c + bsize l"
  shows "\<exists>a' C'. bindE (cut_pair l (last0 ps) x a) (list_put f (Suc l) c) = Inr a' \<and>
    alloc_inv a' C' (insert x H) \<and> bytes (free_set (adr a') C') = bytes (free_set (adr a) C) \<and>
    (\<forall>m>l. coalesced (free_set (adr a') C') m) \<and> length (C 0) \<le> length (C' 0) \<and>
    same_below l C C' a a' (insert x H) \<and> C' l = ps @ r \<and> (\<forall>i\<in>set (ps @ r). adr a' i = adr a i)"
proof -
  let ?B = "free_set (adr a) C" and ?C1 = "C(l := ps @ r)" and ?H = "insert c (insert x H)"
  let ?B1 = "?B - {(l, adr a c), (l, adr a c + bsize l)}"
  note shp = alloc_invD(1) [OF inv]
  have bud: "buddies ?B l (adr a c)" using yes l sp by (auto simp: buddies_def free_set_mem)
  note mb = merge_buddies [OF alloc_invD(3) [OF inv] bud l(2)]
  obtain a1 where a1: "cut_pair l (last0 ps) x a = Inr a1" "adr a1 = adr a" "alloc_inv a1 ?C1 ?H"
      "free_set (adr a1) ?C1 = ?B1" "same_below l C ?C1 a a1 ?H"
    using cut_pair_ok [OF inv l sp] yes(2) by auto
  have co1: "\<forall>m>Suc l. coalesced ?B1 m" using co by (auto simp: coalesced_def buddies_def)
  have "put_post (Suc l) ?C1 a1 (?H - {c}) (block (Suc l, adr a1 c) \<union> bytes (free_set (adr a1) ?C1))
      (list_put f (Suc l) c a1)"
    by (rule put_specD [OF pspec fuel _ _ a1(3)]) (use l mb a1(2,4) co1 in simp_all)
  then obtain a2 C2 where a2: "list_put f (Suc l) c a1 = Inr a2" "alloc_inv a2 C2 (?H - {c})"
      "bytes (free_set (adr a2) C2) = block (Suc l, adr a c) \<union> bytes ?B1"
      "\<forall>m\<ge>Suc l. coalesced (free_set (adr a2) C2) m" "length (?C1 0) \<le> length (C2 0)"
      "same_below (Suc l) ?C1 C2 a1 a2 (?H - {c})"
    unfolding put_post_def a1(2,4) [symmetric] using a1(2,4) by auto
  have "?H - {c} = insert x H"
    using shape_distinct [OF shp, of l] shape_held [OF shp, of _ l] sp l by auto
  note a2 = a2 [unfolded this]
  have "same_below l C C2 a a2 (insert x H)"
  proof (rule same_below_trans)
    show "same_below l C ?C1 a a1 (insert x H)" using a1(5) by (rule same_below_weaken) auto
    show "same_below l ?C1 C2 a1 a2 (insert x H)" using a2(6) by (rule same_below_weaken) auto
  qed
  moreover have "C2 l = ps @ r" "\<forall>i\<in>set (ps @ r). adr a2 i = adr a i"
    using a2(6) l a1(2) by (auto simp: same_below_def adr_def fun_eq_iff)
  moreover have "bytes (free_set (adr a2) C2) = bytes ?B" using a2(3) mb(4) by blast
  ultimately show ?thesis
    using a1(1) a2(1,2,4,5) l by (intro exI [of _ a2] exI [of _ C2]) (simp add: Suc_le_eq)
qed

lemma put_post_after:
  assumes "put_post l C1 a1 H Y r" "same_below l C C1 a a1 H" "Y = X" "length (C 0) \<le> length (C1 0)"
  shows "put_post l C a H X r"
proof -
  obtain a' C' where "r = Inr a'" "alloc_inv a' C' H" "bytes (free_set (adr a') C') = Y"
      "\<forall>m\<ge>l. coalesced (free_set (adr a') C') m" "length (C1 0) \<le> length (C' 0)"
      "same_below l C1 C' a1 a' H"
    using assms(1) unfolding put_post_def by blast
  then show ?thesis using assms(2-4) same_below_trans [OF assms(2)] unfolding put_post_def
    by (intro exI [of _ a'] exI [of _ C']) simp
qed

text \<open>Second half: \<open>x\<close> becomes an unused node, and the loop goes on behind it.\<close>

lemma loop_merge:
  assumes lspec: "loop_spec f" and pspec: "put_spec f"
    and fuel: "put_need (Suc l) + length (c # x # r) < Suc f"
    and l: "1 \<le> l" "l < 15" and inv: "alloc_inv a C H" and sp: "C l = ps @ c # x # r"
    and ps: "\<forall>i\<in>set ps. \<not> buddies (free_set (adr a) C) l (adr a i)"
    and co: "\<forall>m>l. coalesced (free_set (adr a) C) m"
    and yes: "bsize (Suc l) dvd adr a c" "adr a x = adr a c + bsize l"
  shows "put_post l C a H (bytes (free_set (adr a) C))
    (bindE (cut_pair l (last0 ps) x a) (\<lambda>a. bindE (list_put f (Suc l) c a) (\<lambda>a.
       bindE (node_at x a) (\<lambda>n. bindE (node_free x a) (clean_loop f l (last0 ps) (node_next n))))))"
proof -
  note shp = alloc_invD(1) [OF inv]
  have x: "x \<in> node_ids" "x \<notin> H" "x \<notin> set (ps @ r)" "nxt a x = hd0 r"
    using shape_ids [OF shp, of l] shape_held [OF shp, of x l] shape_distinct [OF shp, of l]
      chain_next [of "nxt a" "heads a l" "ps @ [c]" x r] shape_chain [OF shp, of l] sp l by auto
  obtain a2 C2 where a2: "bindE (cut_pair l (last0 ps) x a) (list_put f (Suc l) c) = Inr a2"
      "alloc_inv a2 C2 (insert x H)" "bytes (free_set (adr a2) C2) = bytes (free_set (adr a) C)"
      "\<forall>m>l. coalesced (free_set (adr a2) C2) m" "length (C 0) \<le> length (C2 0)"
      "same_below l C C2 a a2 (insert x H)" "C2 l = ps @ r" "\<forall>i\<in>set (ps @ r). adr a2 i = adr a i"
    using cut_and_put [OF pspec _ l inv sp co yes] fuel by auto
  have nx: "node_next (nodes a2 x) = hd0 r" using a2(6) x(4) by (simp add: same_below_def nxt_def)
  let ?C3 = "C2(0 := x # C2 0)"
  obtain a3 where a3: "node_free x a2 = Inr a3" "alloc_inv a3 ?C3 H"
      "free_set (adr a3) C2 = free_set (adr a2) C2" "\<forall>i. i \<noteq> x \<longrightarrow> nodes a3 i = nodes a2 i"
    using node_free_ok [OF a2(2), of x] x(2) by auto
  have ad3: "adr a3 i = adr a i" if "i \<in> set (ps @ r)" for i
    using that a2(8) a3(4) x(3) by (metis adr_def)
  have lev: "(l, y) \<in> free_set (adr a) C" if "(l, y) \<in> free_set (adr a3) ?C3" for y
    using that a2(7) ad3 sp l by (auto simp: free_set_mem)
  have "put_post l ?C3 a3 H (bytes (free_set (adr a3) ?C3)) (clean_loop f l (last0 ps) (hd0 r) a3)"
    by (rule loop_specD [OF lspec _ l a3(2)]) (use fuel l a3(3) a2(4,7) ps ad3 lev in \<open>auto simp: buddies_def\<close>)
  moreover have "same_below l C ?C3 a a3 H"
  proof (rule same_below_trans)
    show "same_below l C C2 a a2 H" using a2(6) by (rule same_below_weaken) auto
    show "same_below l C2 ?C3 a2 a3 H"
      using a3(4) x(2) shape_held [OF alloc_invD(1) [OF a2(2)], of x] l by (intro same_belowI [of "{x}"]) auto
  qed
  ultimately have "put_post l C a H (bytes (free_set (adr a) C)) (clean_loop f l (last0 ps) (hd0 r) a3)"
    by (rule put_post_after) (use a2(3,5) a3(3) in simp_all)
  moreover have comp:
      "bindE (cut_pair l (last0 ps) x a) (\<lambda>a. bindE (list_put f (Suc l) c a) g) = g a2" for g
    using a2(1) by (metis bindE_Inr bindE_assoc)
  ultimately show ?thesis unfolding comp using a3(1) nx x(1) by simp
qed

lemma loop_spec_Suc:
  assumes "loop_spec f" "put_spec f"
  shows "loop_spec (Suc f)"
  unfolding loop_spec_def
proof (intro allI impI)
  fix l a C H ps qs
  assume fuel: "put_need (Suc l) + length qs < Suc f" and l: "1 \<le> l" "l < 15" and inv: "alloc_inv a C H"
    and sp: "C l = ps @ qs" and ps: "\<forall>i\<in>set ps. \<not> buddies (free_set (adr a) C) l (adr a i)"
    and co: "\<forall>m>l. coalesced (free_set (adr a) C) m"
  show "put_post l C a H (bytes (free_set (adr a) C)) (clean_loop (Suc f) l (last0 ps) (hd0 qs) a)"
  proof (cases qs)
    case Nil
    then have "coalesced (free_set (adr a) C) l" using sp ps by (intro coalesced_if_scanned) auto
    then have "\<forall>m\<ge>l. coalesced (free_set (adr a) C) m" using co by (auto simp: order_le_less)
    then show ?thesis using Nil inv by (auto simp: put_post_def)
  next
    case (Cons c rs)
    note unf = clean_loop_unfold [OF inv l sp [unfolded Cons]]
    show ?thesis
    proof (cases "rs \<noteq> [] \<and> bsize (Suc l) dvd adr a c \<and> adr a (hd0 rs) = adr a c + bsize l")
      case True
      then obtain x r where "rs = x # r" by (cases rs) auto
      with True loop_merge [OF assms _ l inv _ ps co, of c x r] fuel sp Cons show ?thesis
        by (simp add: unf)
    next
      case False
      with loop_skip [OF assms(1) _ l inv _ ps co, of c rs] fuel sp Cons show ?thesis
        by (auto simp: unf)
    qed
  qed
qed

lemma put_spec_if_loop:
  assumes "\<And>g. g < f \<Longrightarrow> loop_spec g"
  shows "put_spec f"
  unfolding put_spec_def
proof (intro allI impI)
  fix l n a C H
  assume fuel: "put_need l \<le> f" and l: "1 \<le> l" "l \<le> 15" and inv: "alloc_inv a C H" and n: "n \<in> H"
    and fits: "block_fits (l, adr a n)" and free: "block (l, adr a n) \<inter> bytes (free_set (adr a) C) = {}"
    and co: "\<forall>m>l. coalesced (free_set (adr a) C) m"
  let ?X = "block (l, adr a n) \<union> bytes (free_set (adr a) C)"
  have "4100 \<le> put_need l" using l by (simp add: put_need_def)
  then obtain g where g: "f = Suc (Suc g)" using fuel by (cases f; cases "f - 1") auto
  have "length (C l) < Suc g"
    using shape_length [OF alloc_invD(1) [OF inv], of l] l \<open>4100 \<le> put_need l\<close> fuel g by simp
  then obtain a1 R where a1: "link_node (Suc g) l n a = Inr a1" "alloc_inv a1 (C(l := R)) (H - {n})"
      "free_set (adr a1) (C(l := R)) = insert (l, adr a n) (free_set (adr a) C)"
      "same_below l C (C(l := R)) a a1 (H - {n})"
    using link_node_ok [OF inv n l fits free] by blast
  have co1: "\<forall>m>l. coalesced (free_set (adr a1) (C(l := R))) m"
    using co unfolding a1(3) by (auto simp: coalesced_def buddies_def)
  show "put_post l C a (H - {n}) ?X (list_put f l n a)"
  proof (cases "l < 15")
    case True
    let ?C = "C(l := R)"
    have "length R \<le> 4091" using shape_length [OF alloc_invD(1) [OF a1(2)], of l] l by simp
    then have "put_need (Suc l) + length R < g" using fuel g put_need_step [OF True] by simp
    then have "put_post l ?C a1 (H - {n}) (bytes (free_set (adr a1) ?C)) (clean_loop g l (last0 []) (hd0 R) a1)"
      using assms [of g] g l True a1(2) co1 by (intro loop_specD) simp_all
    moreover have "heads a1 l = hd0 R"
      using shape_chain [OF alloc_invD(1) [OF a1(2)], of l] l by (auto dest: chain_hd0)
    ultimately show ?thesis
      using a1(1,3,4) True g l
      by (auto simp: put_post_def list_put_link head_at_def intro: same_below_trans)
  next
    case False
    then have "\<forall>m\<ge>l. coalesced (free_set (adr a1) (C(l := R))) m" by (simp add: coalesced_def)
    with False a1 g l show ?thesis by (auto simp: put_post_def list_put_link)
  qed
qed

lemma put_and_loop: "put_spec f \<and> loop_spec f"
proof (induction f rule: less_induct)
  case (less f)
  then have "put_spec f" by (intro put_spec_if_loop) blast
  moreover have "loop_spec f"
  proof (cases f)
    case 0
    then show ?thesis by (simp add: loop_spec_def)
  next
    case (Suc g)
    then show ?thesis using less [of g] loop_spec_Suc by simp
  qed
  ultimately show ?case by simp
qed

lemma list_put_ok:
  assumes "1 \<le> l" "l \<le> 15" "alloc_inv a C H" "n \<in> H" "block_fits (l, adr a n)"
    and "block (l, adr a n) \<inter> bytes (free_set (adr a) C) = {}" "\<forall>m>l. coalesced (free_set (adr a) C) m"
  shows "put_post l C a (H - {n}) (block (l, adr a n) \<union> bytes (free_set (adr a) C)) (list_put put_fuel l n a)"
  using put_and_loop [THEN conjunct1] put_need_fuel assms by (intro put_specD) simp_all


section \<open>Taking a block\<close>

definition all_coalesced :: "(nat \<times> nat) set \<Rightarrow> bool" where
  "all_coalesced B \<longleftrightarrow> (\<forall>l. coalesced B l)"

lemma all_coalesced_subset: "all_coalesced B \<Longrightarrow> D \<subseteq> B \<Longrightarrow> all_coalesced D"
  unfolding all_coalesced_def coalesced_def buddies_def by blast

lemma same_below_level:
  assumes "same_below l C C' a a' H" "1 \<le> m" "m < l"
  shows "(m, x) \<in> free_set (adr a') C' \<longleftrightarrow> (m, x) \<in> free_set (adr a) C"
  using assms by (auto simp: same_below_def free_set_mem adr_def)

text \<open>\<open>list_put\<close> coalesces its own list and those above it; the lists below are as before.\<close>

lemma list_put_coalesces:
  assumes "1 \<le> l" "l \<le> 15" "alloc_inv a C H" "n \<in> H" "block_fits (l, adr a n)"
    and free: "block (l, adr a n) \<inter> bytes (free_set (adr a) C) = {}" and co: "all_coalesced (free_set (adr a) C)"
  shows "\<exists>a' C'. list_put put_fuel l n a = Inr a' \<and> alloc_inv a' C' (H - {n}) \<and>
    bytes (free_set (adr a') C') = block (l, adr a n) \<union> bytes (free_set (adr a) C) \<and>
    all_coalesced (free_set (adr a') C') \<and> length (C 0) \<le> length (C' 0)"
proof -
  obtain a' C' where r: "list_put put_fuel l n a = Inr a'" "alloc_inv a' C' (H - {n})"
      "bytes (free_set (adr a') C') = block (l, adr a n) \<union> bytes (free_set (adr a) C)"
      "\<forall>m\<ge>l. coalesced (free_set (adr a') C') m" "length (C 0) \<le> length (C' 0)"
      "same_below l C C' a a' (H - {n})"
    using list_put_ok [OF assms(1-6)] co unfolding put_post_def all_coalesced_def by blast
  have "coalesced (free_set (adr a') C') m" for m
  proof (cases "l \<le> m")
    case False
    have "buddies (free_set (adr a') C') m x = buddies (free_set (adr a) C) m x" for x
      using same_below_level [OF r(6), of m] False
      by (cases "1 \<le> m") (auto simp: buddies_def free_set_mem)
    then show ?thesis using co by (simp add: all_coalesced_def coalesced_def)
  qed (use r in blast)
  with r show ?thesis unfolding all_coalesced_def by blast
qed

text \<open>
  What \<open>list_get\<close> promises on list \<open>l\<close>: without a block in the lists from \<open>l\<close> on it returns 0
  and changes nothing; otherwise it returns the address of a block of list \<open>l\<close> that was free
  and is not any more. Halving the blocks on the way down takes at most one node per list.
\<close>

definition get_post ::
  "nat \<Rightarrow> (nat \<Rightarrow> uint16 list) \<Rightarrow> mem_allocator \<Rightarrow> uint16 set \<Rightarrow> (uint32 \<times> mem_allocator) res \<Rightarrow> bool" where
  "get_post l C a H r \<longleftrightarrow>
     (\<exists>addr a' C'. r = Inr (addr, a') \<and> alloc_inv a' C' H \<and> all_coalesced (free_set (adr a') C') \<and>
        (if \<forall>m. l \<le> m \<longrightarrow> m \<le> 15 \<longrightarrow> C m = [] then addr = 0 \<and> a' = a \<and> C' = C
         else addr \<noteq> 0 \<and> block_fits (l, unat addr) \<and> block (l, unat addr) \<subseteq> bytes (free_set (adr a) C) \<and>
           bytes (free_set (adr a') C') = bytes (free_set (adr a) C) - block (l, unat addr) \<and>
           length (C 0) + 1 \<le> length (C' 0) + (15 - l)))"

lemma pop_block_ok:
  assumes inv: "alloc_inv a C H" and l: "1 \<le> l" "l \<le> 15" and sp: "C l = n # r"
  shows "\<exists>a'. node_free n (set_head l (nxt a n) a) = Inr a' \<and> alloc_inv a' (C(l := r, 0 := n # C 0)) H \<and>
    free_set (adr a') (C(l := r, 0 := n # C 0)) = free_set (adr a) C - {(l, adr a n)}"
proof -
  note i = alloc_invD [OF inv]
  let ?a = "set_head l (nxt a n) a" and ?C = "C(l := r)"
  have l16: "l < 16" using l by simp
  have srt: "sorted_wrt (<) (map (adr a) (n # r))" using i(2) l sp unfolding lists_sorted_def by metis
  have sorted: "lists_sorted (adr a) ?C" using i(2) srt by (auto simp: lists_sorted_def)
  have fs: "free_set (adr a) ?C = free_set (adr a) C - {(l, adr a n)}"
  proof (intro set_eqI)
    fix b
    show "b \<in> free_set (adr a) ?C \<longleftrightarrow> b \<in> free_set (adr a) C - {(l, adr a n)}"
      using srt sp l by (cases b; cases "fst b = l") (auto simp: free_set_mem)
  qed
  have blocks: "blocks_ok (free_set (adr a) ?C)" unfolding fs using i(3) by (rule blocks_ok_subset) blast
  have "shape (nxt a) ((heads a)(l := nxt a n)) ?C (insert n H)"
    using shape_pop [OF i(1) l16 sp, of "nxt a n"] by simp
  then have "alloc_inv ?a ?C (insert n H)" using sorted blocks by (simp add: alloc_inv_def)
  moreover have "n \<notin> H" using shape_held [OF i(1) _ l16, of n] sp by auto
  ultimately show ?thesis using node_free_ok [of ?a ?C "insert n H" n] fs l by auto
qed

lemma block_fits_halves:
  assumes "block_fits (Suc l, x)" "1 \<le> l"
  shows "block_fits (l, x)" "block_fits (l, x + bsize l)"
  using assms by (auto simp: block_fits_def bsize_Suc elim: dvd_mult_left)

lemma upper_half:
  assumes "block_fits (Suc l, unat addr)" "l \<le> 14"
  shows "unat (addr + list_size (l + 1) div 2) = unat addr + bsize l"
proof -
  have "unat (list_size (l + 1) div 2) = bsize l"
    using assms(2) by (simp add: unat_div list_size_nat bsize_Suc del: list_size_def)
  moreover have "unat addr + bsize l < 2 ^ 32"
    using assms bsize_pos [of l] unfolding block_fits_def fst_conv snd_conv bsize_Suc by linarith
  ultimately show ?thesis by (simp add: unat_word_ariths)
qed

text \<open>The upper half of the block taken from list \<open>l + 1\<close> goes to list \<open>l\<close>.\<close>

lemma give_back_half:
  assumes inv: "alloc_inv a C H" and co: "all_coalesced (free_set (adr a) C)" and l: "1 \<le> l" "l \<le> 14"
    and fits: "block_fits (Suc l, unat addr)" and out: "block (Suc l, unat addr) \<inter> bytes (free_set (adr a) C) = {}"
    and node: "C 0 \<noteq> []"
  shows "\<exists>a' C'. bindE (node_new (addr + list_size (l + 1) div 2) a) (\<lambda>(elem, a). list_put put_fuel l elem a) = Inr a' \<and>
    alloc_inv a' C' H \<and> all_coalesced (free_set (adr a') C') \<and>
    bytes (free_set (adr a') C') = block (l, unat addr + bsize l) \<union> bytes (free_set (adr a) C) \<and>
    length (C 0) \<le> length (C' 0) + 1"
proof -
  obtain n r where sp: "C 0 = n # r" using node by (cases "C 0") auto
  note up = upper_half [OF fits l(2)]
  obtain a1 where a1: "node_new (addr + list_size (l + 1) div 2) a = Inr (n, a1)"
      "alloc_inv a1 (C(0 := r)) (insert n H)" "n \<notin> H" "adr a1 n = unat addr + bsize l"
      "free_set (adr a1) C = free_set (adr a) C"
    using node_new_ok [OF inv sp, of "addr + list_size (l + 1) div 2"] unfolding up by blast
  have "\<exists>a' C'. list_put put_fuel l n a1 = Inr a' \<and> alloc_inv a' C' (insert n H - {n}) \<and>
      bytes (free_set (adr a') C') = block (l, adr a1 n) \<union> bytes (free_set (adr a1) (C(0 := r))) \<and>
      all_coalesced (free_set (adr a') C') \<and> length ((C(0 := r)) 0) \<le> length (C' 0)"
    by (rule list_put_coalesces)
       (use l a1 fits out co block_fits_halves in \<open>auto simp: block_split\<close>)
  then show ?thesis using a1 sp by auto
qed

lemma list_get_found:
  assumes l: "1 \<le> l" "l \<le> 15" and inv: "alloc_inv a C H" and co: "all_coalesced (free_set (adr a) C)"
    and sp: "C l = n # r"
  shows "get_post l C a H (list_get l a)"
proof -
  note i = alloc_invD [OF inv]
  let ?C = "C(l := r, 0 := n # C 0)"
  have n: "heads a l = n" "n \<noteq> 0" "n \<in> node_ids" and mem: "(l, adr a n) \<in> free_set (adr a) C"
    using shape_chain [OF i(1), of l] shape_ids [OF i(1), of l] l sp by (auto simp: free_set_mem)
  obtain a' where a': "node_free n (set_head l (nxt a n) a) = Inr a'" "alloc_inv a' ?C H"
      "free_set (adr a') ?C = free_set (adr a) C - {(l, adr a n)}"
    using pop_block_ok [OF inv l sp] by blast
  have "list_get l a = Inr (node_addr (nodes a n), a')"
    using l n a'(1) by (simp add: list_get.simps [of l] nxt_def Let_def)
  moreover have fits: "block_fits (l, adr a n)" "block (l, adr a n) \<subseteq> bytes (free_set (adr a) C)"
    using i(3) mem by (auto simp: blocks_ok_def bytes_def)
  moreover from fits(1) have "node_addr (nodes a n) \<noteq> 0" by (auto simp: block_fits_def adr_def)
  moreover have "all_coalesced (free_set (adr a') ?C)"
    unfolding a'(3) using co by (rule all_coalesced_subset) blast
  ultimately show ?thesis using sp l a'(2,3) bytes_remove [OF i(3) mem]
    unfolding get_post_def adr_def [symmetric]
    by (intro exI [of _ "node_addr (nodes a n)"] exI [of _ a'] exI [of _ ?C]) (auto simp: adr_def)
qed

lemma list_get_above:
  assumes l: "1 \<le> l" "l \<le> 15" and inv: "alloc_inv a C H" and co: "all_coalesced (free_set (adr a) C)"
    and room: "15 - l \<le> length (C 0) + 1" and Nil: "C l = []"
    and post: "get_post (Suc l) C a H (list_get (l + 1) a)"
  shows "get_post l C a H (list_get l a)"
proof -
  have "heads a l = 0" using shape_chain [OF alloc_invD(1) [OF inv], of l] l Nil by simp
  then have unf: "list_get l a = bindE (list_get (l + 1) a) (\<lambda>(addr, a).
      if addr \<noteq> 0 then bindE (bindE (node_new (addr + list_size (l + 1) div 2) a)
        (\<lambda>(elem, a). list_put put_fuel l elem a)) (\<lambda>a. Inr (addr, a)) else Inr (addr, a))"
    using l by (simp add: list_get.simps [of l] bindE_assoc case_prod_unfold cong: if_cong)
  show ?thesis
  proof (cases "\<forall>m. Suc l \<le> m \<longrightarrow> m \<le> 15 \<longrightarrow> C m = []")
    case True
    then have "\<forall>m. l \<le> m \<longrightarrow> m \<le> 15 \<longrightarrow> C m = []" using Nil by (metis Suc_leI le_neq_implies_less)
    then show ?thesis using True post inv co by (auto simp: unf get_post_def)
  next
    case False
    with post obtain addr a1 C1 where r: "list_get (l + 1) a = Inr (addr, a1)" "alloc_inv a1 C1 H"
      "all_coalesced (free_set (adr a1) C1)" "addr \<noteq> 0" "block_fits (Suc l, unat addr)"
      "block (Suc l, unat addr) \<subseteq> bytes (free_set (adr a) C)"
      "bytes (free_set (adr a1) C1) = bytes (free_set (adr a) C) - block (Suc l, unat addr)"
      "length (C 0) + 1 \<le> length (C1 0) + (15 - Suc l)"
      unfolding get_post_def by auto
    have l14: "l \<le> 14" using r(5) by (simp add: block_fits_def)
    have "C1 0 \<noteq> []" using r(8) room l14 by auto
    then obtain a' C' where
      "bindE (node_new (addr + list_size (l + 1) div 2) a1) (\<lambda>(elem, a). list_put put_fuel l elem a) = Inr a'"
      "alloc_inv a' C' H" "all_coalesced (free_set (adr a') C')"
      "bytes (free_set (adr a') C') = block (l, unat addr + bsize l) \<union> bytes (free_set (adr a1) C1)"
      "length (C1 0) \<le> length (C' 0) + 1"
      using give_back_half [OF r(2,3) l(1) l14 r(5)] r(7) by blast
    moreover have "bytes (free_set (adr a) C) - block (l, unat addr) =
        block (l, unat addr + bsize l) \<union> (bytes (free_set (adr a) C) - block (Suc l, unat addr))"
      using r(6) block_halves_disjoint [of l "unat addr"] unfolding block_split by blast
    moreover have "\<not> (\<forall>m. l \<le> m \<longrightarrow> m \<le> 15 \<longrightarrow> C m = [])" using False by (metis Suc_leD)
    ultimately show ?thesis using r block_fits_halves(1) [OF r(5) l(1)] l14 unfolding get_post_def
      by (intro exI [of _ addr] exI [of _ a'] exI [of _ C']) (simp add: unf block_split)
  qed
qed

lemma list_get_ok:
  assumes "1 \<le> l" "alloc_inv a C H" "all_coalesced (free_set (adr a) C)" "15 - l \<le> length (C 0) + 1"
  shows "get_post l C a H (list_get l a)"
  using assms
proof (induction "16 - l" arbitrary: l)
  case 0
  then show ?case by (simp add: get_post_def list_get.simps)
next
  case (Suc k)
  then have l: "1 \<le> l" "l \<le> 15" by simp_all
  show ?case
  proof (cases "C l")
    case Nil
    then show ?thesis
      using l Suc.hyps(1) [of "Suc l"] Suc.hyps(2) Suc.prems by (intro list_get_above) simp_all
  next
    case (Cons n r)
    then show ?thesis using l Suc.prems by (intro list_get_found) simp_all
  qed
qed


section \<open>The allocator as a function of its arrays\<close>

text \<open>
  The chains of a well-formed allocator are what following the links from the heads gives, so
  the invariant and the set of free blocks are functions of the state.
\<close>

fun follow :: "nat \<Rightarrow> ('p::zero \<Rightarrow> 'p) \<Rightarrow> 'p \<Rightarrow> 'p list" where
  "follow 0 h x = []"
| "follow (Suc fuel) h x = (if x = 0 then [] else x # follow fuel h (h x))"

lemma follow_chain: "chain h x xs \<Longrightarrow> length xs \<le> fuel \<Longrightarrow> follow fuel h x = xs"
proof (induction xs arbitrary: x fuel)
  case Nil
  then show ?case by (cases fuel) auto
next
  case (Cons y ys)
  then show ?case by (cases fuel) auto
qed

definition block_list :: "mem_allocator \<Rightarrow> nat \<Rightarrow> uint16 list" where
  "block_list a l = follow NODES (nxt a) (heads a l)"

definition free_blocks :: "mem_allocator \<Rightarrow> (nat \<times> nat) set" where
  "free_blocks a = free_set (adr a) (block_list a)"

definition free_nodes :: "mem_allocator \<Rightarrow> nat" where
  "free_nodes a = length (block_list a 0)"

definition heap_ok :: "mem_allocator \<Rightarrow> bool" where
  "heap_ok a \<longleftrightarrow> alloc_inv a (block_list a) {} \<and> all_coalesced (free_blocks a)"

lemma alloc_inv_block_list: "alloc_inv a C H \<Longrightarrow> l < 16 \<Longrightarrow> block_list a l = C l"
  using follow_chain [OF shape_chain, of "nxt a" "heads a" C H l NODES] shape_length [of "nxt a" "heads a" C H l]
  by (auto simp: block_list_def alloc_inv_def)

lemma heap_okI:
  assumes inv: "alloc_inv a C {}" and co: "all_coalesced (free_set (adr a) C)"
  shows "heap_ok a" "free_blocks a = free_set (adr a) C" "free_nodes a = length (C 0)"
proof -
  note eq = alloc_inv_block_list [OF inv]
  show fb: "free_blocks a = free_set (adr a) C"
    using eq by (auto simp: free_blocks_def free_set_mem set_eq_iff)
  show "free_nodes a = length (C 0)" by (simp add: free_nodes_def eq)
  have "shape (nxt a) (heads a) (block_list a) {}"
    using alloc_invD(1) [OF inv] eq unfolding shape_def by (simp cong: conj_cong)
  moreover have "lists_sorted (adr a) (block_list a)"
    using alloc_invD(2) [OF inv] eq by (simp add: lists_sorted_def)
  ultimately show "heap_ok a"
    using alloc_invD(3) [OF inv] fb co by (simp add: heap_ok_def alloc_inv_def free_blocks_def)
qed

lemma heap_okD:
  assumes "heap_ok a"
  shows "alloc_inv a (block_list a) {}" "all_coalesced (free_set (adr a) (block_list a))" "blocks_ok (free_blocks a)"
  using assms alloc_invD(3) by (auto simp: heap_ok_def free_blocks_def)

text \<open>The initial allocator: no free block, and all nodes unused.\<close>

lemma init_chain:
  assumes "\<And>i. 1 \<le> i \<Longrightarrow> i < n \<Longrightarrow> h (of_nat i :: uint16) = (if i = n - 1 then 0 else of_nat (Suc i))"
    and "n < 65536" "k < n"
  shows "chain h (if k = 0 then 0 else of_nat (n - k)) (map of_nat [n - k..<n])"
  using assms(3)
proof (induction k)
  case (Suc k)
  have "[n - Suc k..<n] = (n - Suc k) # [n - k..<n]"
    using Suc.prems by (simp add: Suc_diff_Suc upt_conv_Cons)
  moreover have "unat (of_nat (n - Suc k) :: uint16) \<noteq> 0"
    using Suc.prems assms(2) by (subst unat_of_nat) simp
  then have "of_nat (n - Suc k) \<noteq> (0 :: uint16)" by (metis unat_0)
  moreover have "h (of_nat (n - Suc k)) = (if k = 0 then 0 else of_nat (n - k))"
    using assms(1) [of "n - Suc k"] Suc.prems by (auto simp: Suc_diff_Suc)
  ultimately show ?case using Suc by simp
qed simp

lemma init_alloc_inv:
  "alloc_inv (mem_allocator_init a) (\<lambda>l. if l = 0 then map of_nat [1..<NODES] else []) {}"
proof -
  let ?a = "mem_allocator_init a" and ?ids = "map of_nat [1..<NODES] :: uint16 list"
  have "nxt ?a (of_nat i) = (if i = NODES - 1 then 0 else of_nat (Suc i))" if "1 \<le> i" "i < NODES" for i
  proof -
    have "unat (of_nat i :: uint16) = i" using that by (subst unat_of_nat) simp
    then show ?thesis using that by (simp add: mem_allocator_init_def nxt_def add.commute)
  qed
  from init_chain [of NODES "nxt ?a" 4091, OF this] have ch: "chain (nxt ?a) (heads ?a 0) ?ids"
    by (simp add: mem_allocator_init_def)
  have dist: "distinct ?ids"
    unfolding distinct_map by (auto intro!: inj_onI dest!: arg_cong [of _ _ unat] simp: unat_of_nat)
  have ids: "set ?ids = node_ids"
  proof (intro equalityI subsetI)
    fix i assume "i \<in> node_ids"
    then have "i = of_nat (unat i)" "unat i \<in> {1..<NODES}" by (auto simp: node_ids_def)
    then show "i \<in> set ?ids" by (metis image_eqI list.set_map set_upt)
  qed (auto simp: node_ids_def unat_of_nat)
  have "heads ?a l = 0" if "1 \<le> l" "l < 16" for l using that by (simp add: mem_allocator_init_def)
  then have "shape (nxt ?a) (heads ?a) (\<lambda>l. if l = 0 then ?ids else []) {}"
    unfolding shape_def using ch dist ids by auto
  then show ?thesis
    by (simp add: alloc_inv_def lists_sorted_def blocks_ok_def free_set_def)
qed

lemma mem_allocator_init_ok:
  "heap_ok (mem_allocator_init a)" "free_blocks (mem_allocator_init a) = {}" "free_nodes (mem_allocator_init a) = 4091"
  using heap_okI [OF init_alloc_inv] by (auto simp: free_set_def all_coalesced_def coalesced_def buddies_def)

text \<open>Taking a block, and giving one back, on the arrays themselves.\<close>

lemma no_blocks_above:
  assumes "1 \<le> l"
  shows "(\<forall>m. l \<le> m \<longrightarrow> m \<le> 15 \<longrightarrow> C m = []) \<longleftrightarrow> (\<forall>b\<in>free_set ad C. fst b < l)"
proof (intro iffI ballI allI impI)
  fix m assume "\<forall>b\<in>free_set ad C. fst b < l" "l \<le> m" "m \<le> 15"
  then have "(m, ad i) \<notin> free_set ad C" for i by fastforce
  then have "i \<notin> set (C m)" for i using assms \<open>l \<le> m\<close> \<open>m \<le> 15\<close> by (auto simp: free_set_mem)
  then show "C m = []" by (meson hd_in_set)
next
  fix b assume none: "\<forall>m. l \<le> m \<longrightarrow> m \<le> 15 \<longrightarrow> C m = []" and "b \<in> free_set ad C"
  then obtain i where i: "fst b \<le> 15" "i \<in> set (C (fst b))" by (auto simp: free_set_def)
  with none have "\<not> l \<le> fst b" by auto
  then show "fst b < l" by simp
qed

lemma list_get_block:
  assumes "heap_ok a" "1 \<le> l" "15 - l \<le> free_nodes a + 1"
  shows "\<exists>addr a'. list_get l a = Inr (addr, a') \<and> heap_ok a' \<and>
    (if \<forall>b\<in>free_blocks a. fst b < l then addr = 0 \<and> a' = a
     else addr \<noteq> 0 \<and> block_fits (l, unat addr) \<and> block (l, unat addr) \<subseteq> bytes (free_blocks a) \<and>
       bytes (free_blocks a') = bytes (free_blocks a) - block (l, unat addr) \<and>
       free_nodes a + 1 \<le> free_nodes a' + (15 - l))"
proof -
  note ok = heap_okD [OF assms(1)]
  have "get_post l (block_list a) a {} (list_get l a)"
    using list_get_ok [OF assms(2) ok(1,2)] assms(3) by (simp add: free_nodes_def)
  then obtain addr a' C' where r: "list_get l a = Inr (addr, a')" "alloc_inv a' C' {}"
      "all_coalesced (free_set (adr a') C')"
      "if \<forall>b\<in>free_blocks a. fst b < l then addr = 0 \<and> a' = a \<and> C' = block_list a
       else addr \<noteq> 0 \<and> block_fits (l, unat addr) \<and> block (l, unat addr) \<subseteq> bytes (free_blocks a) \<and>
         bytes (free_set (adr a') C') = bytes (free_blocks a) - block (l, unat addr) \<and>
         free_nodes a + 1 \<le> length (C' 0) + (15 - l)"
    unfolding get_post_def no_blocks_above [OF assms(2), of _ "adr a"] free_blocks_def free_nodes_def by blast
  note h = heap_okI [OF r(2,3)]
  show ?thesis using r(1) r(4) [folded h(2,3)] h(1)
    by (intro exI [of _ addr] exI [of _ a']) (simp split: if_splits)
qed

definition add_block :: "nat \<Rightarrow> uint32 \<Rightarrow> mem_allocator \<Rightarrow> mem_allocator res" where
  "add_block l addr a = bindE (node_new addr a) (\<lambda>(n, a). list_put put_fuel l n a)"

lemma add_block_ok:
  assumes "heap_ok a" "block_fits (l, unat addr)" "block (l, unat addr) \<inter> bytes (free_blocks a) = {}" "0 < free_nodes a"
  shows "\<exists>a'. add_block l addr a = Inr a' \<and> heap_ok a' \<and>
    bytes (free_blocks a') = block (l, unat addr) \<union> bytes (free_blocks a) \<and> free_nodes a \<le> free_nodes a' + 1"
proof -
  note ok = heap_okD [OF assms(1)]
  let ?C = "block_list a"
  obtain n r where sp: "?C 0 = n # r" using assms(4) by (cases "?C 0") (auto simp: free_nodes_def)
  obtain a1 where a1: "node_new addr a = Inr (n, a1)" "alloc_inv a1 (?C(0 := r)) {n}"
      "adr a1 n = unat addr" "free_set (adr a1) ?C = free_set (adr a) ?C"
    using node_new_ok [OF ok(1) sp, of addr] by blast
  have "\<exists>a' C'. list_put put_fuel l n a1 = Inr a' \<and> alloc_inv a' C' ({n} - {n}) \<and>
      bytes (free_set (adr a') C') = block (l, adr a1 n) \<union> bytes (free_set (adr a1) (?C(0 := r))) \<and>
      all_coalesced (free_set (adr a') C') \<and> length ((?C(0 := r)) 0) \<le> length (C' 0)"
    by (rule list_put_coalesces) (use a1 ok assms in \<open>auto simp: block_fits_def free_blocks_def\<close>)
  then show ?thesis using a1 sp heap_okI
    by (fastforce simp: add_block_def free_nodes_def free_blocks_def)
qed


section \<open>Coalescing finds large blocks\<close>

text \<open>
  Aligned blocks are nested or disjoint. So when no two buddies are both free, a whole aligned
  block of free bytes lies in one free block.
\<close>

lemma aligned_nested:
  assumes "bsize k dvd x" "bsize m dvd y" "k \<le> m" "z \<in> block (k, x)" "z \<in> block (m, y)"
  shows "block (k, x) \<subseteq> block (m, y)"
proof -
  let ?b = "bsize k"
  have "?b dvd bsize m" using assms(3) by (simp add: bsize_def le_imp_power_dvd)
  then obtain c d e where e: "x = ?b * c" "y = ?b * d" "bsize m = ?b * e"
    using assms(1,2) by (metis dvd_def dvd_trans)
  have z: "?b * c \<le> z" "z < ?b * (c + 1)" "?b * d \<le> z" "z < ?b * (d + e)"
    using assms(4,5) e by (auto simp: block_def distrib_left)
  have "?b * d < ?b * (c + 1)" "?b * c < ?b * (d + e)" using z by linarith+
  then have "d < c + 1" "c < d + e" by (simp_all only: mult_less_cancel1)
  then have "d \<le> c" "c + 1 \<le> d + e" by simp_all
  then have "?b * d \<le> ?b * c" "?b * (c + 1) \<le> ?b * (d + e)" by (simp_all only: mult_le_mono2)
  then show ?thesis using e by (auto simp: block_def distrib_left)
qed

lemma block_start [simp]: "x \<in> block (l, x)"
  by (simp add: block_def)

lemma parent_block:
  assumes "bsize k dvd y"
  obtains y' p where "bsize (Suc k) dvd p" "bsize k dvd y'" "y \<noteq> y'" "{y, y'} = {p, p + bsize k}"
proof (cases "bsize (Suc k) dvd y")
  case True
  then show ?thesis using that [of y "y + bsize k"] assms by simp
next
  case False
  obtain q where q: "y = bsize k * q" using assms by (auto simp: dvd_def)
  with False have "odd q" by (auto simp: bsize_Suc)
  then obtain r where "q = 2 * r + 1" by (rule oddE)
  then have p: "y = bsize (Suc k) * r + bsize k" using q by (simp add: bsize_Suc distrib_left)
  show ?thesis by (rule that [of "bsize (Suc k) * r" "bsize (Suc k) * r"]) (use p in \<open>auto simp: bsize_Suc\<close>)
qed

lemma covered_block:
  assumes ok: "blocks_ok B" and co: "all_coalesced B" and al: "bsize l dvd x" and l: "l \<le> 15"
    and cov: "block (l, x) \<subseteq> bytes B"
  shows "\<exists>b\<in>B. l \<le> fst b"
proof (rule ccontr)
  assume "\<not> (\<exists>b\<in>B. l \<le> fst b)"
  then have less: "fst b < l" if "b \<in> B" for b using that by (auto simp: not_le)
  have fits: "block_fits b" if "b \<in> B" for b using ok that by (simp add: blocks_ok_def)
  let ?in = "\<lambda>k. \<exists>y. (k, y) \<in> B \<and> block (k, y) \<subseteq> block (l, x)"
  have inside: "\<exists>k y. (k, y) \<in> B \<and> z \<in> block (k, y) \<and> bsize k dvd y \<and> block (k, y) \<subseteq> block (l, x)" if "z \<in> block (l, x)" for z
  proof -
    have "z \<in> bytes B" using cov that by blast
    then obtain k y where b: "(k, y) \<in> B" "z \<in> block (k, y)" unfolding bytes_def by auto
    then have "bsize k dvd y" using fits by (auto simp: block_fits_def)
    moreover have "k \<le> l" using less [OF b(1)] by simp
    ultimately show ?thesis using aligned_nested [OF _ al _ b(2) that] b by blast
  qed
  define k where "k = (LEAST k. ?in k)"
  have "\<exists>k. ?in k" using inside [OF block_start] by blast
  then have "?in k" unfolding k_def by (rule LeastI_ex)
  then obtain y where y: "(k, y) \<in> B" "block (k, y) \<subseteq> block (l, x)" by blast
  have kl: "Suc k \<le> l" using less [OF y(1)] by simp
  have "bsize k dvd y" using fits [OF y(1)] by (simp add: block_fits_def)
  from parent_block [OF this] obtain y' p
    where p: "bsize (Suc k) dvd p" "bsize k dvd y'" "y \<noteq> y'" "{y, y'} = {p, p + bsize k}" .
  have par: "block (Suc k, p) = block (k, y) \<union> block (k, y')" using p(4) by (auto simp: block_split doubleton_eq_iff)
  have "block (Suc k, p) \<subseteq> block (l, x)"
    by (rule aligned_nested [OF p(1) al kl, of y]) (use par y(2) in auto)
  then have "y' \<in> block (l, x)" using par by auto
  then obtain m z where c: "(m, z) \<in> B" "y' \<in> block (m, z)" "bsize m dvd z" "block (m, z) \<subseteq> block (l, x)" using inside by blast
  have "k \<le> m" unfolding k_def using c by (intro Least_le) blast
  moreover have "\<not> Suc k \<le> m"
  proof
    assume "Suc k \<le> m"
    then have "block (Suc k, p) \<subseteq> block (m, z)" using p(1) c(2,3) par by (intro aligned_nested [of _ _ _ _ y']) auto
    then have "y \<in> block (m, z)" using par by auto
    moreover have "(k, y) \<noteq> (m, z)" using \<open>Suc k \<le> m\<close> by auto
    then have "block (k, y) \<inter> block (m, z) = {}" using ok y(1) c(1) unfolding blocks_ok_def by blast
    ultimately show False using block_start [of y k] by blast
  qed
  ultimately have "m = k" by simp
  then have "block (k, y') \<subseteq> block (k, z)" "block (k, z) \<subseteq> block (k, y')"
    using aligned_nested [OF p(2) c(3), of y'] aligned_nested [OF c(3) p(2), of y'] c(2) by auto
  then have "z = y'" using block_start [of z k] block_start [of y' k] by (force simp: block_def)
  then have "buddies B k p" using y(1) c(1) p \<open>m = k\<close> by (auto simp: buddies_def doubleton_eq_iff)
  then show False using co kl l by (auto simp: all_coalesced_def coalesced_def)
qed

text \<open>
  The free blocks are determined by the free bytes: an aligned run of free bytes lies in one
  free block, so two coalesced sets of blocks with the same bytes are equal.
\<close>

lemma covered_block_within:
  assumes ok: "blocks_ok B" and co: "all_coalesced B" and al: "bsize l dvd x" and l: "l \<le> 15"
    and cov: "block (l, x) \<subseteq> bytes B"
  shows "\<exists>b\<in>B. block (l, x) \<subseteq> block b"
proof -
  let ?B = "{b\<in>B. block b \<inter> block (l, x) \<noteq> {}}"
  have "blocks_ok ?B" using ok unfolding blocks_ok_def by blast
  moreover have "all_coalesced ?B" using co by (auto simp: all_coalesced_def coalesced_def buddies_def)
  moreover have "block (l, x) \<subseteq> bytes ?B" using cov by (fastforce simp: bytes_def)
  ultimately obtain b where b: "b \<in> ?B" "l \<le> fst b" using covered_block [OF _ _ al l] by blast
  then obtain z where "z \<in> block b" "z \<in> block (l, x)" by blast
  moreover have "bsize (fst b) dvd snd b" using ok b(1) by (simp add: blocks_ok_def block_fits_def)
  ultimately show ?thesis using aligned_nested [of l x "fst b" "snd b" z] al b by auto
qed

lemma block_inject: "block b = block c \<Longrightarrow> b = c"
proof -
  assume eq: "block b = block c"
  have "0 < bsize (fst b)" "0 < bsize (fst c)" by (simp_all add: bsize_def)
  then have "snd b = snd c" "snd b + bsize (fst b) = snd c + bsize (fst c)"
    using eq atLeastLessThan_eq_iff [of "snd b" "snd b + bsize (fst b)" "snd c" "snd c + bsize (fst c)"]
    by (simp_all add: block_def)
  then have "snd b = snd c" "(2::nat) ^ (fst b + 3) = 2 ^ (fst c + 3)" by (simp_all add: bsize_def add.commute)
  then show "b = c" using power_inject_exp [of "2::nat"] by (simp add: prod_eq_iff)
qed

lemma coalesced_subset:
  assumes B: "blocks_ok B" "all_coalesced B" and C: "blocks_ok C" "all_coalesced C" and eq: "bytes B = bytes C"
  shows "B \<subseteq> C"
proof
  fix b assume b: "b \<in> B"
  have within: "\<exists>d\<in>D. block c \<subseteq> block d"
    if "c \<in> D'" "blocks_ok D'" "blocks_ok D" "all_coalesced D" "bytes D' = bytes D" for c D D'
  proof -
    have "block_fits c" "block c \<subseteq> bytes D" using that by (auto simp: blocks_ok_def bytes_def)
    then show ?thesis using covered_block_within [OF that(3,4), of "fst c" "snd c"] by (simp add: block_fits_def)
  qed
  obtain c where c: "c \<in> C" "block b \<subseteq> block c" using within [OF b B(1) C eq] by blast
  obtain d where d: "d \<in> B" "block c \<subseteq> block d" using within [OF c(1) C(1) B eq [symmetric]] by blast
  have "d = b" using B(1) b d(1) c(2) d(2) block_start [of "snd b" "fst b"] unfolding blocks_ok_def by fastforce
  then show "b \<in> C" using c d(2) block_inject [of b c] by blast
qed

lemma free_blocks_canonical:
  assumes "heap_ok a" "heap_ok b" "bytes (free_blocks a) = bytes (free_blocks b)"
  shows "free_blocks a = free_blocks b"
proof -
  have "blocks_ok (free_blocks a)" "blocks_ok (free_blocks b)"
    using assms(1,2) by (auto dest: heap_okD)
  then show ?thesis
    using assms coalesced_subset [of "free_blocks a" "free_blocks b"] coalesced_subset [of "free_blocks b" "free_blocks a"]
    by (simp add: heap_ok_def)
qed

end
