(* ===== verification/Memory.thy ===== *)
theory Memory
  imports Paging Kmalloc
begin

text \<open>
  The kernel heap as the rest of the kernel sees it: \<^verbatim>\<open>kernel/memory.c\<close> with \<open>mem_alloc\<close> and
  \<open>mem_free\<close> of \<^verbatim>\<open>kernel/kmalloc.c\<close>. The heap starts at \<open>0xC3000000\<close> and grows by \<open>kbrk\<close>, which
  maps fresh frames behind its end; pages enter the buddy allocator as blocks of list 9.

  The main invariant \<open>kmem_ok\<close> ties the three parts together: the free blocks of the allocator
  lie in the heap, every address of the heap is mapped, no two pages of the heap share a frame,
  and no frame of the heap is free or serves as page directory or page table. So a write to an
  allocated block changes neither a translation nor another block.
\<close>

section \<open>State\<close>

record kmem = machine +
  heap :: uint32
  allocator :: mem_allocator
  mem_lock :: lock_t
  stats :: uint32

abbreviation (input) HEAP_START :: uint32 where "HEAP_START \<equiv> 0xC3000000"

text \<open>An entry of the memory map of the boot loader (\<^verbatim>\<open>struct mmap\<close> of \<^verbatim>\<open>mboot.h\<close>).\<close>

record mmap =
  mmap_size :: uint32
  base_low :: uint32
  base_high :: uint32
  length_low :: uint32
  length_high :: uint32
  mmap_type :: uint32

section \<open>Operations\<close>

definition page_count :: "uint32 \<Rightarrow> uint32" where
  "page_count n = (n + PAGE_SIZE - 1) div PAGE_SIZE"

definition page_align :: "uint32 \<Rightarrow> uint32" where
  "page_align addr = push_bit 12 (drop_bit 12 addr)"

primrec kbrk_loop :: "nat \<Rightarrow> 'a kmem_scheme \<Rightarrow> 'a kmem_scheme res" where
  "kbrk_loop 0 s = Inr s"
| "kbrk_loop (Suc n) s =
     bindE (paging_is_mapped (heap s) s) (\<lambda>m.
     bindE (if m = 0
            then bindE (mem_phys_alloc s) (\<lambda>(f, s). paging_map (heap s) f (PAGE_PRESENT OR PAGE_WRITABLE) s)
            else Inr s) (\<lambda>s.
     kbrk_loop n (s\<lparr>heap := heap s + PAGE_SIZE\<rparr>)))"

definition kbrk :: "uint32 \<Rightarrow> 'a kmem_scheme \<Rightarrow> (ptr \<times> 'a kmem_scheme) res" where
  "kbrk pages s = (let r = heap s in bindE (kbrk_loop (unat pages) s) (\<lambda>s. Inr (r, s)))"

text \<open>
  The loop of \<open>mem_init\<close> over the memory map: \<open>mm p\<close> is the entry at address \<open>p\<close>. An entry that
  gives its own size as \<open>-4\<close> would make it run forever, so it carries fuel.
\<close>

definition free_entry :: "mmap \<Rightarrow> 'a palloc_scheme \<Rightarrow> 'a palloc_scheme" where
  "free_entry m s =
     (if mmap_type m = 1
      then let addr = page_align (base_low m + PAGE_SIZE - 1);
               end_addr = page_align (base_low m + length_low m);
               pages = (end_addr - addr) div PAGE_SIZE
           in mem_phys_free_range addr pages s
      else s)"

fun mmap_loop :: "nat \<Rightarrow> (ptr \<Rightarrow> mmap) \<Rightarrow> ptr \<Rightarrow> ptr \<Rightarrow> 'a palloc_scheme \<Rightarrow> 'a palloc_scheme res" where
  "mmap_loop 0 mm p end_p s = Inl Diverges"
| "mmap_loop (Suc fuel) mm p end_p s =
     (if p < end_p then mmap_loop fuel mm (p + (mmap_size (mm p) + 4)) end_p (free_entry (mm p) s)
      else Inr s)"

definition mem_init :: "nat \<Rightarrow> (ptr \<Rightarrow> mmap) \<Rightarrow> ptr \<Rightarrow> uint32 \<Rightarrow> 'a kmem_scheme \<Rightarrow> 'a kmem_scheme res" where
  "mem_init fuel mm p len s =
     (let s = s\<lparr>heap := HEAP_START, allocator := mem_allocator_init (allocator s)\<rparr> in
      bindE (mmap_loop fuel mm p (p + len) s) (\<lambda>s.
      let s = mem_phys_reserve 0 s;
          s = mem_phys_reserve_range 0x00100000 (0x100000 div PAGE_SIZE) s;
          s = mem_phys_reserve LAPIC_BASE s;
          s = mem_phys_reserve IOAPIC_BASE s in
      bindE (paging_map 0xFEC00000 0xFEC00000 (PAGE_PRESENT OR PAGE_WRITABLE) s) (\<lambda>s.
      paging_map 0xFEE00000 0xFEE00000 (PAGE_PRESENT OR PAGE_WRITABLE) s)))"

text \<open>
  The list for a size, the loop at the head of \<open>mem_alloc\<close>: its bound is the number of nodes,
  not of lists, and \<open>block_size\<close> becomes 0 when the bit is shifted out.
\<close>

function alloc_level :: "nat \<Rightarrow> uint32 \<Rightarrow> uint32 \<Rightarrow> nat" where
  "alloc_level i block_size sz =
     (if i < NODES then if sz \<le> block_size then i else alloc_level (Suc i) (push_bit 1 block_size) sz
      else i)"
  by pat_completeness auto
termination
  by (relation "measure (\<lambda>(i, b, s). NODES - i)") auto

declare alloc_level.simps [simp del]

text \<open>\<open>mem_alloc\<close> calls itself until a block is found; the fuel bounds the number of pages it adds.\<close>

fun mem_alloc :: "nat \<Rightarrow> uint32 \<Rightarrow> 'a kmem_scheme \<Rightarrow> (ptr \<times> 'a kmem_scheme) res" where
  "mem_alloc 0 sz s = Inl Diverges"
| "mem_alloc (Suc fuel) sz s =
     (let i = alloc_level 1 (list_size 1) sz in
      bindE (if i = NODES then Inr (0, allocator s) else list_get i (allocator s)) (\<lambda>(r, a).
      let s = s\<lparr>allocator := a\<rparr> in
      if r \<noteq> 0 then Inr (r, s)
      else
        bindE (kbrk 1 s) (\<lambda>(addr, s).
        bindE (node_new addr (allocator s)) (\<lambda>(n, a).
        bindE (list_put put_fuel 9 n a) (\<lambda>a.
        mem_alloc fuel sz (s\<lparr>allocator := a\<rparr>))))))"

text \<open>The loop of \<open>mem_free\<close>; it does not end when \<open>block_size\<close> has become 0.\<close>

partial_function (option) free_level :: "uint8 \<Rightarrow> uint32 \<Rightarrow> uint32 \<Rightarrow> uint8 option" where
  "free_level i block_size sz =
     (if block_size < sz then free_level (i + 1) (push_bit 1 block_size) sz else Some i)"

definition mem_free :: "ptr \<Rightarrow> uint32 \<Rightarrow> mem_allocator \<Rightarrow> mem_allocator res" where
  "mem_free addr sz a =
     bindE (node_new addr a) (\<lambda>(n, a).
     bindE (of_loop (free_level 1 (list_size 1) sz)) (\<lambda>i.
     list_put put_fuel (unat i) n a))"

text \<open>
  A byte store through the MMU, into the little-endian word that holds the byte, and
  \<open>kmemset\<close> of \<^verbatim>\<open>kernel/util.c\<close>.
\<close>

definition set_byte :: "nat \<Rightarrow> uint8 \<Rightarrow> uint32 \<Rightarrow> uint32" where
  "set_byte k x w = (w AND NOT (push_bit (8 * k) 0xFF)) OR push_bit (8 * k) (ucast x)"

definition vwrite8 :: "ptr \<Rightarrow> uint8 \<Rightarrow> 'a machine_scheme \<Rightarrow> 'a machine_scheme res" where
  "vwrite8 v x s =
     (case mmu_translate v s of
        None \<Rightarrow> Inl PageFault
      | Some p \<Rightarrow>
          let w = p AND 0xFFFFFFFC
          in Inr (s\<lparr>phys_mem := (phys_mem s)(w := set_byte (unat (p AND 3)) x (phys_mem s w))\<rparr>))"

primrec kmemset :: "nat \<Rightarrow> ptr \<Rightarrow> uint8 \<Rightarrow> 'a machine_scheme \<Rightarrow> 'a machine_scheme res" where
  "kmemset 0 p x s = Inr s"
| "kmemset (Suc n) p x s = bindE (vwrite8 p x s) (kmemset n (p + 1) x)"

definition kmalloc :: "nat \<Rightarrow> uint32 \<Rightarrow> 'a kmem_scheme \<Rightarrow> (ptr \<times> 'a kmem_scheme) res" where
  "kmalloc fuel sz s =
     bindE (section_enter (mem_lock s)) (\<lambda>l.
     let s = s\<lparr>mem_lock := l, stats := stats s + sz\<rparr> in
     bindE (mem_alloc fuel sz s) (\<lambda>(buf, s).
     bindE (kmemset (unat sz) buf 0 s) (\<lambda>s.
     Inr (buf, s\<lparr>mem_lock := section_leave (mem_lock s)\<rparr>))))"

text \<open>The macro \<^verbatim>\<open>NEW(type)\<close> of \<^verbatim>\<open>kernel/memory.h\<close>, for a type of \<open>sz\<close> bytes.\<close>

definition new_object :: "nat \<Rightarrow> uint32 \<Rightarrow> 'a kmem_scheme \<Rightarrow> (ptr \<times> 'a kmem_scheme) res" where
  "new_object fuel sz s =
     bindE (kmalloc fuel sz s) (\<lambda>(p, s). bindE (kmemset (unat sz) p 0 s) (\<lambda>s. Inr (p, s)))"

definition kfree :: "ptr \<Rightarrow> uint32 \<Rightarrow> 'a kmem_scheme \<Rightarrow> 'a kmem_scheme res" where
  "kfree p sz s =
     bindE (section_enter (mem_lock s)) (\<lambda>l.
     let s = s\<lparr>mem_lock := l, stats := stats s - sz\<rparr> in
     bindE (mem_free p sz (allocator s)) (\<lambda>a.
     Inr (s\<lparr>allocator := a, mem_lock := section_leave (mem_lock s)\<rparr>)))"

definition mem_stats :: "'a kmem_scheme \<Rightarrow> uint32" where
  "mem_stats s = stats s"

section \<open>The list for a size\<close>

text \<open>
  \<open>level_of n\<close> is the first list whose blocks hold \<open>n\<close> bytes. The loops of \<open>mem_alloc\<close> and
  \<open>mem_free\<close> both find it, for sizes up to \<open>2 ^ 31\<close>.
\<close>

definition level_of :: "nat \<Rightarrow> nat" where
  "level_of n = (LEAST l. 1 \<le> l \<and> n \<le> bsize l)"

lemma bsize_mono: "l \<le> m \<Longrightarrow> bsize l \<le> bsize m"
  by (simp add: bsize_def)

lemma level_of_props:
  assumes "n \<le> 2 ^ 31"
  shows "1 \<le> level_of n" "n \<le> bsize (level_of n)" "level_of n \<le> 28"
proof -
  have ex: "1 \<le> (28 :: nat) \<and> n \<le> bsize 28" using assms by (simp add: bsize_def)
  from LeastI [of "\<lambda>l. 1 \<le> l \<and> n \<le> bsize l", OF ex]
  show "1 \<le> level_of n" "n \<le> bsize (level_of n)" by (simp_all add: level_of_def)
  show "level_of n \<le> 28" unfolding level_of_def using ex by (rule Least_le)
qed

lemma level_of_least: "1 \<le> l \<Longrightarrow> l < level_of n \<Longrightarrow> bsize l < n"
  unfolding level_of_def using not_less_Least [of l "\<lambda>l. 1 \<le> l \<and> n \<le> bsize l"] by auto

lemma level_of_le: "1 \<le> l \<Longrightarrow> n \<le> bsize l \<Longrightarrow> level_of n \<le> l"
  unfolding level_of_def by (rule Least_le) simp

lemma list_size_double: "list_size i * 2 = list_size (Suc i)"
  using power_Suc [of "2::uint32" "i + 3"] by (simp add: list_size_def mult.commute)

lemma size_le_list_size: "i \<le> 28 \<Longrightarrow> sz \<le> list_size i \<longleftrightarrow> unat sz \<le> bsize i"
  by (simp add: word_le_nat_alt list_size_nat)

lemma alloc_level_from:
  assumes "unat sz \<le> 2 ^ 31" "1 \<le> i" "i \<le> level_of (unat sz)"
  shows "alloc_level i (list_size i) sz = level_of (unat sz)"
  using assms(2,3)
proof (induction "level_of (unat sz) - i" arbitrary: i)
  case 0
  then show ?case using level_of_props [OF assms(1)]
    by (simp add: alloc_level.simps [of i] size_le_list_size)
next
  case (Suc k)
  then have "i < level_of (unat sz)" by simp
  then show ?case
    using Suc level_of_props(3) [OF assms(1)] level_of_least [of i "unat sz"]
    by (simp add: alloc_level.simps [of i] size_le_list_size list_size_double)
qed

lemma alloc_level_eq: "unat sz \<le> 2 ^ 31 \<Longrightarrow> alloc_level 1 (list_size 1) sz = level_of (unat sz)"
  using alloc_level_from level_of_props(1) by simp

lemma free_level_from:
  assumes "unat sz \<le> 2 ^ 31" "1 \<le> i" "i \<le> level_of (unat sz)"
  shows "free_level (of_nat i) (list_size i) sz = Some (of_nat (level_of (unat sz)))"
  using assms(2,3)
proof (induction "level_of (unat sz) - i" arbitrary: i)
  case 0
  then show ?case using level_of_props [OF assms(1)]
    by (subst free_level.simps) (simp add: not_le [symmetric] size_le_list_size)
next
  case (Suc k)
  then have i: "i < level_of (unat sz)" by simp
  then have "list_size i < sz"
    using Suc.prems(1) level_of_props(3) [OF assms(1)] level_of_least [of i "unat sz"]
    by (simp add: not_le [symmetric] size_le_list_size)
  then have "free_level (of_nat i) (list_size i) sz = free_level (of_nat (Suc i)) (list_size (Suc i)) sz"
    by (subst free_level.simps) (simp add: list_size_double add.commute)
  then show ?case using Suc.hyps(1) [of "Suc i"] Suc.hyps(2) i Suc.prems by simp
qed

lemma free_level_eq:
  "unat sz \<le> 2 ^ 31 \<Longrightarrow> free_level 1 (list_size 1) sz = Some (of_nat (level_of (unat sz)))"
  using free_level_from [of sz 1] level_of_props(1) by simp

text \<open>Past \<open>2 ^ 31\<close> the block size is shifted out and the loop of \<open>mem_free\<close> never ends.\<close>

lemma free_level_0: "free_level i 0 sz = Some j \<Longrightarrow> sz = 0"
proof -
  assume "free_level i 0 sz = Some j"
  then have "(0::uint32) = 0 \<longrightarrow> sz = 0"
    by (rule free_level.raw_induct [where P = "\<lambda>i b sz j. b = 0 \<longrightarrow> sz = 0", rotated]) (auto simp: word_gt_0 split: if_splits)
  then show ?thesis by simp
qed

section \<open>Private frames\<close>

text \<open>
  A physical address is private when its frame is not free and is neither the page directory
  nor a page table. Writing there changes no translation.
\<close>

definition private_at :: "uint32 \<Rightarrow> 'a machine_scheme \<Rightarrow> bool" where
  "private_at p s \<longleftrightarrow> frame_of p \<notin> frames s \<and> frame_of p \<noteq> frame_of (pdir s) \<and>
     (\<forall>i. unat i < 1023 \<longrightarrow> pde i s AND PAGE_PRESENT \<noteq> 0 \<longrightarrow> frame_of p \<noteq> frame_of (pde i s))"

lemma frame_of_slot: "page_aligned b \<Longrightarrow> unat i < 1024 \<Longrightarrow> frame_of (b + 4 * i) = frame_of b"
proof -
  assume al: "page_aligned b" and i: "unat i < 1024"
  then obtain q where "unat b = 4096 * q" by (auto simp: page_aligned_def dvd_eq_mod_eq_0 [symmetric])
  then show ?thesis using i by (simp add: frame_of_def unat_page_slot [OF al] unat_times4)
qed

lemma frame_of_pte_slot: "frame_of (pte_slot v s) = frame_of (pde (page_dir_index v) s)"
  by (simp add: pte_slot_def frame_of_slot)

lemma pde_write_private:
  assumes "private_at p s" "frame_of a = frame_of p" "unat i < 1024"
  shows "pde i (s\<lparr>phys_mem := (phys_mem s)(a := x)\<rparr>) = pde i s"
proof (rule pde_upd_other)
  show "a \<noteq> pdir s + 4 * i" using assms frame_of_slot [OF pdir_aligned assms(3), of s]
    by (auto simp: private_at_def)
qed

lemma translate_write_private:
  assumes "private_at p s" "frame_of a = frame_of p" "page_dir_index v \<noteq> 1023"
  shows "mmu_translate v (s\<lparr>phys_mem := (phys_mem s)(a := x)\<rparr>) = mmu_translate v s"
proof -
  let ?i = "page_dir_index v"
  note eq = pde_write_private [OF assms(1,2), of ?i x]
  have i: "unat ?i < 1023" using assms(3) by (intro dir_index_less) simp_all
  have "a \<noteq> pte_slot v s" if "pde ?i s AND PAGE_PRESENT \<noteq> 0"
    using that i assms(1,2) frame_of_pte_slot [of v s] by (auto simp: private_at_def)
  then show ?thesis using eq
    by (cases "pde ?i s AND PAGE_PRESENT = 0") (auto simp: mmu_translate_def pte_slot_def)
qed

lemma private_write_private:
  assumes "private_at p s" "frame_of a = frame_of p"
  shows "private_at q (s\<lparr>phys_mem := (phys_mem s)(a := x)\<rparr>) = private_at q s"
  using pde_write_private [OF assms] by (simp add: private_at_def)

lemma dir_ok_write_private:
  assumes "private_at p s" "frame_of a = frame_of p" "dir_ok s"
  shows "dir_ok (s\<lparr>phys_mem := (phys_mem s)(a := x)\<rparr>)"
  by (rule dir_ok_cong [OF _ _ _ assms(3)]) (use pde_write_private [OF assms(1,2)] in simp_all)

text \<open>Bytes of a word.\<close>

definition get_byte :: "nat \<Rightarrow> uint32 \<Rightarrow> uint8" where
  "get_byte k w = ucast (drop_bit (8 * k) w)"

definition vread8 :: "ptr \<Rightarrow> 'a machine_scheme \<Rightarrow> uint8 res" where
  "vread8 v s =
     (case mmu_translate v s of
        None \<Rightarrow> Inl PageFault
      | Some p \<Rightarrow> Inr (get_byte (unat (p AND 3)) (phys_mem s (p AND 0xFFFFFFFC))))"

lemma byte_mask: "(0xFF :: uint32) = mask 8"
  by (simp add: mask_eq_exp_minus_1)

lemma get_set_byte [simp]: "k < 4 \<Longrightarrow> get_byte k (set_byte k x w) = x"
  unfolding get_byte_def set_byte_def byte_mask
  by (rule bit_word_eqI) (auto simp: bit_simps)

lemma get_set_byte_other: "k < 4 \<Longrightarrow> j < 4 \<Longrightarrow> j \<noteq> k \<Longrightarrow> get_byte j (set_byte k x w) = get_byte j w"
  unfolding get_byte_def set_byte_def byte_mask
  by (rule bit_word_eqI) (auto simp: bit_simps dest!: bit_imp_le_length [of x, simplified])

lemma set_get_byte: "k < 4 \<Longrightarrow> set_byte k (get_byte k w) w = w"
  unfolding get_byte_def set_byte_def byte_mask
  by (rule bit_word_eqI) (auto simp: bit_simps)

section \<open>The invariant of the kernel memory\<close>

abbreviation (input) HEAP_LIMIT :: uint32 where "HEAP_LIMIT \<equiv> 0xCCCC0000"

definition heap_region :: "'a kmem_scheme \<Rightarrow> uint32 set" where
  "heap_region s = {v. HEAP_START \<le> v \<and> v < heap s}"

definition heap_mapped :: "'a kmem_scheme \<Rightarrow> bool" where
  "heap_mapped s \<longleftrightarrow>
     (\<forall>v\<in>heap_region s. \<exists>p. mmu_translate v s = Some p \<and> private_at p s) \<and>
     (\<forall>v\<in>heap_region s. \<forall>w\<in>heap_region s. mmu_translate v s = mmu_translate w s \<longrightarrow> v = w) \<and>
     (\<forall>v. heap s \<le> v \<longrightarrow> v < HEAP_LIMIT \<longrightarrow> mmu_translate v s = None)"

definition kmem_ok :: "'a kmem_scheme \<Rightarrow> bool" where
  "kmem_ok s \<longleftrightarrow> dir_ok s \<and> palloc_ready s \<and> heap_ok (allocator s) \<and>
     page_aligned (heap s) \<and> HEAP_START \<le> heap s \<and> heap s \<le> HEAP_LIMIT \<and>
     bytes (free_blocks (allocator s)) \<subseteq> unat ` heap_region s \<and> heap_mapped s"

text \<open>The fields that \<^verbatim>\<open>memory.c\<close> adds do not matter to the frame allocator and the MMU.\<close>

lemma kmem_fields [simp]:
  "mmu_translate v (s\<lparr>heap := h\<rparr>) = mmu_translate v s" "mmu_translate v (s\<lparr>allocator := a\<rparr>) = mmu_translate v s"
  "mmu_translate v (s\<lparr>mem_lock := k\<rparr>) = mmu_translate v s" "mmu_translate v (s\<lparr>stats := n\<rparr>) = mmu_translate v s"
  "frames (s\<lparr>heap := h\<rparr>) = frames s" "frames (s\<lparr>allocator := a\<rparr>) = frames s"
  "frames (s\<lparr>mem_lock := k\<rparr>) = frames s" "frames (s\<lparr>stats := n\<rparr>) = frames s"
  "palloc_ready (s\<lparr>heap := h\<rparr>) = palloc_ready s" "palloc_ready (s\<lparr>allocator := a\<rparr>) = palloc_ready s"
  "palloc_ready (s\<lparr>mem_lock := k\<rparr>) = palloc_ready s" "palloc_ready (s\<lparr>stats := n\<rparr>) = palloc_ready s"
  "private_at p (s\<lparr>heap := h\<rparr>) = private_at p s" "private_at p (s\<lparr>allocator := a\<rparr>) = private_at p s"
  "private_at p (s\<lparr>mem_lock := k\<rparr>) = private_at p s" "private_at p (s\<lparr>stats := n\<rparr>) = private_at p s"
  "dir_ok (s\<lparr>heap := h\<rparr>) = dir_ok s" "dir_ok (s\<lparr>allocator := a\<rparr>) = dir_ok s"
  "dir_ok (s\<lparr>mem_lock := k\<rparr>) = dir_ok s" "dir_ok (s\<lparr>stats := n\<rparr>) = dir_ok s"
  by (simp_all add: mmu_translate_def pte_slot_def pde_def pdir_def frames_def palloc_ready_def
      private_at_def dir_ok_def self_mapped_def)

lemma map_page_kmem [simp]:
  "heap (map_page v e s) = heap s" "allocator (map_page v e s) = allocator s"
  "mem_lock (map_page v e s) = mem_lock s" "stats (map_page v e s) = stats s"
  "heap (mem_phys_reserve a s) = heap s" "allocator (mem_phys_reserve a s) = allocator s"
  "mem_lock (mem_phys_reserve a s) = mem_lock s" "stats (mem_phys_reserve a s) = stats s"
  by (simp_all add: map_page_def install_pte_def with_table_def fresh_table_def mem_phys_reserve_def Let_def)

lemma heap_dir_index: "v < HEAP_LIMIT \<Longrightarrow> page_dir_index v \<noteq> 1023"
  by (auto simp: word_unat_eq_iff unat_page_dir_index word_less_nat_alt)

lemma dir_ok_reserve: "dir_ok s \<Longrightarrow> dir_ok (mem_phys_reserve a s)"
  by (rule dir_ok_cong) auto

lemma private_reserve: "private_at p s \<Longrightarrow> private_at p (mem_phys_reserve a s)"
  by (simp add: private_at_def)

lemma translate_reserve [simp]: "mmu_translate v (mem_phys_reserve a s) = mmu_translate v s"
  by (simp add: mmu_translate_def pte_slot_def)

lemma private_map_page:
  assumes "map_ready s" "page_dir_index virt \<noteq> 1023" "private_at p s"
  shows "private_at p (map_page virt e s)"
proof -
  have m: "Min (frames s) \<in> frames s" "Min (frames s) < PAGES"
    using assms(1) Min_frames_mem [of s] by (auto simp: map_ready_def)
  have "frame_of p \<noteq> Min (frames s)" using m(1) assms(3) by (auto simp: private_at_def)
  moreover have "frames (map_page virt e s) \<subseteq> frames s" using assms(1) by (auto simp: frames_map_page)
  ultimately show ?thesis
    using assms m by (auto simp: private_at_def map_page_pde split: if_splits)
qed

text \<open>Mapping the page behind the end of the heap to a frame \<open>f\<close> that was free.\<close>

definition grow_heap :: "'a kmem_scheme \<Rightarrow> 'a kmem_scheme" where
  "grow_heap s = (let f = frame_addr (Min (frames s))
     in (map_page (heap s) (page_entry f 3) (mem_phys_reserve f s))\<lparr>heap := heap s + PAGE_SIZE\<rparr>)"

lemma grow_heap_fields [simp]:
  "heap (grow_heap s) = heap s + PAGE_SIZE" "allocator (grow_heap s) = allocator s"
  "mem_lock (grow_heap s) = mem_lock s" "stats (grow_heap s) = stats s" "pdir (grow_heap s) = pdir s"
  by (simp_all add: grow_heap_def Let_def pdir_def)

lemma reserve_map_ready:
  assumes "kmem_ok s" "2 \<le> card (frames s)"
  shows "map_ready (mem_phys_reserve (frame_addr (Min (frames s))) s)"
proof -
  have "frames s - {p} \<noteq> {}" for p
    using assms(2) card_mono [of "{p}" "frames s"] by auto
  then show ?thesis using assms(1) by (simp add: map_ready_def kmem_ok_def dir_ok_reserve)
qed

lemma kbrk_eq:
  assumes ok: "kmem_ok s" and room: "heap s < HEAP_LIMIT" and two: "2 \<le> card (frames s)"
  shows "kbrk 1 s = Inr (heap s, grow_heap s)"
proof -
  let ?f = "frame_addr (Min (frames s))"
  have "frames s \<noteq> {}" using two by auto
  then have alloc: "mem_phys_alloc s = Inr (?f, mem_phys_reserve ?f s)"
    using ok by (simp add: kmem_ok_def mem_phys_alloc_lowest)
  have "mmu_translate (heap s) s = None" using ok room by (simp add: kmem_ok_def heap_mapped_def)
  then have "paging_is_mapped (heap s) s = Inr 0"
    using ok by (simp add: kmem_ok_def dir_ok_def paging_is_mapped_eq)
  moreover have "paging_map (heap s) ?f (1 OR 2) (mem_phys_reserve ?f s) =
      Inr (map_page (heap s) (page_entry ?f 3) (mem_phys_reserve ?f s))"
    using paging_map_eq [OF reserve_map_ready [OF ok two] heap_dir_index [OF room], of ?f "1 OR 2"] by simp
  ultimately show ?thesis by (simp add: kbrk_def grow_heap_def Let_def alloc)
qed

lemma two_frames: "2 \<le> card (frames s) \<Longrightarrow> Min (frames s) \<in> frames s \<and> Min (frames s) < PAGES"
  using Min_frames_mem [of s] by (cases "frames s = {}") simp_all

lemma heap_page_iff:
  assumes "page_aligned h" "h < HEAP_LIMIT"
  shows "v AND 0xFFFFF000 = h \<longleftrightarrow> h \<le> v \<and> v < h + PAGE_SIZE"
    and "unat (h + PAGE_SIZE) = unat h + 4096" "h + PAGE_SIZE \<le> HEAP_LIMIT" "page_aligned (h + PAGE_SIZE)"
proof -
  obtain q where q: "unat h = 4096 * q" using assms(1) by (auto simp: page_aligned_def dvd_eq_mod_eq_0 [symmetric])
  have lim: "unat h < 3435921408" using assms(2) by (simp add: word_less_nat_alt)
  then show u: "unat (h + PAGE_SIZE) = unat h + 4096" by (simp add: unat_word_ariths)
  have "4096 * q < 4096 * 838848" using q lim by simp
  then show "h + PAGE_SIZE \<le> HEAP_LIMIT" using q u by (simp add: word_le_nat_alt)
  show "page_aligned (h + PAGE_SIZE)" using q u by (simp add: page_aligned_def)
  have "v AND 0xFFFFF000 = h \<longleftrightarrow> 4096 * (unat v div 4096) = 4096 * q"
    by (simp add: word_unat_eq_iff unat_page_base q mult.commute)
  also have "\<dots> \<longleftrightarrow> 4096 * q \<le> unat v \<and> unat v < 4096 * q + 4096"
    by (auto simp: div_nat_eqI mult.commute)
  finally show "v AND 0xFFFFF000 = h \<longleftrightarrow> h \<le> v \<and> v < h + PAGE_SIZE"
    by (simp add: word_le_nat_alt word_less_nat_alt u q)
qed

lemma heap_not_twin:
  assumes "HEAP_START \<le> h"
  shows "\<not> twins i (page_dir_index h)"
proof -
  have "unat HEAP_START div 4194304 \<le> unat h div 4194304" using assms by (intro div_le_mono) (simp add: word_le_nat_alt)
  then have "780 \<le> unat (page_dir_index h)" by (simp add: unat_page_dir_index)
  then show ?thesis by (auto simp: twins_def)
qed

lemma grow_heap_translate:
  assumes ok: "kmem_ok s" and room: "heap s < HEAP_LIMIT" and two: "2 \<le> card (frames s)" and v: "v < HEAP_LIMIT"
  shows "mmu_translate v (grow_heap s) =
    (if heap s \<le> v \<and> v < heap s + PAGE_SIZE then Some (frame_addr (Min (frames s)) + (v AND 0xFFF))
     else mmu_translate v s)"
proof -
  have al: "page_aligned (heap s)" using ok by (simp add: kmem_ok_def)
  note pg = heap_page_iff [OF al room]
  have "\<not> twins i (page_dir_index (heap s))" for i using heap_not_twin [of "heap s"] ok by (simp add: kmem_ok_def)
  then show ?thesis
    using map_page_translate [OF reserve_map_ready [OF ok two] heap_dir_index [OF room] heap_dir_index [OF v]]
      page_base_aligned [OF al] page_base_aligned [OF frame_addr_aligned, of "Min (frames s)"]
    by (simp add: grow_heap_def Let_def pg(1))
qed

lemma grow_heap_private:
  assumes ok: "kmem_ok s" and room: "heap s < HEAP_LIMIT" and two: "2 \<le> card (frames s)"
  shows "private_at p s \<Longrightarrow> private_at p (grow_heap s)"
    and "frame_of p = Min (frames s) \<Longrightarrow> private_at p (grow_heap s)"
proof -
  let ?f = "frame_addr (Min (frames s))"
  note mr = reserve_map_ready [OF ok two]
  have m: "Min (frames s) \<in> frames s" "Min (frames s) < PAGES"
    using two_frames [OF two] by simp_all
  have *: "private_at p (grow_heap s)" if "private_at p (mem_phys_reserve ?f s)"
    using private_map_page [OF mr heap_dir_index [OF room] that] by (simp add: grow_heap_def Let_def)
  show "private_at p (grow_heap s)" if "private_at p s" using * private_reserve that by blast
  assume "frame_of p = Min (frames s)"
  moreover have "Min (frames s) \<noteq> frame_of (pdir s)"
    "\<forall>i. unat i < 1023 \<longrightarrow> pde i s AND PAGE_PRESENT \<noteq> 0 \<longrightarrow> Min (frames s) \<noteq> frame_of (pde i s)"
    using m(1) ok unfolding kmem_ok_def dir_ok_def by metis+
  ultimately have "private_at p (mem_phys_reserve ?f s)" using m(2) by (simp add: private_at_def)
  then show "private_at p (grow_heap s)" by (rule *)
qed

lemma frame_of_word: "frame_of (p AND 0xFFFFFFFC) = frame_of p"
proof -
  have "(p AND 0xFFFFFFFC) AND 0xFFFFF000 = p AND 0xFFFFF000" by (simp add: and.assoc)
  then show ?thesis by (metis frame_of_base)
qed

lemma map_page_keeps:
  assumes mr: "map_ready s" and virt: "page_dir_index virt \<noteq> 1023" and priv: "private_at p s" "frame_of a = frame_of p"
  shows "phys_mem (map_page virt e s) a = phys_mem s a"
proof -
  let ?i = "page_dir_index virt" and ?f = "frame_addr (Min (frames s))"
  let ?t = "with_table ?i s"
  have i: "unat ?i < 1023" using virt by (intro dir_index_less) simp_all
  have m: "Min (frames s) \<in> frames s" "Min (frames s) < PAGES"
    using mr Min_frames_mem [of s] by (auto simp: map_ready_def)
  have pr: "private_at p (map_page virt e s)" using private_map_page [OF mr virt priv(1)] .
  have "pte_slot virt ?t = pte_slot virt (map_page virt e s)" "pde ?i (map_page virt e s) AND PAGE_PRESENT \<noteq> 0"
    using with_table_ok [OF mr _ virt] with_table_present [OF mr, of ?i] virt
    by (simp_all add: map_page_def pte_slot_def install_pte_pde)
  then have "a \<noteq> pte_slot virt ?t"
    using pr i priv(2) frame_of_pte_slot [of virt "map_page virt e s"] by (auto simp: private_at_def)
  then have "phys_mem (map_page virt e s) a = phys_mem ?t a" by (simp add: map_page_def install_pte_def)
  also have "\<dots> = phys_mem s a"
  proof -
    have "a \<noteq> pdir s + 4 * ?i" using priv frame_of_slot [OF pdir_aligned, of ?i s] by (auto simp: private_at_def)
    moreover have "a \<noteq> ?f + 4 * of_nat k" if "k < 1024" for k
    proof -
      have "unat (of_nat k :: uint32) < 1024" using that by (simp add: unat_of_nat)
      then have "frame_of (?f + 4 * of_nat k) = Min (frames s)" using m(2) by (simp add: frame_of_slot)
      then show ?thesis using priv m(1) by (auto simp: private_at_def)
    qed
    ultimately show ?thesis by (auto simp: with_table_def fresh_table_def Let_def zero_slots_def)
  qed
  finally show ?thesis .
qed

lemma vread8_fields [simp]:
  "vread8 v (s\<lparr>heap := h\<rparr>) = vread8 v s" "vread8 v (s\<lparr>allocator := a\<rparr>) = vread8 v s"
  "vread8 v (s\<lparr>mem_lock := k\<rparr>) = vread8 v s" "vread8 v (s\<lparr>stats := n\<rparr>) = vread8 v s"
  by (simp_all add: vread8_def cong: option.case_cong)

lemma grow_heap_vread8:
  assumes ok: "kmem_ok s" and room: "heap s < HEAP_LIMIT" and two: "2 \<le> card (frames s)" and v: "v \<in> heap_region s"
  shows "vread8 v (grow_heap s) = vread8 v s"
proof -
  obtain p where p: "mmu_translate v s = Some p" "private_at p s"
    using ok v unfolding kmem_ok_def heap_mapped_def by blast
  have "v < heap s" using v by (simp add: heap_region_def)
  then have "v < HEAP_LIMIT" "\<not> heap s \<le> v" using room by auto
  then have "mmu_translate v (grow_heap s) = Some p" using grow_heap_translate [OF ok room two, of v] p(1) by simp
  moreover have "phys_mem (grow_heap s) (p AND 0xFFFFFFFC) = phys_mem s (p AND 0xFFFFFFFC)"
    using map_page_keeps [OF reserve_map_ready [OF ok two] heap_dir_index [OF room] private_reserve [OF p(2)] frame_of_word]
    by (simp add: grow_heap_def Let_def)
  ultimately show ?thesis using p(1) by (simp add: vread8_def)
qed

lemma grow_heap_frames:
  assumes ok: "kmem_ok s" and two: "2 \<le> card (frames s)"
  shows "card (frames s) \<le> card (frames (grow_heap s)) + 2" "frames (grow_heap s) \<subseteq> frames s"
proof -
  have m: "Min (frames s) < PAGES" using two_frames [OF two] by simp
  have "\<exists>X. card X \<le> 1 \<and> finite X \<and> frames (grow_heap s) = frames s - {Min (frames s)} - X"
    using frames_map_page [OF reserve_map_ready [OF ok two]] m
    by (auto simp: grow_heap_def Let_def intro: exI [of _ "{}"] exI [of _ "{Min (frames s - {Min (frames s)})}"])
  then obtain X where X: "card X \<le> 1" "finite X" "frames (grow_heap s) = frames s - {Min (frames s)} - X" by blast
  then show "frames (grow_heap s) \<subseteq> frames s" by blast
  show "card (frames s) \<le> card (frames (grow_heap s)) + 2"
    using X diff_card_le_card_Diff [OF X(2), of "frames s - {Min (frames s)}"]
      diff_card_le_card_Diff [of "{Min (frames s)}" "frames s"] by simp
qed

lemma frame_of_frame_slot:
  "p < PAGES \<Longrightarrow> frame_of (frame_addr p + (v AND 0xFFF)) = p"
proof -
  assume p: "p < PAGES"
  then have u: "unat (frame_addr p) = 4096 * p" by (simp add: frame_addr_def unat_of_nat unat_word_ariths)
  have off: "unat (v AND 0xFFF) < 4096" by (simp add: unat_page_offset)
  show ?thesis using unat_page_slot [OF frame_addr_aligned off, of p] u off by (simp add: frame_of_def)
qed

lemma same_offset: "v AND 0xFFFFF000 = w AND 0xFFFFF000 \<Longrightarrow> v AND 0xFFF = w AND 0xFFF \<Longrightarrow> v = (w :: uint32)"
  unfolding word_unat_eq_iff [of v w] word_unat_eq_iff [of "v AND _" "w AND _"] unat_page_base unat_page_offset
  by (metis mult_div_mod_eq)

lemma heap_region_grow:
  assumes "kmem_ok s" "heap s < HEAP_LIMIT"
  shows "heap_region (grow_heap s) = heap_region s \<union> {v. heap s \<le> v \<and> v < heap s + PAGE_SIZE}"
    and "v \<in> heap_region (grow_heap s) \<Longrightarrow> v < HEAP_LIMIT"
  using assms heap_page_iff(2,3) [of "heap s"]
  by (auto simp: heap_region_def kmem_ok_def word_less_nat_alt word_le_nat_alt)

lemma heap_mapped_grow:
  assumes ok: "kmem_ok s" and room: "heap s < HEAP_LIMIT" and two: "2 \<le> card (frames s)"
  shows "heap_mapped (grow_heap s)"
proof -
  let ?new = "{v. heap s \<le> v \<and> v < heap s + PAGE_SIZE}" and ?f = "frame_addr (Min (frames s))"
  have hm: "heap_mapped s" and al: "page_aligned (heap s)" using ok by (simp_all add: kmem_ok_def)
  note reg = heap_region_grow [OF ok room] and tr = grow_heap_translate [OF ok room two]
    and m = two_frames [OF two] and pg = heap_page_iff [OF al room] and priv = grow_heap_private [OF ok room two]
  have old: "mmu_translate v (grow_heap s) = mmu_translate v s" if "v \<in> heap_region s" for v
  proof -
    have "v \<in> heap_region (grow_heap s)" using that reg(1) by simp
    then have "v < HEAP_LIMIT" by (rule reg(2))
    moreover have "\<not> heap s \<le> v" using that by (simp add: heap_region_def not_le)
    moreover note tr [of v]
    ultimately show ?thesis by simp
  qed
  have new: "mmu_translate v (grow_heap s) = Some (?f + (v AND 0xFFF))" if "v \<in> ?new" for v
    using that tr [of v] reg(2) [of v] reg(1) by simp
  have fr: "frame_of (?f + (v AND 0xFFF)) = Min (frames s)" for v using m frame_of_frame_slot by blast
  have apart: "mmu_translate v (grow_heap s) \<noteq> mmu_translate w (grow_heap s)"
    if "v \<in> heap_region s" "w \<in> ?new" for v w
    using hm that old [OF that(1)] new [OF that(2)] fr [of w] m unfolding heap_mapped_def private_at_def by fastforce
  have inj: "v = w" if "v \<in> ?new" "w \<in> ?new" "mmu_translate v (grow_heap s) = mmu_translate w (grow_heap s)" for v w
  proof (rule same_offset)
    show "v AND 0xFFFFF000 = w AND 0xFFFFF000" using that(1,2) pg(1) [of v] pg(1) [of w] by simp
    show "v AND 0xFFF = w AND 0xFFF" using that(3) new [OF that(1)] new [OF that(2)] by simp
  qed
  have "\<exists>p. mmu_translate v (grow_heap s) = Some p \<and> private_at p (grow_heap s)"
    if "v \<in> heap_region (grow_heap s)" for v
  proof (cases "v \<in> heap_region s")
    case True
    then obtain p where "mmu_translate v s = Some p" "private_at p s" using hm unfolding heap_mapped_def by blast
    then show ?thesis using old [OF True] priv(1) by simp
  next
    case False
    then have "v \<in> ?new" using that reg(1) by blast
    then show ?thesis using new [of v] priv(2) [OF fr [of v]] by simp
  qed
  moreover have "v = w" if "v \<in> heap_region (grow_heap s)" "w \<in> heap_region (grow_heap s)"
      "mmu_translate v (grow_heap s) = mmu_translate w (grow_heap s)" for v w
  proof -
    have "v \<in> heap_region s \<or> v \<in> ?new" "w \<in> heap_region s \<or> w \<in> ?new" using that(1,2) unfolding reg(1) by auto
    then consider "v \<in> heap_region s" "w \<in> heap_region s" | "v \<in> heap_region s" "w \<in> ?new"
      | "v \<in> ?new" "w \<in> heap_region s" | "v \<in> ?new" "w \<in> ?new" by blast
    then show ?thesis
    proof cases
      case 1
      then show ?thesis using hm that(3) old unfolding heap_mapped_def by metis
    next
      case 2
      then show ?thesis using apart that(3) by blast
    next
      case 3
      then show ?thesis using apart [of w v] that(3) by simp
    next
      case 4
      then show ?thesis using inj that(3) by blast
    qed
  qed
  moreover have "mmu_translate v (grow_heap s) = None" if "heap s + PAGE_SIZE \<le> v" "v < HEAP_LIMIT" for v
  proof -
    have "heap s \<le> v" using that(1) pg(2) by (simp add: word_le_nat_alt)
    then show ?thesis using that hm tr [OF that(2)] by (simp add: heap_mapped_def)
  qed
  ultimately show ?thesis unfolding heap_mapped_def by simp
qed

lemma kmem_ok_grow:
  assumes ok: "kmem_ok s" and room: "heap s < HEAP_LIMIT" and two: "2 \<le> card (frames s)"
  shows "kmem_ok (grow_heap s)"
proof -
  have al: "page_aligned (heap s)" using ok by (simp add: kmem_ok_def)
  note pg = heap_page_iff [OF al room]
  have "dir_ok (grow_heap s)"
    using map_page_ok [OF reserve_map_ready [OF ok two] heap_dir_index [OF room]] by (simp add: grow_heap_def Let_def)
  moreover have "palloc_ready (grow_heap s)" using ok by (simp add: grow_heap_def Let_def kmem_ok_def)
  moreover have "HEAP_START \<le> heap s + PAGE_SIZE"
    using ok pg(2) by (simp add: kmem_ok_def word_le_nat_alt)
  moreover have "bytes (free_blocks (allocator s)) \<subseteq> unat ` heap_region (grow_heap s)"
    using ok heap_region_grow(1) [OF ok room] by (auto simp: kmem_ok_def)
  ultimately show ?thesis
    using ok pg heap_mapped_grow [OF assms] by (simp add: kmem_ok_def)
qed

section \<open>Allocation\<close>

lemma kmem_ok_allocator:
  "kmem_ok s \<Longrightarrow> heap_ok a \<Longrightarrow> bytes (free_blocks a) \<subseteq> unat ` heap_region s \<Longrightarrow> kmem_ok (s\<lparr>allocator := a\<rparr>)"
  by (simp add: kmem_ok_def heap_mapped_def heap_region_def)

lemma mem_alloc_Suc:
  "mem_alloc (Suc fuel) sz s =
   bindE (if alloc_level 1 (list_size 1) sz = NODES then Inr (0, allocator s)
          else list_get (alloc_level 1 (list_size 1) sz) (allocator s)) (\<lambda>(r, a).
     if r \<noteq> 0 then Inr (r, s\<lparr>allocator := a\<rparr>)
     else bindE (kbrk 1 (s\<lparr>allocator := a\<rparr>)) (\<lambda>(addr, s).
       bindE (add_block 9 addr (allocator s)) (\<lambda>a. mem_alloc fuel sz (s\<lparr>allocator := a\<rparr>))))"
  by (simp add: Let_def add_block_def bindE_assoc case_prod_unfold cong: if_cong)

declare mem_alloc.simps(2) [simp del]

text \<open>
  The contract of \<open>mem_alloc\<close>: the block it returns was free or is new, nothing else changes in
  the set of free bytes, the contents of the heap stay, and the heap grows by at most \<open>k\<close> pages.
\<close>

definition new_bytes :: "'a kmem_scheme \<Rightarrow> 'a kmem_scheme \<Rightarrow> nat set" where
  "new_bytes s s' = {unat (heap s) ..< unat (heap s')}"

definition alloc_post :: "nat \<Rightarrow> nat \<Rightarrow> 'a kmem_scheme \<Rightarrow> (ptr \<times> 'a kmem_scheme) res \<Rightarrow> bool" where
  "alloc_post l k s r \<longleftrightarrow>
     (\<exists>p s'. r = Inr (p, s') \<and> kmem_ok s' \<and> p \<noteq> 0 \<and> block_fits (l, unat p) \<and>
        block (l, unat p) \<subseteq> bytes (free_blocks (allocator s)) \<union> new_bytes s s' \<and>
        bytes (free_blocks (allocator s')) =
          bytes (free_blocks (allocator s)) \<union> new_bytes s s' - block (l, unat p) \<and>
        (\<forall>v\<in>heap_region s. vread8 v s' = vread8 v s) \<and>
        unat (heap s') \<le> unat (heap s) + 4096 * k \<and> card (frames s) \<le> card (frames s') + 2 * k \<and>
        free_nodes (allocator s) \<le> free_nodes (allocator s') + (14 + k) \<and>
        heap s \<le> heap s' \<and> mem_lock s' = mem_lock s \<and> stats s' = stats s)"

lemma alloc_found:
  assumes ok: "kmem_ok s" and lev: "alloc_level 1 (list_size 1) sz = l" "1 \<le> l" "l \<le> 15"
    and nodes: "15 \<le> free_nodes (allocator s)" and ex: "\<exists>b\<in>free_blocks (allocator s). l \<le> fst b"
  shows "alloc_post l k s (mem_alloc (Suc fuel) sz s)"
proof -
  have h: "heap_ok (allocator s)" using ok by (simp add: kmem_ok_def)
  have some: "\<not> (\<forall>b\<in>free_blocks (allocator s). fst b < l)" using ex by (auto simp: not_less)
  have "15 - l \<le> free_nodes (allocator s) + 1" using nodes by simp
  from list_get_block [OF h lev(2) this] obtain r a' where r: "list_get l (allocator s) = Inr (r, a')" "heap_ok a'" "r \<noteq> 0" "block_fits (l, unat r)"
      "block (l, unat r) \<subseteq> bytes (free_blocks (allocator s))"
      "bytes (free_blocks a') = bytes (free_blocks (allocator s)) - block (l, unat r)"
      "free_nodes (allocator s) + 1 \<le> free_nodes a' + (15 - l)"
    unfolding if_not_P [OF some] by blast
  have "kmem_ok (s\<lparr>allocator := a'\<rparr>)" using ok r(2,6) by (intro kmem_ok_allocator) (auto simp: kmem_ok_def)
  then show ?thesis using r lev by (auto simp: alloc_post_def mem_alloc_Suc new_bytes_def)
qed

lemma heap_page_block:
  assumes "kmem_ok s" "heap s < HEAP_LIMIT"
  shows "block_fits (9, unat (heap s))" "block (9, unat (heap s)) \<inter> bytes (free_blocks (allocator s)) = {}"
    "block (9, unat (heap s)) = unat ` {v. heap s \<le> v \<and> v < heap s + PAGE_SIZE}"
    "block (9, unat (heap s)) = {unat (heap s) ..< unat (heap s + PAGE_SIZE)}"
proof -
  have al: "page_aligned (heap s)" using assms(1) by (simp add: kmem_ok_def)
  note pg = heap_page_iff [OF al assms(2)]
  have b: "block (9, unat (heap s)) = {unat (heap s) ..< unat (heap s) + 4096}" by (simp add: block_def bsize_def)
  then show "block (9, unat (heap s)) = {unat (heap s) ..< unat (heap s + PAGE_SIZE)}" using pg(2) by simp
  show "block_fits (9, unat (heap s))"
    using assms al by (simp add: block_fits_def bsize_def kmem_ok_def page_aligned_def dvd_eq_mod_eq_0
        word_less_nat_alt word_le_nat_alt)
  show "block (9, unat (heap s)) \<inter> bytes (free_blocks (allocator s)) = {}"
    using assms(1) b by (auto simp: kmem_ok_def heap_region_def word_less_nat_alt)
  show "block (9, unat (heap s)) = unat ` {v. heap s \<le> v \<and> v < heap s + PAGE_SIZE}" (is "_ = unat ` ?P")
  proof (intro equalityI subsetI)
    fix n assume n: "n \<in> block (9, unat (heap s))"
    then have "n < 2 ^ 32" using b assms(2) by (simp add: word_less_nat_alt)
    then have "n = unat (of_nat n :: uint32)" by (simp add: unat_of_nat)
    moreover from this have "of_nat n \<in> ?P" using n b pg(2) by (simp add: word_less_nat_alt word_le_nat_alt)
    ultimately show "n \<in> unat ` ?P" by blast
  qed (use b pg(2) in \<open>auto simp: word_less_nat_alt word_le_nat_alt\<close>)
qed

text \<open>Adding one page: the heap grows and the page becomes a free block of list 9.\<close>

lemma add_page:
  assumes ok: "kmem_ok s" and room: "heap s < HEAP_LIMIT" and two: "2 \<le> card (frames s)"
    and node: "0 < free_nodes (allocator s)"
  shows "\<exists>s'. bindE (kbrk 1 s) (\<lambda>(addr, s). bindE (add_block 9 addr (allocator s)) (\<lambda>a. g (s\<lparr>allocator := a\<rparr>))) = g s' \<and>
    kmem_ok s' \<and> heap s' = heap s + PAGE_SIZE \<and> mem_lock s' = mem_lock s \<and> stats s' = stats s \<and>
    (\<forall>v\<in>heap_region s. vread8 v s' = vread8 v s) \<and>
    bytes (free_blocks (allocator s')) = bytes (free_blocks (allocator s)) \<union> block (9, unat (heap s)) \<and>
    card (frames s) \<le> card (frames s') + 2 \<and> free_nodes (allocator s) \<le> free_nodes (allocator s') + 1"
proof -
  note pb = heap_page_block [OF ok room]
  have h: "heap_ok (allocator s)" using ok by (simp add: kmem_ok_def)
  obtain a where a: "add_block 9 (heap s) (allocator s) = Inr a" "heap_ok a"
      "bytes (free_blocks a) = block (9, unat (heap s)) \<union> bytes (free_blocks (allocator s))"
      "free_nodes (allocator s) \<le> free_nodes a + 1"
    using add_block_ok [OF h pb(1,2) node] by blast
  have reg: "heap_region (grow_heap s) = heap_region s \<union> {v. heap s \<le> v \<and> v < heap s + PAGE_SIZE}"
    using ok room by (rule heap_region_grow)
  have "kmem_ok ((grow_heap s)\<lparr>allocator := a\<rparr>)"
    using ok a(2,3) pb(3) unfolding kmem_ok_def [of s]
    by (intro kmem_ok_allocator kmem_ok_grow [OF ok room two]) (auto simp: reg)
  then show ?thesis
    using a kbrk_eq [OF ok room two] grow_heap_frames [OF ok two] grow_heap_vread8 [OF ok room two]
    by (intro exI [of _ "(grow_heap s)\<lparr>allocator := a\<rparr>"]) auto
qed

text \<open>
  \<open>mem_alloc\<close> adds pages until an aligned run of \<open>bsize l\<close> bytes behind the old end of the heap
  is complete; by coalescing, that run is then one free block, if no block was found earlier.
\<close>

lemma alloc_post_after_page:
  assumes post: "alloc_post l k s1 r" and grow: "heap s1 = heap s + PAGE_SIZE" "heap s < HEAP_LIMIT" "kmem_ok s"
    and keep: "mem_lock s1 = mem_lock s" "stats s1 = stats s" "\<forall>v\<in>heap_region s. vread8 v s1 = vread8 v s"
    and more: "bytes (free_blocks (allocator s1)) = bytes (free_blocks (allocator s)) \<union> block (9, unat (heap s))"
    and used: "card (frames s) \<le> card (frames s1) + 2" "free_nodes (allocator s) \<le> free_nodes (allocator s1) + 1"
  shows "alloc_post l (Suc k) s r"
proof -
  obtain p s' where r: "r = Inr (p, s')" "kmem_ok s'" "p \<noteq> 0" "block_fits (l, unat p)"
      "block (l, unat p) \<subseteq> bytes (free_blocks (allocator s1)) \<union> new_bytes s1 s'"
      "bytes (free_blocks (allocator s')) = bytes (free_blocks (allocator s1)) \<union> new_bytes s1 s' - block (l, unat p)"
      "heap s1 \<le> heap s'" "mem_lock s' = mem_lock s1" "stats s' = stats s1"
      "\<forall>v\<in>heap_region s1. vread8 v s' = vread8 v s1"
      "unat (heap s') \<le> unat (heap s1) + 4096 * k" "card (frames s1) \<le> card (frames s') + 2 * k"
      "free_nodes (allocator s1) \<le> free_nodes (allocator s') + (14 + k)"
    using post unfolding alloc_post_def by blast
  have al: "page_aligned (heap s)" using grow(3) by (simp add: kmem_ok_def)
  have u: "unat (heap s1) = unat (heap s) + 4096" using heap_page_iff(2) [OF al grow(2)] grow(1) by simp
  have le: "heap s \<le> heap s'" using r(7) u by (simp add: word_le_nat_alt)
  have "block (9, unat (heap s)) \<union> new_bytes s1 s' = new_bytes s s'"
    unfolding new_bytes_def heap_page_block(4) [OF grow(3,2), folded grow(1)]
    using r(7) u by (intro ivl_disj_un_two(3)) (simp_all add: word_le_nat_alt)
  then have eq: "bytes (free_blocks (allocator s1)) \<union> new_bytes s1 s' = bytes (free_blocks (allocator s)) \<union> new_bytes s s'"
    by (simp add: more Un_assoc)
  have "heap_region s \<subseteq> heap_region s1" using u by (auto simp: heap_region_def word_less_nat_alt)
  then have kept: "\<forall>v\<in>heap_region s. vread8 v s' = vread8 v s" using r(10) keep(3) by auto
  show ?thesis unfolding alloc_post_def
    using r(1-4) r(5,6) [unfolded eq] le r(8,9,11-13) keep kept used u by (intro exI [of _ p] exI [of _ s']) simp
qed

lemma mem_alloc_pages:
  assumes "kmem_ok s" "alloc_level 1 (list_size 1) sz = l" "1 \<le> l" "l \<le> 15"
    and "bsize l dvd T" "bsize l \<le> T" "T = unat (heap s) + 4096 * k" "T \<le> unat HEAP_LIMIT"
    and "{T - bsize l ..< unat (heap s)} \<subseteq> bytes (free_blocks (allocator s))"
    and "2 * k \<le> card (frames s)" "15 + k \<le> free_nodes (allocator s)"
  shows "alloc_post l k s (mem_alloc (Suc k) sz s)"
  using assms
proof (induction k arbitrary: s)
  case 0
  have "block (l, T - bsize l) \<subseteq> bytes (free_blocks (allocator s))" using 0 by (simp add: block_def)
  moreover have "blocks_ok (free_blocks (allocator s))" "all_coalesced (free_blocks (allocator s))"
    using 0(1) heap_okD [of "allocator s"] by (simp_all add: kmem_ok_def free_blocks_def)
  ultimately have "\<exists>b\<in>free_blocks (allocator s). l \<le> fst b"
    using 0 by (intro covered_block [of _ l "T - bsize l"]) auto
  then show ?case using 0 by (intro alloc_found) auto
next
  case (Suc k)
  show ?case
  proof (cases "\<exists>b\<in>free_blocks (allocator s). l \<le> fst b")
    case True
    then show ?thesis using Suc.prems by (intro alloc_found) auto
  next
    case False
    then have none: "\<forall>b\<in>free_blocks (allocator s). fst b < l" by (auto simp: not_le)
    have ok: "kmem_ok s" "heap_ok (allocator s)" using Suc.prems(1) by (simp_all add: kmem_ok_def)
    have "15 - l \<le> free_nodes (allocator s) + 1" using Suc.prems(11) by simp
    from list_get_block [OF ok(2) Suc.prems(3) this] have get: "list_get l (allocator s) = Inr (0, allocator s)"
      unfolding if_P [OF none] by auto
    have room: "heap s < HEAP_LIMIT" using Suc.prems(7,8) by (simp add: word_less_nat_alt)
    have two: "2 \<le> card (frames s)" and node: "0 < free_nodes (allocator s)" using Suc.prems(10,11) by simp_all
    obtain s1 where s1: "bindE (kbrk 1 s) (\<lambda>(addr, s). bindE (add_block 9 addr (allocator s))
          (\<lambda>a. mem_alloc (Suc k) sz (s\<lparr>allocator := a\<rparr>))) = mem_alloc (Suc k) sz s1"
        "kmem_ok s1" "heap s1 = heap s + PAGE_SIZE" "mem_lock s1 = mem_lock s" "stats s1 = stats s"
        "\<forall>v\<in>heap_region s. vread8 v s1 = vread8 v s"
        "bytes (free_blocks (allocator s1)) = bytes (free_blocks (allocator s)) \<union> block (9, unat (heap s))"
        "card (frames s) \<le> card (frames s1) + 2" "free_nodes (allocator s) \<le> free_nodes (allocator s1) + 1"
      using add_page [OF ok(1) room two node, of "mem_alloc (Suc k) sz"] by blast
    have al: "page_aligned (heap s)" using ok(1) by (simp add: kmem_ok_def)
    have u: "unat (heap s1) = unat (heap s) + 4096" using heap_page_iff(2) [OF al room] s1(3) by simp
    have "alloc_post l k s1 (mem_alloc (Suc k) sz s1)"
      by (rule Suc.IH [OF s1(2)]) (use Suc.prems s1(7-9) u in \<open>auto simp: block_def bsize_def\<close>)
    from alloc_post_after_page [OF this s1(3) room ok(1) s1(4-9)]
    have "alloc_post l (Suc k) s (mem_alloc (Suc k) sz s1)" .
    moreover have "mem_alloc (Suc (Suc k)) sz s = mem_alloc (Suc k) sz s1"
      using Suc.prems(2-4) get s1(1) by (simp add: mem_alloc_Suc [of "Suc k"])
    ultimately show ?thesis by simp
  qed
qed

lemma mem_alloc_mono: "mem_alloc f sz s = Inr r \<Longrightarrow> f \<le> g \<Longrightarrow> mem_alloc g sz s = Inr r"
proof (induction f arbitrary: s g)
  case (Suc f)
  then obtain h where h: "g = Suc h" "f \<le> h" by (cases g) auto
  show ?case
    using Suc.prems(1) Suc.IH [OF _ h(2)] unfolding h(1) mem_alloc_Suc
    by (auto simp: bindE_eq_Inr split: if_splits prod.splits)
qed simp

text \<open>The number of pages behind the end of the heap that surely hold an aligned block of list \<open>l\<close>.\<close>

definition alloc_pages :: "nat \<Rightarrow> nat" where
  "alloc_pages l = (if l \<le> 9 then 1 else 2 ^ (l - 8))"

lemma bsize_pages: "9 \<le> l \<Longrightarrow> bsize l = 4096 * 2 ^ (l - 9)"
proof -
  assume "9 \<le> l"
  then have "bsize l = 2 ^ (12 + (l - 9))" by (simp add: bsize_def)
  then show ?thesis by (simp only: power_add) simp
qed

lemma next_boundary:
  assumes "page_aligned h" "unat h + 4096 * alloc_pages l \<le> unat HEAP_LIMIT" "l \<le> 15"
  obtains k T where "k \<le> alloc_pages l" "T = unat h + 4096 * k" "bsize l dvd T" "bsize l \<le> T"
    "T \<le> unat HEAP_LIMIT" "unat h \<le> T - bsize l"
proof -
  obtain q where q: "unat h = 4096 * q" using assms(1) by (auto simp: page_aligned_def dvd_eq_mod_eq_0 [symmetric])
  show thesis
  proof (cases "l \<le> 9")
    case True
    then have "bsize l dvd 4096" "bsize l \<le> 4096"
      using le_imp_power_dvd [of "l + 3" 12 "2::nat"] power_increasing [of "l + 3" 12 "2::nat"] by (simp_all add: bsize_def)
    then show thesis using that [of 1 "unat h + 4096"] True q assms(2) by (auto simp: alloc_pages_def dvd_add)
  next
    case False
    define n :: nat where "n = 2 ^ (l - 9)"
    define c where "c = (q + n - 1) div n"
    have n: "0 < n" "bsize l = 4096 * n" "alloc_pages l = 2 * n"
      using False bsize_pages [of l] power_Suc [of "2::nat" "l - 9"] Suc_diff_le [of 9 l]
      by (simp_all add: n_def alloc_pages_def)
    have c: "q \<le> n * c" "n * c < q + n"
      using n(1) mult_div_mod_eq [of n "q + n - 1"] mod_less_divisor [OF n(1), of "q + n - 1"] unfolding c_def by linarith+
    define k where "k = n * c + n - q"
    have k: "q + k = n * c + n" "k \<le> 2 * n" using c by (simp_all add: k_def)
    have T: "unat h + 4096 * k = bsize l * c + bsize l" using q k(1) n(2) by (simp add: algebra_simps)
    show thesis
      by (rule that [of k "bsize l * c + bsize l"])
         (use T k c n q assms(2) in \<open>auto simp: distrib_left\<close>)
  qed
qed

lemma alloc_post_mono:
  assumes "alloc_post l k s r" "k \<le> n"
  shows "alloc_post l n s r"
proof -
  have m: "4096 * k \<le> 4096 * n" "2 * k \<le> 2 * n" "14 + k \<le> 14 + n" using assms(2) by simp_all
  show ?thesis using assms(1) unfolding alloc_post_def
  proof (elim exE conjE)
    fix p s' assume "r = Inr (p, s')" "kmem_ok s'" "p \<noteq> 0" "block_fits (l, unat p)"
      "block (l, unat p) \<subseteq> bytes (free_blocks (allocator s)) \<union> new_bytes s s'"
      "bytes (free_blocks (allocator s')) = bytes (free_blocks (allocator s)) \<union> new_bytes s s' - block (l, unat p)"
      "\<forall>v\<in>heap_region s. vread8 v s' = vread8 v s" "unat (heap s') \<le> unat (heap s) + 4096 * k"
      "card (frames s) \<le> card (frames s') + 2 * k" "free_nodes (allocator s) \<le> free_nodes (allocator s') + (14 + k)"
      "heap s \<le> heap s'" "mem_lock s' = mem_lock s" "stats s' = stats s"
    then show "\<exists>p s'. r = Inr (p, s') \<and> kmem_ok s' \<and> p \<noteq> 0 \<and> block_fits (l, unat p) \<and>
        block (l, unat p) \<subseteq> bytes (free_blocks (allocator s)) \<union> new_bytes s s' \<and>
        bytes (free_blocks (allocator s')) = bytes (free_blocks (allocator s)) \<union> new_bytes s s' - block (l, unat p) \<and>
        (\<forall>v\<in>heap_region s. vread8 v s' = vread8 v s) \<and>
        unat (heap s') \<le> unat (heap s) + 4096 * n \<and> card (frames s) \<le> card (frames s') + 2 * n \<and>
        free_nodes (allocator s) \<le> free_nodes (allocator s') + (14 + n) \<and>
        heap s \<le> heap s' \<and> mem_lock s' = mem_lock s \<and> stats s' = stats s"
      using m by (intro exI [of _ p] exI [of _ s']) simp
  qed
qed

lemma mem_alloc_ok:
  assumes ok: "kmem_ok s" and sz: "unat sz \<le> 2 ^ 18"
    and room: "unat (heap s) + 4096 * alloc_pages (level_of (unat sz)) \<le> unat HEAP_LIMIT"
    and frames: "2 * alloc_pages (level_of (unat sz)) \<le> card (frames s)"
    and nodes: "15 + alloc_pages (level_of (unat sz)) \<le> free_nodes (allocator s)"
    and fuel: "alloc_pages (level_of (unat sz)) < fuel"
  shows "alloc_post (level_of (unat sz)) (alloc_pages (level_of (unat sz))) s (mem_alloc fuel sz s)"
proof -
  let ?l = "level_of (unat sz)"
  have lev: "alloc_level 1 (list_size 1) sz = ?l" using sz by (intro alloc_level_eq) simp
  have l: "1 \<le> ?l" "?l \<le> 15" using sz level_of_props(1) [of "unat sz"] level_of_le [of 15 "unat sz"] by (simp_all add: bsize_def)
  have al: "page_aligned (heap s)" using ok by (simp add: kmem_ok_def)
  obtain k T where k: "k \<le> alloc_pages ?l" "T = unat (heap s) + 4096 * k" "bsize ?l dvd T" "bsize ?l \<le> T"
      "T \<le> unat HEAP_LIMIT" "unat (heap s) \<le> T - bsize ?l"
    using next_boundary [OF al room l(2)] by blast
  have "alloc_post ?l k s (mem_alloc (Suc k) sz s)"
    by (rule mem_alloc_pages [where T = T]) (use ok lev l k frames nodes in auto)
  then have "alloc_post ?l (alloc_pages ?l) s (mem_alloc (Suc k) sz s)" using k(1) by (rule alloc_post_mono)
  then show ?thesis using mem_alloc_mono [of "Suc k" sz s _ fuel] k(1) fuel unfolding alloc_post_def by fastforce
qed

section \<open>Clearing a block\<close>

lemma word_split: "(p :: uint32) AND 0xFFFFFFFC = q AND 0xFFFFFFFC \<Longrightarrow> p AND 3 = q AND 3 \<Longrightarrow> p = q"
proof -
  have "(p AND 0xFFFFFFFC) OR (p AND 3) = p" for p :: uint32
  proof -
    have "(p AND 0xFFFFFFFC) OR (p AND 3) = p AND (0xFFFFFFFC OR 3)" by (simp only: bit.conj_disj_distrib)
    also have "(0xFFFFFFFC OR 3 :: uint32) = - 1" by simp
    finally show ?thesis by (simp only: bit.conj_one_right)
  qed
  then show "p AND 0xFFFFFFFC = q AND 0xFFFFFFFC \<Longrightarrow> p AND 3 = q AND 3 \<Longrightarrow> p = q" by metis
qed

lemma unat_and_3: "unat ((p :: uint32) AND 3) < 4"
proof -
  have "(3 :: uint32) = mask 2" by (simp add: mask_eq_exp_minus_1)
  then have "p AND 3 = take_bit 2 p" by (simp only: take_bit_eq_mask)
  then show ?thesis by (simp add: take_bit_eq_mod unat_mod)
qed

lemma kmem_ok_write_private:
  assumes ok: "kmem_ok s" and p: "private_at p s" "frame_of a = frame_of p"
  shows "kmem_ok (s\<lparr>phys_mem := (phys_mem s)(a := x)\<rparr>)"
proof -
  let ?s = "s\<lparr>phys_mem := (phys_mem s)(a := x)\<rparr>"
  have reg: "heap_region ?s = heap_region s" by (simp add: heap_region_def)
  have lim: "v < HEAP_LIMIT" if "v \<in> heap_region s" for v using ok that by (auto simp: kmem_ok_def heap_region_def)
  have tr: "mmu_translate v ?s = mmu_translate v s" if "v < HEAP_LIMIT" for v
    using translate_write_private [OF p heap_dir_index [OF that]] .
  have "heap_mapped ?s"
    using ok tr lim private_write_private [OF p] by (simp add: kmem_ok_def heap_mapped_def reg)
  then show ?thesis using ok dir_ok_write_private [OF p] by (simp add: kmem_ok_def reg)
qed

text \<open>A byte written to a page that is neither free nor a page table changes that byte only.\<close>

lemma vwrite8_private:
  assumes ok: "kmem_ok s" and p: "mmu_translate v s = Some p" "private_at p s"
  shows "\<exists>m. vwrite8 v x s = Inr (s\<lparr>phys_mem := m\<rparr>) \<and> kmem_ok (s\<lparr>phys_mem := m\<rparr>) \<and>
    (\<forall>q. private_at q (s\<lparr>phys_mem := m\<rparr>) = private_at q s) \<and>
    (\<forall>w. w < HEAP_LIMIT \<longrightarrow> mmu_translate w (s\<lparr>phys_mem := m\<rparr>) = mmu_translate w s) \<and>
    (\<forall>w q. w < HEAP_LIMIT \<longrightarrow> mmu_translate w s = Some q \<longrightarrow> vread8 w (s\<lparr>phys_mem := m\<rparr>) = (if q = p then Inr x else vread8 w s))"
proof -
  let ?a = "p AND 0xFFFFFFFC"
  let ?m = "(phys_mem s)(?a := set_byte (unat (p AND 3)) x (phys_mem s ?a))"
  let ?s = "s\<lparr>phys_mem := ?m\<rparr>"
  note fr = frame_of_word [of p]
  have tr: "mmu_translate w ?s = mmu_translate w s" if "w < HEAP_LIMIT" for w
    using that by (intro translate_write_private [OF p(2) fr] heap_dir_index)
  have "vread8 w ?s = (if q = p then Inr x else vread8 w s)" if w: "w < HEAP_LIMIT" "mmu_translate w s = Some q" for w q
  proof -
    have "unat (q AND 3) \<noteq> unat (p AND 3)" if "q \<noteq> p" "q AND 0xFFFFFFFC = ?a"
      using that word_split [of p q] by (auto simp: word_unat_eq_iff [of "_ AND 3" "_ AND 3"])
    then have "get_byte (unat (q AND 3)) (?m (q AND 0xFFFFFFFC)) = get_byte (unat (q AND 3)) (phys_mem s (q AND 0xFFFFFFFC))"
      if "q \<noteq> p" using that unat_and_3 by (auto simp: get_set_byte_other)
    note other = this
    have "get_byte (unat (p AND 3)) (?m ?a) = x" using unat_and_3 by simp
    then show ?thesis using w tr [OF w(1)] other by (cases "q = p") (simp_all add: vread8_def)
  qed
  moreover have "vwrite8 v x s = Inr ?s" using p(1) by (simp add: vwrite8_def Let_def)
  ultimately show ?thesis using kmem_ok_write_private [OF ok p(2) fr] private_write_private [OF p(2) fr] tr by blast
qed

lemma vwrite8_heap:
  assumes ok: "kmem_ok s" and v: "v \<in> heap_region s"
  shows "\<exists>m. vwrite8 v x s = Inr (s\<lparr>phys_mem := m\<rparr>) \<and> kmem_ok (s\<lparr>phys_mem := m\<rparr>) \<and>
    (\<forall>w\<in>heap_region s. vread8 w (s\<lparr>phys_mem := m\<rparr>) = (if w = v then Inr x else vread8 w s))"
proof -
  have hm: "heap_mapped s" using ok by (simp add: kmem_ok_def)
  obtain p where p: "mmu_translate v s = Some p" "private_at p s" using hm v unfolding heap_mapped_def by blast
  obtain m where m: "vwrite8 v x s = Inr (s\<lparr>phys_mem := m\<rparr>)" "kmem_ok (s\<lparr>phys_mem := m\<rparr>)"
      "\<And>w q. w < HEAP_LIMIT \<Longrightarrow> mmu_translate w s = Some q \<Longrightarrow> vread8 w (s\<lparr>phys_mem := m\<rparr>) = (if q = p then Inr x else vread8 w s)"
    using vwrite8_private [OF ok p] by blast
  have "vread8 w (s\<lparr>phys_mem := m\<rparr>) = (if w = v then Inr x else vread8 w s)" if w: "w \<in> heap_region s" for w
  proof -
    obtain q where q: "mmu_translate w s = Some q" using hm w unfolding heap_mapped_def by blast
    have "q = p \<longleftrightarrow> w = v" using hm v w p(1) q unfolding heap_mapped_def by (metis option.inject)
    moreover have "w < HEAP_LIMIT" using ok w by (auto simp: kmem_ok_def heap_region_def)
    ultimately show ?thesis using m(3) [OF _ q] by simp
  qed
  then show ?thesis using m(1,2) by blast
qed

lemma kmemset_heap:
  assumes "kmem_ok s" "HEAP_START \<le> p" "unat p + n \<le> unat (heap s)"
  shows "\<exists>m. kmemset n p x s = Inr (s\<lparr>phys_mem := m\<rparr>) \<and> kmem_ok (s\<lparr>phys_mem := m\<rparr>) \<and>
    (\<forall>w\<in>heap_region s. vread8 w (s\<lparr>phys_mem := m\<rparr>) =
       (if unat p \<le> unat w \<and> unat w < unat p + n then Inr x else vread8 w s))"
  using assms
proof (induction n arbitrary: p s)
  case 0
  then show ?case by (intro exI [of _ "phys_mem s"]) auto
next
  case (Suc n)
  have v: "p \<in> heap_region s" using Suc.prems by (simp add: heap_region_def word_less_nat_alt)
  have u: "unat (p + 1) = unat p + 1" using Suc.prems(3) unat32_less [of "heap s"] by (simp add: unat_word_ariths)
  obtain m where m: "vwrite8 p x s = Inr (s\<lparr>phys_mem := m\<rparr>)" "kmem_ok (s\<lparr>phys_mem := m\<rparr>)"
      "\<forall>w\<in>heap_region s. vread8 w (s\<lparr>phys_mem := m\<rparr>) = (if w = p then Inr x else vread8 w s)"
    using vwrite8_heap [OF Suc.prems(1) v] by blast
  have "HEAP_START \<le> p + 1" using Suc.prems(2) u by (simp add: word_le_nat_alt)
  then obtain m' where m': "kmemset n (p + 1) x (s\<lparr>phys_mem := m\<rparr>) = Inr (s\<lparr>phys_mem := m'\<rparr>)" "kmem_ok (s\<lparr>phys_mem := m'\<rparr>)"
      "\<forall>w\<in>heap_region s. vread8 w (s\<lparr>phys_mem := m'\<rparr>) =
       (if unat (p + 1) \<le> unat w \<and> unat w < unat (p + 1) + n then Inr x else vread8 w (s\<lparr>phys_mem := m\<rparr>))"
    using Suc.IH [OF m(2), of "p + 1"] Suc.prems(3) u by (auto simp: heap_region_def)
  have "vread8 w (s\<lparr>phys_mem := m'\<rparr>) = (if unat p \<le> unat w \<and> unat w < unat p + Suc n then Inr x else vread8 w s)"
    if "w \<in> heap_region s" for w
    using that m(3) m'(3) u by (auto simp: word_unat_eq_iff)
  then show ?case using m(1) m'(1,2) by (intro exI [of _ m']) simp
qed

section \<open>The interface of the heap\<close>

definition can_alloc :: "uint32 \<Rightarrow> 'a kmem_scheme \<Rightarrow> bool" where
  "can_alloc sz s \<longleftrightarrow>
     (let n = alloc_pages (level_of (unat sz)) in
      unat sz \<le> 2 ^ 18 \<and> unat (heap s) + 4096 * n \<le> unat HEAP_LIMIT \<and> 2 * n \<le> card (frames s) \<and>
      15 + n \<le> free_nodes (allocator s))"

lemma kmem_ok_fields [simp]:
  "kmem_ok (s\<lparr>mem_lock := k\<rparr>) = kmem_ok s" "kmem_ok (s\<lparr>stats := n\<rparr>) = kmem_ok s"
  by (simp_all add: kmem_ok_def heap_mapped_def heap_region_def)

lemma heap_region_fields [simp]:
  "heap_region (s\<lparr>mem_lock := k\<rparr>) = heap_region s" "heap_region (s\<lparr>stats := n\<rparr>) = heap_region s"
  "heap_region (s\<lparr>allocator := a\<rparr>) = heap_region s" "heap_region (s\<lparr>phys_mem := m\<rparr>) = heap_region s"
  by (simp_all add: heap_region_def)

lemma in_heap_bytes:
  assumes "block (l, unat p) \<subseteq> unat ` heap_region s" "n \<le> bsize l"
  shows "HEAP_START \<le> p" "unat p + n \<le> unat (heap s)"
proof -
  have "unat p + bsize l - 1 \<in> block (l, unat p)" using bsize_pos [of l]
    unfolding block_def atLeastLessThan_iff fst_conv snd_conv by linarith
  then have "unat p \<in> unat ` heap_region s" "unat p + bsize l - 1 \<in> unat ` heap_region s"
    using assms(1) by auto
  then show "HEAP_START \<le> p" "unat p + n \<le> unat (heap s)"
    using assms(2) by (auto simp: heap_region_def word_less_nat_alt word_le_nat_alt)
qed

lemma new_bytes_region:
  "kmem_ok s \<Longrightarrow> heap s \<le> heap s' \<Longrightarrow> unat ` heap_region s \<union> new_bytes s s' \<subseteq> unat ` heap_region s'"
proof
  fix n assume ok: "kmem_ok s" and le: "heap s \<le> heap s'" and n: "n \<in> unat ` heap_region s \<union> new_bytes s s'"
  have h: "unat HEAP_START \<le> unat (heap s)" using ok by (simp add: kmem_ok_def word_le_nat_alt)
  have "unat HEAP_START \<le> n" "n < unat (heap s')"
    using n le h by (auto simp: new_bytes_def heap_region_def word_le_nat_alt word_less_nat_alt)
  moreover from this have "n = unat (of_nat n :: uint32)"
    using unat32_less [of "heap s'"] by (simp add: unat_of_nat)
  ultimately show "n \<in> unat ` heap_region s'"
    by (intro image_eqI [of _ _ "of_nat n"]) (auto simp: heap_region_def word_le_nat_alt word_less_nat_alt)
qed

text \<open>
  \<open>kmalloc\<close> returns a zeroed block that was free or is new; every other byte of the heap keeps
  its value.
\<close>

lemma kmalloc_ok:
  assumes ok: "kmem_ok s" and lock: "mem_lock s = 0" and can: "can_alloc sz s"
    and fuel: "alloc_pages (level_of (unat sz)) < fuel"
  shows "\<exists>p s'. kmalloc fuel sz s = Inr (p, s') \<and> kmem_ok s' \<and> mem_lock s' = 0 \<and> stats s' = stats s + sz \<and>
    p \<noteq> 0 \<and> block_fits (level_of (unat sz), unat p) \<and>
    block (level_of (unat sz), unat p) \<subseteq> bytes (free_blocks (allocator s)) \<union> new_bytes s s' \<and>
    bytes (free_blocks (allocator s')) =
      bytes (free_blocks (allocator s)) \<union> new_bytes s s' - block (level_of (unat sz), unat p) \<and>
    heap s \<le> heap s' \<and> unat (heap s') \<le> unat (heap s) + 4096 * alloc_pages (level_of (unat sz)) \<and>
    card (frames s) \<le> card (frames s') + 2 * alloc_pages (level_of (unat sz)) \<and>
    free_nodes (allocator s) \<le> free_nodes (allocator s') + (14 + alloc_pages (level_of (unat sz))) \<and>
    (\<forall>v. unat p \<le> unat v \<longrightarrow> unat v < unat p + unat sz \<longrightarrow> vread8 v s' = Inr 0) \<and>
    (\<forall>v\<in>heap_region s. \<not> (unat p \<le> unat v \<and> unat v < unat p + unat sz) \<longrightarrow> vread8 v s' = vread8 v s)"
proof -
  let ?l = "level_of (unat sz)" and ?n = "alloc_pages (level_of (unat sz))" and ?s0 = "s\<lparr>mem_lock := 1, stats := stats s + sz\<rparr>"
  have sz: "unat sz \<le> bsize ?l" using can by (intro level_of_props(2)) (simp add: can_alloc_def Let_def)
  have "alloc_post ?l ?n ?s0 (mem_alloc fuel sz ?s0)"
    using ok can fuel by (intro mem_alloc_ok) (simp_all add: can_alloc_def Let_def)
  then obtain p s1 where p: "mem_alloc fuel sz ?s0 = Inr (p, s1)" "kmem_ok s1" "p \<noteq> 0" "block_fits (?l, unat p)"
      "block (?l, unat p) \<subseteq> bytes (free_blocks (allocator s)) \<union> new_bytes s s1"
      "bytes (free_blocks (allocator s1)) = bytes (free_blocks (allocator s)) \<union> new_bytes s s1 - block (?l, unat p)"
      "\<forall>v\<in>heap_region s. vread8 v s1 = vread8 v s" "heap s \<le> heap s1" "stats s1 = stats s + sz"
      "unat (heap s1) \<le> unat (heap s) + 4096 * ?n" "card (frames s) \<le> card (frames s1) + 2 * ?n"
      "free_nodes (allocator s) \<le> free_nodes (allocator s1) + (14 + ?n)"
    unfolding alloc_post_def new_bytes_def by auto
  have "bytes (free_blocks (allocator s)) \<subseteq> unat ` heap_region s" using ok by (simp add: kmem_ok_def)
  then have inside: "block (?l, unat p) \<subseteq> unat ` heap_region s1"
    using p(5) new_bytes_region [OF ok p(8)] by blast
  note h = in_heap_bytes [OF inside sz]
  obtain m where m: "kmemset (unat sz) p 0 s1 = Inr (s1\<lparr>phys_mem := m\<rparr>)" "kmem_ok (s1\<lparr>phys_mem := m\<rparr>)"
      "\<forall>w\<in>heap_region s1. vread8 w (s1\<lparr>phys_mem := m\<rparr>) =
         (if unat p \<le> unat w \<and> unat w < unat p + unat sz then Inr 0 else vread8 w s1)"
    using kmemset_heap [OF p(2) h, of 0] by blast
  let ?s' = "(s1\<lparr>phys_mem := m\<rparr>)\<lparr>mem_lock := 0\<rparr>"
  have "kmalloc fuel sz s = Inr (p, ?s')" using lock p(1) m(1) by (simp add: kmalloc_def Let_def)
  moreover have "v \<in> heap_region s1" if "unat p \<le> unat v" "unat v < unat p + unat sz" for v
    using that h by (auto simp: heap_region_def word_le_nat_alt word_less_nat_alt)
  moreover have "heap_region s \<subseteq> heap_region s1" using p(8) by (auto simp: heap_region_def)
  ultimately show ?thesis using p m
    by (intro exI [of _ p] exI [of _ ?s']) (simp add: new_bytes_def subset_iff)
qed

lemma small_level: "n \<le> 4096 \<Longrightarrow> level_of n \<le> 9" "n \<le> 4096 \<Longrightarrow> alloc_pages (level_of n) = 1"
  using level_of_le [of 9 n] by (simp_all add: bsize_def alloc_pages_def)

text \<open>\<^verbatim>\<open>NEW\<close> has the same effect: it clears the block once more.\<close>

definition got_block :: "uint32 \<Rightarrow> 'a kmem_scheme \<Rightarrow> ptr \<Rightarrow> 'a kmem_scheme \<Rightarrow> bool" where
  "got_block sz s p s' \<longleftrightarrow>
     (let l = level_of (unat sz); n = alloc_pages l in
      kmem_ok s' \<and> mem_lock s' = 0 \<and> stats s' = stats s + sz \<and> p \<noteq> 0 \<and> block_fits (l, unat p) \<and>
      block (l, unat p) \<subseteq> bytes (free_blocks (allocator s)) \<union> new_bytes s s' \<and>
      bytes (free_blocks (allocator s')) = bytes (free_blocks (allocator s)) \<union> new_bytes s s' - block (l, unat p) \<and>
      block (l, unat p) \<subseteq> unat ` heap_region s' \<and>
      heap s \<le> heap s' \<and> unat (heap s') \<le> unat (heap s) + 4096 * n \<and> card (frames s) \<le> card (frames s') + 2 * n \<and>
      free_nodes (allocator s) \<le> free_nodes (allocator s') + (14 + n) \<and>
      (\<forall>v. unat p \<le> unat v \<longrightarrow> unat v < unat p + unat sz \<longrightarrow> vread8 v s' = Inr 0) \<and>
      (\<forall>v\<in>heap_region s. \<not> (unat p \<le> unat v \<and> unat v < unat p + unat sz) \<longrightarrow> vread8 v s' = vread8 v s))"

lemma kmalloc_got_block:
  assumes ok: "kmem_ok s" and "mem_lock s = 0" "can_alloc sz s" "alloc_pages (level_of (unat sz)) < fuel"
  shows "\<exists>p s'. kmalloc fuel sz s = Inr (p, s') \<and> got_block sz s p s'"
proof -
  have "bytes (free_blocks (allocator s)) \<subseteq> unat ` heap_region s" using ok by (simp add: kmem_ok_def)
  then have "B \<subseteq> bytes (free_blocks (allocator s)) \<union> new_bytes s s' \<Longrightarrow> B \<subseteq> unat ` heap_region s'"
    if "heap s \<le> heap s'" for B and s' :: "'a kmem_scheme" using new_bytes_region [OF ok that] by blast
  then show ?thesis using kmalloc_ok [OF assms] unfolding got_block_def Let_def by blast
qed

lemma new_object_ok:
  assumes ok: "kmem_ok s" and lock: "mem_lock s = 0" and can: "can_alloc sz s"
    and fuel: "alloc_pages (level_of (unat sz)) < fuel"
  shows "\<exists>p s'. new_object fuel sz s = Inr (p, s') \<and> got_block sz s p s'"
proof -
  obtain p s1 where p: "kmalloc fuel sz s = Inr (p, s1)" "got_block sz s p s1"
    using kmalloc_got_block [OF assms] by blast
  have sz: "unat sz \<le> bsize (level_of (unat sz))"
    using can by (intro level_of_props(2)) (simp add: can_alloc_def Let_def)
  have ok1: "kmem_ok s1" and inside: "block (level_of (unat sz), unat p) \<subseteq> unat ` heap_region s1"
    and le: "heap s \<le> heap s1" using p(2) by (simp_all add: got_block_def Let_def)
  obtain m where m: "kmemset (unat sz) p 0 s1 = Inr (s1\<lparr>phys_mem := m\<rparr>)" "kmem_ok (s1\<lparr>phys_mem := m\<rparr>)"
      "\<forall>w\<in>heap_region s1. vread8 w (s1\<lparr>phys_mem := m\<rparr>) =
         (if unat p \<le> unat w \<and> unat w < unat p + unat sz then Inr 0 else vread8 w s1)"
    using kmemset_heap [OF ok1 in_heap_bytes [OF inside sz], of 0] by blast
  have "v \<in> heap_region s1" if "unat p \<le> unat v" "unat v < unat p + unat sz" for v
    using that in_heap_bytes [OF inside sz] by (auto simp: heap_region_def word_le_nat_alt word_less_nat_alt)
  moreover have "heap_region s \<subseteq> heap_region s1" using le by (auto simp: heap_region_def)
  ultimately have "got_block sz s p (s1\<lparr>phys_mem := m\<rparr>)"
    using p(2) m(2,3) by (simp add: got_block_def Let_def new_bytes_def subset_iff)
  then show ?thesis using p(1) m(1) by (auto simp: new_object_def)
qed

text \<open>Room for \<open>n\<close> more objects of at most a page each.\<close>

definition room_for :: "nat \<Rightarrow> 'a kmem_scheme \<Rightarrow> bool" where
  "room_for n s \<longleftrightarrow> kmem_ok s \<and> mem_lock s = 0 \<and> unat (heap s) + 4096 * n \<le> unat HEAP_LIMIT \<and>
     2 * n \<le> card (frames s) \<and> 15 * n + 1 \<le> free_nodes (allocator s)"

lemma room_for_alloc: "room_for (Suc n) s \<Longrightarrow> unat sz \<le> 4096 \<Longrightarrow> kmem_ok s \<and> mem_lock s = 0 \<and> can_alloc sz s"
  by (auto simp: room_for_def can_alloc_def Let_def small_level)

lemma room_for_mono: "room_for n s \<Longrightarrow> m \<le> n \<Longrightarrow> room_for m s"
  by (auto simp: room_for_def)

lemma room_for_next: "room_for (Suc n) s \<Longrightarrow> unat sz \<le> 4096 \<Longrightarrow> got_block sz s p s' \<Longrightarrow> room_for n s'"
  using small_level(2) [of "unat sz"] by (auto simp: room_for_def got_block_def Let_def)

text \<open>Words of the heap.\<close>

lemma vwrite_heap:
  assumes ok: "kmem_ok s" and v: "v \<in> heap_region s"
  shows "\<exists>m. vwrite v x s = Inr (s\<lparr>phys_mem := m\<rparr>) \<and> kmem_ok (s\<lparr>phys_mem := m\<rparr>) \<and>
    (\<forall>w\<in>heap_region s. vread w (s\<lparr>phys_mem := m\<rparr>) = (if w = v then Inr x else vread w s))"
proof -
  have hm: "heap_mapped s" using ok by (simp add: kmem_ok_def)
  obtain p where p: "mmu_translate v s = Some p" "private_at p s" using hm v unfolding heap_mapped_def by blast
  let ?s = "s\<lparr>phys_mem := (phys_mem s)(p := x)\<rparr>"
  have "vread w ?s = (if w = v then Inr x else vread w s)" if w: "w \<in> heap_region s" for w
  proof -
    have "w < HEAP_LIMIT" using ok w by (auto simp: kmem_ok_def heap_region_def)
    then have tr: "mmu_translate w ?s = mmu_translate w s"
      by (intro translate_write_private [OF p(2) refl] heap_dir_index)
    obtain q where q: "mmu_translate w s = Some q" using hm w unfolding heap_mapped_def by blast
    have "p \<noteq> q" if "w \<noteq> v" using hm v w p(1) q that unfolding heap_mapped_def by metis
    then show ?thesis using q p(1) tr by (cases "w = v") (auto simp: vread_def)
  qed
  moreover have "vwrite v x s = Inr ?s" using p(1) by (simp add: vwrite_def)
  ultimately show ?thesis using kmem_ok_write_private [OF ok p(2) refl] by blast
qed

primrec write_words :: "(ptr \<times> uint32) list \<Rightarrow> 'a machine_scheme \<Rightarrow> 'a machine_scheme res" where
  "write_words [] s = Inr s"
| "write_words (w # ws) s = bindE (vwrite (fst w) (snd w) s) (write_words ws)"

lemma write_words_heap:
  "kmem_ok s \<Longrightarrow> fst ` set ws \<subseteq> heap_region s \<Longrightarrow> distinct (map fst ws) \<Longrightarrow>
   \<exists>m. write_words ws s = Inr (s\<lparr>phys_mem := m\<rparr>) \<and> kmem_ok (s\<lparr>phys_mem := m\<rparr>) \<and>
     (\<forall>w\<in>heap_region s. vread w (s\<lparr>phys_mem := m\<rparr>) = (case map_of ws w of Some x \<Rightarrow> Inr x | None \<Rightarrow> vread w s))"
proof (induction ws arbitrary: s)
  case Nil
  then show ?case by (intro exI [of _ "phys_mem s"]) simp
next
  case (Cons a ws)
  obtain m1 where m1: "vwrite (fst a) (snd a) s = Inr (s\<lparr>phys_mem := m1\<rparr>)" "kmem_ok (s\<lparr>phys_mem := m1\<rparr>)"
      "\<forall>w\<in>heap_region s. vread w (s\<lparr>phys_mem := m1\<rparr>) = (if w = fst a then Inr (snd a) else vread w s)"
    using vwrite_heap [OF Cons.prems(1), of "fst a" "snd a"] Cons.prems(2) by auto
  have reg: "heap_region (s\<lparr>phys_mem := m1\<rparr>) = heap_region s" by (simp add: heap_region_def)
  obtain m where m: "write_words ws (s\<lparr>phys_mem := m1\<rparr>) = Inr (s\<lparr>phys_mem := m\<rparr>)" "kmem_ok (s\<lparr>phys_mem := m\<rparr>)"
      "\<forall>w\<in>heap_region s. vread w (s\<lparr>phys_mem := m\<rparr>) = (case map_of ws w of Some x \<Rightarrow> Inr x | None \<Rightarrow> vread w (s\<lparr>phys_mem := m1\<rparr>))"
    using Cons.IH [OF m1(2)] Cons.prems(2,3) by (auto simp: reg)
  have "map_of ws (fst a) = None" using Cons.prems(3) by (simp add: map_of_eq_None_iff)
  then have "vread w (s\<lparr>phys_mem := m\<rparr>) = (case map_of (a # ws) w of Some x \<Rightarrow> Inr x | None \<Rightarrow> vread w s)"
    if "w \<in> heap_region s" for w using m(3) m1(3) that by (cases a) (auto split: option.splits)
  then show ?case using m1(1) m(1,2) by (intro exI [of _ m]) simp
qed

text \<open>\<open>kfree\<close> puts the block back; the contents of the heap do not change.\<close>

lemma kfree_ok:
  assumes ok: "kmem_ok s" and lock: "mem_lock s = 0" and sz: "unat sz \<le> 2 ^ 18" and node: "0 < free_nodes (allocator s)"
    and fits: "block_fits (level_of (unat sz), unat p)"
    and out: "block (level_of (unat sz), unat p) \<inter> bytes (free_blocks (allocator s)) = {}"
    and inside: "block (level_of (unat sz), unat p) \<subseteq> unat ` heap_region s"
  shows "\<exists>a. kfree p sz s = Inr (s\<lparr>stats := stats s - sz, allocator := a\<rparr>) \<and>
    kmem_ok (s\<lparr>stats := stats s - sz, allocator := a\<rparr>) \<and>
    bytes (free_blocks a) = block (level_of (unat sz), unat p) \<union> bytes (free_blocks (allocator s)) \<and>
    free_nodes (allocator s) \<le> free_nodes a + 1"
proof -
  let ?l = "level_of (unat sz)"
  have h: "heap_ok (allocator s)" using ok by (simp add: kmem_ok_def)
  obtain a where a: "add_block ?l p (allocator s) = Inr a" "heap_ok a"
      "bytes (free_blocks a) = block (?l, unat p) \<union> bytes (free_blocks (allocator s))"
      "free_nodes (allocator s) \<le> free_nodes a + 1"
    using add_block_ok [OF h fits out node] by blast
  have "unat (of_nat ?l :: uint8) = ?l" using fits by (subst unat_of_nat) (simp add: block_fits_def)
  moreover have "free_level 1 (list_size 1) sz = Some (of_nat ?l)" using sz by (intro free_level_eq) simp
  ultimately have "mem_free p sz (allocator s) = Inr a"
    using a(1) by (simp add: mem_free_def add_block_def)
  then have "kfree p sz s = Inr (s\<lparr>stats := stats s - sz, allocator := a\<rparr>)"
    using lock by (cases s) (simp add: kfree_def Let_def)
  moreover have "kmem_ok ((s\<lparr>stats := stats s - sz\<rparr>)\<lparr>allocator := a\<rparr>)"
    using ok a(2,3) inside by (intro kmem_ok_allocator) (auto simp: kmem_ok_def [of s])
  ultimately show ?thesis using a by auto
qed

text \<open>A block that was handed out for \<open>sz\<close> bytes and may be given back.\<close>

definition allocated :: "ptr \<Rightarrow> uint32 \<Rightarrow> 'a kmem_scheme \<Rightarrow> bool" where
  "allocated p sz s \<longleftrightarrow> kmem_ok s \<and> mem_lock s = 0 \<and> unat sz \<le> 2 ^ 18 \<and> 0 < free_nodes (allocator s) \<and>
     block_fits (level_of (unat sz), unat p) \<and>
     block (level_of (unat sz), unat p) \<inter> bytes (free_blocks (allocator s)) = {} \<and>
     block (level_of (unat sz), unat p) \<subseteq> unat ` heap_region s"

lemma kmalloc_allocated:
  assumes ok: "kmem_ok s" and lock: "mem_lock s = 0" and can: "can_alloc sz s"
    and fuel: "alloc_pages (level_of (unat sz)) < fuel"
  shows "\<exists>p s'. kmalloc fuel sz s = Inr (p, s') \<and> allocated p sz s' \<and> stats s' = stats s + sz \<and>
    block (level_of (unat sz), unat p) \<union> bytes (free_blocks (allocator s')) =
      bytes (free_blocks (allocator s)) \<union> new_bytes s s'"
proof -
  let ?l = "level_of (unat sz)"
  obtain p s' where s': "kmalloc fuel sz s = Inr (p, s')" "kmem_ok s'" "mem_lock s' = 0" "stats s' = stats s + sz"
      "block_fits (?l, unat p)" "heap s \<le> heap s'"
      "block (?l, unat p) \<subseteq> bytes (free_blocks (allocator s)) \<union> new_bytes s s'"
      "bytes (free_blocks (allocator s')) = bytes (free_blocks (allocator s)) \<union> new_bytes s s' - block (?l, unat p)"
      "free_nodes (allocator s) \<le> free_nodes (allocator s') + (14 + alloc_pages ?l)"
    using kmalloc_ok [OF assms] by blast
  have "bytes (free_blocks (allocator s)) \<subseteq> unat ` heap_region s" using ok by (simp add: kmem_ok_def)
  then have "block (?l, unat p) \<subseteq> unat ` heap_region s'" using s'(7) new_bytes_region [OF ok s'(6)] by blast
  moreover have "unat sz \<le> 2 ^ 18" "0 < free_nodes (allocator s')" using can s'(9) by (auto simp: can_alloc_def Let_def)
  ultimately have "allocated p sz s'" using s' by (auto simp: allocated_def)
  then show ?thesis using s' by blast
qed

section \<open>Boot: the memory map\<close>

lemma unat_page_align: "unat (page_align addr) = 4096 * (unat addr div 4096)"
proof -
  have "unat (page_align addr) = (unat addr div 4096 * 4096) mod 2 ^ 32"
    by (simp add: page_align_def push_bit_eq_mult drop_bit_eq_div unat_word_ariths unat_div mod_simps)
  moreover have "unat addr div 4096 * 4096 < 2 ^ 32"
    using unat32_less [of addr] div_times_less_eq_dividend [of "unat addr" 4096] by simp
  ultimately show ?thesis by simp
qed

text \<open>The frames that an entry of the memory map gives to the pool.\<close>

definition usable :: "mmap \<Rightarrow> nat set" where
  "usable m =
     (if mmap_type m = 1
      then range_frames (page_align (base_low m + PAGE_SIZE - 1))
        (unat ((page_align (base_low m + length_low m) - page_align (base_low m + PAGE_SIZE - 1)) div PAGE_SIZE))
      else {})"

lemma frames_free_entry [simp]: "frames (free_entry m s) = frames s \<union> usable m"
  by (simp add: free_entry_def usable_def Let_def)

lemma palloc_ready_free_entry [simp]: "palloc_ready (free_entry m s) = palloc_ready s"
  by (simp add: free_entry_def Let_def)

text \<open>For an entry that holds a page boundary, these are the frames that lie entirely in it.\<close>

lemma usable_exact:
  assumes "mmap_type m = 1" "unat (base_low m) + unat (length_low m) < 2 ^ 32"
    and "unat (base_low m) + 4095 < 2 ^ 32"
    and "4096 * ((unat (base_low m) + 4095) div 4096) \<le> unat (base_low m) + unat (length_low m)"
  shows "usable m = {p. unat (base_low m) \<le> 4096 * p \<and> 4096 * p + 4096 \<le> unat (base_low m) + unat (length_low m)}"
proof -
  define b e where "b = unat (base_low m)" and "e = unat (base_low m) + unat (length_low m)"
  define q r where "q = (b + 4095) div 4096" and "r = e div 4096"
  have "base_low m + PAGE_SIZE - 1 = base_low m + 4095" by simp
  then have "unat (base_low m + PAGE_SIZE - 1) = b + 4095" using assms(3) by (simp add: b_def unat_word_ariths)
  then have lo: "unat (page_align (base_low m + PAGE_SIZE - 1)) = 4096 * q" by (simp add: unat_page_align q_def)
  have "unat (base_low m + length_low m) = e" using assms(2) by (simp add: e_def unat_word_ariths)
  then have hi: "unat (page_align (base_low m + length_low m)) = 4096 * r" by (simp add: unat_page_align r_def)
  have qr: "q \<le> r" using assms(4) by (simp add: q_def r_def b_def e_def less_eq_div_iff_mult_less_eq mult.commute)
  have "e < 2 ^ 32" using assms(2) by (simp add: e_def)
  then have rP: "r < PAGES" by (simp add: r_def less_mult_imp_div_less)
  have n: "unat ((page_align (base_low m + length_low m) - page_align (base_low m + PAGE_SIZE - 1)) div PAGE_SIZE) = r - q"
    using qr lo hi by (simp add: unat_div unat_sub word_le_nat_alt diff_mult_distrib2 [symmetric])
  have "usable m = {(q + i) mod PAGES | i. i < r - q}"
    using assms(1) n lo by (simp add: usable_def range_frames_def frame_of_def)
  also have "\<dots> = {q..<r}"
  proof (intro equalityI subsetI)
    fix x assume "x \<in> {q..<r}"
    then show "x \<in> {(q + i) mod PAGES | i. i < r - q}" using rP by (intro CollectI exI [of _ "x - q"]) auto
  qed (use rP in auto)
  also have "\<dots> = {p. b \<le> 4096 * p \<and> 4096 * p + 4096 \<le> e}"
    unfolding q_def r_def by auto
  finally show ?thesis by (simp add: b_def e_def)
qed

text \<open>For an entry within one page the difference of the two ends wraps around.\<close>

lemma usable_wraps:
  assumes "mmap_type m = 1" "0 < unat (base_low m) mod 4096"
    and "unat (base_low m) mod 4096 + unat (length_low m) < 4096" "unat (base_low m) + 4096 < 2 ^ 32"
  shows "usable m = {..<PAGES} - {frame_of (base_low m)}"
proof -
  define q r where "q = unat (base_low m) div 4096" and "r = unat (base_low m) mod 4096"
  have b: "unat (base_low m) = 4096 * q + r" "0 < r" "r < 4096" "r + unat (length_low m) < 4096"
    using assms(2,3) by (auto simp: q_def r_def)
  have lo0: "(unat (base_low m) + 4095) div 4096 = q + 1" using b(1-3) by (intro div_nat_eqI) simp_all
  have "(unat (base_low m) + unat (length_low m)) div 4096 = q" using b by (intro div_nat_eqI) simp_all
  then have hi: "unat (page_align (base_low m + length_low m)) = 4096 * q"
    using assms(4) b by (simp add: unat_page_align unat_word_ariths)
  have "base_low m + PAGE_SIZE - 1 = base_low m + 4095" by simp
  then have "unat (base_low m + PAGE_SIZE - 1) = unat (base_low m) + 4095" using assms(4) by (simp add: unat_word_ariths)
  then have lo: "unat (page_align (base_low m + PAGE_SIZE - 1)) = 4096 * (q + 1)"
    using lo0 by (simp add: unat_page_align)
  have qP: "q + 1 < PAGES" using assms(4) b by simp
  have "page_align (base_low m + PAGE_SIZE - 1) = page_align (base_low m + length_low m) + 4096"
    using lo hi qP by (simp add: word_unat_eq_iff unat_word_ariths)
  then have "page_align (base_low m + length_low m) - page_align (base_low m + PAGE_SIZE - 1) = 0xFFFFF000"
    by simp
  then have n: "unat ((page_align (base_low m + length_low m) - page_align (base_low m + PAGE_SIZE - 1)) div PAGE_SIZE) = 1048575"
    by simp
  have "usable m = {(q + 1 + i) mod PAGES | i. i < 1048575}"
    using assms(1) n lo by (simp add: usable_def range_frames_def frame_of_def)
  also have "\<dots> = {..<PAGES} - {q}"
  proof (intro equalityI subsetI)
    fix x assume x: "x \<in> {..<PAGES} - {q}"
    let ?i = "if q < x then x - q - 1 else x + 1048575 - q"
    have "?i < 1048575" "(q + 1 + ?i) mod PAGES = x" using x qP by auto
    then show "x \<in> {(q + 1 + i) mod PAGES | i. i < 1048575}" by (intro CollectI exI [of _ ?i]) simp
  next
    fix x assume "x \<in> {(q + 1 + i) mod PAGES | i. i < 1048575}"
    then obtain i where i: "x = (q + 1 + i) mod PAGES" "i < 1048575" by blast
    have "x \<noteq> q" using i qP by (cases "q + 1 + i < PAGES") (auto simp: mod_if)
    then show "x \<in> {..<PAGES} - {q}" using i(1) by simp
  qed
  finally show ?thesis by (simp add: q_def frame_of_def)
qed

fun mmap_layout :: "(ptr \<Rightarrow> mmap) \<Rightarrow> ptr \<Rightarrow> ptr \<Rightarrow> mmap list \<Rightarrow> bool" where
  "mmap_layout mm p e [] \<longleftrightarrow> \<not> p < e"
| "mmap_layout mm p e (m # ms) \<longleftrightarrow> p < e \<and> mm p = m \<and> mmap_layout mm (p + (mmap_size m + 4)) e ms"

lemma mmap_loop_ok:
  "mmap_layout mm p e ms \<Longrightarrow> length ms < fuel \<Longrightarrow> mmap_loop fuel mm p e s = Inr (fold free_entry ms s)"
proof (induction ms arbitrary: p s fuel)
  case Nil
  then show ?case by (cases fuel) auto
next
  case (Cons m ms)
  then show ?case by (cases fuel) auto
qed

lemma frames_fold_entries: "frames (fold free_entry ms s) = frames s \<union> (\<Union>m\<in>set ms. usable m)"
  by (induction ms arbitrary: s) auto

lemma palloc_ready_fold_entries [simp]: "palloc_ready (fold free_entry ms s) = palloc_ready s"
  by (induction ms arbitrary: s) auto

text \<open>
  The directory at boot: its frame and those of its tables lie in the second megabyte, where
  the kernel image is and which \<open>mem_init\<close> takes out of the pool.
\<close>

definition boot_dir :: "'a machine_scheme \<Rightarrow> bool" where
  "boot_dir s \<longleftrightarrow> self_mapped s \<and> frame_of (pdir s) \<in> {256..<512} \<and>
     (\<forall>i. unat i < 1023 \<longrightarrow> pde i s AND PAGE_PRESENT \<noteq> 0 \<longrightarrow>
        pde i s AND 0xFFFFF000 \<noteq> pdir s \<and> frame_of (pde i s) \<in> {256..<512}) \<and>
     (\<forall>i j. unat i < 1023 \<longrightarrow> unat j < 1023 \<longrightarrow> pde i s AND PAGE_PRESENT \<noteq> 0 \<longrightarrow> pde j s AND PAGE_PRESENT \<noteq> 0 \<longrightarrow>
        pde i s AND 0xFFFFF000 = pde j s AND 0xFFFFF000 \<longrightarrow> i = j \<or> twins i j)"

definition boot_pool :: "mmap list \<Rightarrow> 'a palloc_scheme \<Rightarrow> nat set" where
  "boot_pool ms s = (frames s \<union> (\<Union>m\<in>set ms. usable m)) - ({0} \<union> {256..<512} \<union> {0xFEE00, 0xFEC00})"

lemma range_frames_image: "range_frames 0x00100000 256 = {256..<512}"
proof -
  have "frame_of 0x00100000 = 256" by (simp add: frame_of_def)
  then have "range_frames 0x00100000 256 = {(256 + i) mod PAGES | i. i < 256}" by (simp add: range_frames_def)
  also have "\<dots> = {256..<512}"
  proof (intro equalityI subsetI)
    fix x :: nat assume "x \<in> {256..<512}"
    then show "x \<in> {(256 + i) mod PAGES | i. i < 256}" by (intro CollectI exI [of _ "x - 256"]) auto
  qed auto
  finally show ?thesis .
qed

definition boot_state :: "mmap list \<Rightarrow> 'a kmem_scheme \<Rightarrow> 'a kmem_scheme" where
  "boot_state ms s = mem_phys_reserve IOAPIC_BASE (mem_phys_reserve LAPIC_BASE
     (mem_phys_reserve_range 0x00100000 (0x100000 div PAGE_SIZE) (mem_phys_reserve 0
       (fold free_entry ms (s\<lparr>heap := HEAP_START, allocator := mem_allocator_init (allocator s)\<rparr>)))))"

lemma frames_boot_state [simp]: "frames (boot_state ms s) = boot_pool ms s"
  by (auto simp: boot_state_def boot_pool_def frames_fold_entries range_frames_image frame_of_def)

text \<open>The operations on the bit map change only the bit map.\<close>

lemma free_entry_memory_map: "\<exists>m. free_entry e s = s\<lparr>memory_map := m\<rparr>"
proof -
  have "\<exists>m. fold (\<lambda>i. mem_phys_free (addr + PAGE_SIZE * of_nat i)) [0..<n] s = s\<lparr>memory_map := m\<rparr>" for addr n
  proof (induction n)
    case (Suc n)
    then show ?case by (auto simp: mem_phys_free_def Let_def)
  qed (auto intro: exI [of _ "memory_map s"])
  then show ?thesis by (auto simp: free_entry_def mem_phys_free_range_def Let_def intro: exI [of _ "memory_map s"])
qed

lemma fold_entries_memory_map: "\<exists>m. fold free_entry ms s = s\<lparr>memory_map := m\<rparr>"
proof (induction ms arbitrary: s)
  case (Cons e ms)
  obtain m where "free_entry e s = s\<lparr>memory_map := m\<rparr>" using free_entry_memory_map by blast
  then show ?case using Cons.IH [of "free_entry e s"] by auto
next
  case Nil
  show ?case by (rule exI [of _ "memory_map s"]) simp
qed

lemma reserve_range_memory_map: "\<exists>m. mem_phys_reserve_range addr n s = s\<lparr>memory_map := m\<rparr>"
proof -
  have "\<exists>m. fold (\<lambda>i. mem_phys_reserve (addr + PAGE_SIZE * of_nat i)) [0..<k] s = s\<lparr>memory_map := m\<rparr>" for k
  proof (induction k)
    case (Suc k)
    then show ?case by (auto simp: mem_phys_reserve_def Let_def)
  qed (auto intro: exI [of _ "memory_map s"])
  then show ?thesis by (auto simp: mem_phys_reserve_range_def)
qed

lemma boot_state_memory_map:
  "\<exists>m. boot_state ms s = s\<lparr>memory_map := m, heap := HEAP_START, allocator := mem_allocator_init (allocator s)\<rparr>"
proof -
  let ?s = "s\<lparr>heap := HEAP_START, allocator := mem_allocator_init (allocator s)\<rparr>"
  have reserve: "\<exists>m. mem_phys_reserve a t = t\<lparr>memory_map := m\<rparr>" for a and t :: "'a kmem_scheme"
    by (auto simp: mem_phys_reserve_def Let_def)
  obtain m1 where m1: "fold free_entry ms ?s = ?s\<lparr>memory_map := m1\<rparr>"
    using fold_entries_memory_map by blast
  obtain m2 where m2: "mem_phys_reserve 0 (?s\<lparr>memory_map := m1\<rparr>) = ?s\<lparr>memory_map := m2\<rparr>"
    using reserve [of 0 "?s\<lparr>memory_map := m1\<rparr>"] by auto
  obtain m3 where m3: "mem_phys_reserve_range 0x00100000 (0x100000 div PAGE_SIZE) (?s\<lparr>memory_map := m2\<rparr>) = ?s\<lparr>memory_map := m3\<rparr>"
    using reserve_range_memory_map [of "0x00100000" "0x100000 div PAGE_SIZE" "?s\<lparr>memory_map := m2\<rparr>"] by auto
  obtain m4 where m4: "mem_phys_reserve LAPIC_BASE (?s\<lparr>memory_map := m3\<rparr>) = ?s\<lparr>memory_map := m4\<rparr>"
    using reserve [of LAPIC_BASE "?s\<lparr>memory_map := m3\<rparr>"] by auto
  obtain m5 where m5: "mem_phys_reserve IOAPIC_BASE (?s\<lparr>memory_map := m4\<rparr>) = ?s\<lparr>memory_map := m5\<rparr>"
    using reserve [of IOAPIC_BASE "?s\<lparr>memory_map := m4\<rparr>"] by auto
  have "boot_state ms s = ?s\<lparr>memory_map := m5\<rparr>" unfolding boot_state_def m1 m2 m3 m4 m5 ..
  then show ?thesis by (intro exI [of _ m5]) simp
qed

lemma palloc_more_eq: "palloc.more s' = palloc.more (s :: 'a machine_scheme) \<Longrightarrow> machine.more s' = machine.more s"
  by (cases s; cases s') simp

lemma machine_more_eq: "machine.more s' = machine.more (s :: 'a kmem_scheme) \<Longrightarrow> kmem.more s' = kmem.more s"
  by (cases s; cases s') simp

lemma boot_state_ready:
  assumes dir: "boot_dir s" and ready: "palloc_ready s" and pool: "2 \<le> card (boot_pool ms s)"
  shows "map_ready (boot_state ms s)" "mmu_translate v (boot_state ms s) = mmu_translate v s"
    "heap (boot_state ms s) = HEAP_START" "allocator (boot_state ms s) = mem_allocator_init (allocator s)"
    "pdir (boot_state ms s) = pdir s" "pde i (boot_state ms s) = pde i s" "mem_lock (boot_state ms s) = mem_lock s"
    "phys_mem (boot_state ms s) = phys_mem s" "kmem.more (boot_state ms s) = kmem.more s"
proof -
  obtain m where m: "boot_state ms s = s\<lparr>memory_map := m, heap := HEAP_START, allocator := mem_allocator_init (allocator s)\<rparr>"
    using boot_state_memory_map by blast
  show pd: "pdir (boot_state ms s) = pdir s" "pde i (boot_state ms s) = pde i s" for i
    by (simp_all add: m pdir_def pde_def)
  show "mmu_translate v (boot_state ms s) = mmu_translate v s"
    "heap (boot_state ms s) = HEAP_START" "allocator (boot_state ms s) = mem_allocator_init (allocator s)"
    "mem_lock (boot_state ms s) = mem_lock s" "phys_mem (boot_state ms s) = phys_mem s"
    by (simp_all add: m mmu_translate_def pte_slot_def pde_def pdir_def)
  show "kmem.more (boot_state ms s) = kmem.more s" unfolding m by (cases s) simp
  have "x \<notin> boot_pool ms s" if "x \<in> {256..<512}" for x using that by (simp add: boot_pool_def)
  then have "dir_ok (boot_state ms s)"
    using dir unfolding boot_dir_def dir_ok_def self_mapped_def pd frames_boot_state by blast
  moreover have "palloc_ready (boot_state ms s)" using ready by (simp add: boot_state_def)
  moreover have "boot_pool ms s \<noteq> {}" using pool by auto
  ultimately show "map_ready (boot_state ms s)" by (simp add: map_ready_def)
qed

lemma low_page: "v < HEAP_LIMIT \<Longrightarrow> HEAP_LIMIT \<le> w \<Longrightarrow> page_aligned w \<Longrightarrow> v AND 0xFFFFF000 \<noteq> w AND 0xFFFFF000"
proof
  assume v: "v < HEAP_LIMIT" and w: "HEAP_LIMIT \<le> w" "page_aligned w" and eq: "v AND 0xFFFFF000 = w AND 0xFFFFF000"
  have "unat (v AND 0xFFFFF000) \<le> unat v" by (simp add: unat_page_base)
  moreover have "unat (v AND 0xFFFFF000) = unat w" using eq page_base_aligned [OF w(2)] by simp
  ultimately show False using v w(1) by (simp add: word_less_nat_alt word_le_nat_alt)
qed

lemma mem_init_ok:
  assumes dir: "boot_dir s" and ready: "palloc_ready s" and pool: "2 \<le> card (boot_pool ms s)"
    and layout: "mmap_layout mm p (p + len) ms" and fuel: "length ms < fuel"
    and unmapped: "\<forall>v. HEAP_START \<le> v \<longrightarrow> v < HEAP_LIMIT \<longrightarrow> mmu_translate v s = None"
  shows "\<exists>s'. mem_init fuel mm p len s = Inr s' \<and> kmem_ok s' \<and> heap s' = HEAP_START \<and>
    free_blocks (allocator s') = {} \<and> free_nodes (allocator s') = 4091 \<and>
    frames s' \<subseteq> boot_pool ms s \<and> card (boot_pool ms s) \<le> card (frames s') + 1 \<and>
    mmu_translate LAPIC_BASE s' = Some LAPIC_BASE \<and> mmu_translate IOAPIC_BASE s' = Some IOAPIC_BASE \<and>
    (\<forall>v. v < HEAP_LIMIT \<longrightarrow> mmu_translate v s' = mmu_translate v s) \<and>
    (\<forall>p a. private_at p (boot_state ms s) \<longrightarrow> frame_of a = frame_of p \<longrightarrow> phys_mem s' a = phys_mem s a \<and> private_at p s') \<and>
    mem_lock s' = mem_lock s \<and> kmem.more s' = kmem.more s"
proof -
  let ?b = "boot_state ms s"
  let ?s1 = "map_page IOAPIC_BASE (page_entry IOAPIC_BASE 3) ?b"
  let ?s2 = "map_page LAPIC_BASE (page_entry LAPIC_BASE 3) ?s1"
  note b = boot_state_ready [OF dir ready pool]
  have idx: "page_dir_index IOAPIC_BASE = 1019" "page_dir_index LAPIC_BASE = 1019"
    by (simp_all add: page_dir_index_def drop_bit_eq_div)
  have ne: "boot_pool ms s - {x} \<noteq> {}" for x
    using pool card_mono [of "{x}" "boot_pool ms s"] by auto
  have fr1: "frames ?s1 = (if pde 1019 s AND 1 \<noteq> 0 then boot_pool ms s else boot_pool ms s - {Min (boot_pool ms s)})"
    using frames_map_page [OF b(1), of IOAPIC_BASE] by (simp add: idx b(6))
  have mr1: "map_ready ?s1"
    using map_page_ok [OF b(1), of IOAPIC_BASE] b(1) ne fr1 ne [of 0] by (auto simp: map_ready_def idx)
  have pr: "pde 1019 ?s1 AND 1 \<noteq> 0"
    using map_page_pde [OF b(1), of IOAPIC_BASE 1019] by (simp add: idx b(6))
  have fr2: "frames ?s2 = frames ?s1" using frames_map_page [OF mr1, of LAPIC_BASE] pr by (simp add: idx)
  have nt: "\<not> twins i 1019" for i by (simp add: twins_def)
  note tr1 = map_page_translate [OF b(1), of IOAPIC_BASE, unfolded idx, OF _ _ nt]
    and tr2 = map_page_translate [OF mr1, of LAPIC_BASE, unfolded idx, OF _ _ nt]
  have "mem_init fuel mm p len s = bindE (paging_map 0xFEC00000 0xFEC00000 (1 OR 2) ?b) (paging_map 0xFEE00000 0xFEE00000 (1 OR 2))"
    unfolding mem_init_def Let_def mmap_loop_ok [OF layout fuel] bindE_Inr boot_state_def ..
  then have init: "mem_init fuel mm p len s = Inr ?s2"
    using paging_map_eq [OF b(1), of IOAPIC_BASE IOAPIC_BASE "1 OR 2"]
      paging_map_eq [OF mr1, of LAPIC_BASE LAPIC_BASE "1 OR 2"] by (simp add: idx)
  have apic: "mmu_translate IOAPIC_BASE ?s2 = Some IOAPIC_BASE" "mmu_translate LAPIC_BASE ?s2 = Some LAPIC_BASE"
    using tr1 [of IOAPIC_BASE] tr2 [of IOAPIC_BASE] tr2 [of LAPIC_BASE] by (simp_all add: idx)
  have low: "mmu_translate v ?s2 = mmu_translate v s" if "v < HEAP_LIMIT" for v
    using tr1 [of v] tr2 [of v] heap_dir_index [OF that] low_page [OF that, of IOAPIC_BASE]
      low_page [OF that, of LAPIC_BASE] by (simp add: page_aligned_def b(2))
  have keep: "phys_mem ?s2 a = phys_mem s a \<and> private_at p ?s2" if "private_at p ?b" "frame_of a = frame_of p" for p a
  proof -
    have p1: "private_at p ?s1" using private_map_page [OF b(1) _ that(1), of IOAPIC_BASE] by (simp add: idx)
    then have "phys_mem ?s2 a = phys_mem ?b a"
      using map_page_keeps [OF mr1 _ p1 that(2), of LAPIC_BASE] map_page_keeps [OF b(1) _ that, of IOAPIC_BASE] by (simp add: idx)
    then show ?thesis using private_map_page [OF mr1 _ p1, of LAPIC_BASE] b(8) by (simp add: idx)
  qed
  have more: "kmem.more ?s2 = kmem.more s" using machine_more_eq [of ?s2 ?b] b(9) by simp
  have "heap_region ?s2 = {}" by (auto simp: heap_region_def b(3))
  with low have "heap_mapped ?s2" using unmapped by (simp add: heap_mapped_def b(3))
  moreover have "dir_ok ?s2" using map_page_ok [OF mr1, of LAPIC_BASE] by (simp add: idx)
  moreover have "palloc_ready ?s2" using b(1) by (simp add: map_ready_def)
  ultimately have "kmem_ok ?s2"
    using mem_allocator_init_ok by (simp add: kmem_ok_def b page_aligned_def)
  moreover have "card (boot_pool ms s) \<le> card (frames ?s2) + 1"
    using diff_card_le_card_Diff [of "{Min (boot_pool ms s)}" "boot_pool ms s"] by (auto simp: fr1 fr2)
  moreover have "frames ?s2 \<subseteq> boot_pool ms s" by (auto simp: fr1 fr2)
  ultimately show ?thesis using init apic low keep more mem_allocator_init_ok by (intro exI [of _ ?s2]) (simp add: b)
qed

section \<open>The rest of the state\<close>

text \<open>None of these operations touches the fields that extend the kernel memory.\<close>

lemma mem_phys_alloc_more: "mem_phys_alloc s = Inr (a, s') \<Longrightarrow> palloc.more s' = palloc.more s"
  by (auto simp: mem_phys_alloc_def bindE_eq_Inr Let_def mem_phys_reserve_def split: if_splits)

lemma vwrite_more: "vwrite v x s = Inr s' \<Longrightarrow> machine.more s' = machine.more s"
  by (auto simp: vwrite_def split: option.splits)

lemma vwrite8_more: "vwrite8 v x s = Inr s' \<Longrightarrow> machine.more s' = machine.more s"
  by (auto simp: vwrite8_def Let_def split: option.splits)

lemma kmemset32_more: "kmemset32 n p x s = Inr s' \<Longrightarrow> machine.more s' = machine.more s"
  by (induction n arbitrary: p s) (auto simp: bindE_eq_Inr dest!: vwrite_more)

lemma kmemset_more: "kmemset n p x s = Inr s' \<Longrightarrow> machine.more s' = machine.more s"
  by (induction n arbitrary: p s) (auto simp: bindE_eq_Inr dest!: vwrite8_more)

lemma paging_map_more: "paging_map virt phys flags s = Inr s' \<Longrightarrow> machine.more s' = machine.more s"
  by (auto simp: paging_map_def Let_def bindE_eq_Inr split: if_splits
      dest!: vwrite_more kmemset32_more mem_phys_alloc_more palloc_more_eq)

lemma kbrk_loop_more: "kbrk_loop n s = Inr s' \<Longrightarrow> kmem.more s' = kmem.more s"
proof (induction n arbitrary: s)
  case (Suc n)
  then show ?case
    by (auto simp: bindE_eq_Inr split: if_splits
        dest!: Suc.IH paging_map_more mem_phys_alloc_more palloc_more_eq machine_more_eq)
qed simp

lemma mem_alloc_more: "mem_alloc fuel sz s = Inr (p, s') \<Longrightarrow> kmem.more s' = kmem.more s"
proof (induction fuel arbitrary: s)
  case (Suc n)
  then show ?case
    by (auto simp: mem_alloc.simps bindE_eq_Inr Let_def kbrk_def simp del: kbrk_loop.simps split: if_splits
        dest!: Suc.IH kbrk_loop_more)
qed (simp add: mem_alloc.simps)

lemma kmalloc_more: "kmalloc fuel sz s = Inr (p, s') \<Longrightarrow> kmem.more s' = kmem.more s"
  by (auto simp: kmalloc_def bindE_eq_Inr Let_def dest!: mem_alloc_more kmemset_more machine_more_eq)

lemma new_object_more: "new_object fuel sz s = Inr (p, s') \<Longrightarrow> kmem.more s' = kmem.more s"
  by (auto simp: new_object_def bindE_eq_Inr dest!: kmalloc_more kmemset_more machine_more_eq)

text \<open>The invariant looks at the memory, the pool and the heap only.\<close>

lemma kmem_ok_cong:
  assumes "memory_map s' = memory_map s" "palloc_lock s' = palloc_lock s" "phys_mem s' = phys_mem s" "cr3 s' = cr3 s"
    "heap s' = heap s" "allocator s' = allocator s"
  shows "kmem_ok s' = kmem_ok s" "frames s' = frames s" "can_alloc sz s' = can_alloc sz s" "vread8 v s' = vread8 v s"
    "mmu_translate v s' = mmu_translate v s" "heap_region s' = heap_region s"
proof -
  have f: "frames s' = frames s" "pdir s' = pdir s" by (simp_all add: frames_def pdir_def assms)
  then have p: "pde i s' = pde i s" for i by (simp add: pde_def assms)
  then have t: "mmu_translate v s' = mmu_translate v s" for v by (simp add: mmu_translate_def pte_slot_def assms)
  show "frames s' = frames s" "mmu_translate v s' = mmu_translate v s" by (rule f t)+
  show r: "heap_region s' = heap_region s" by (simp add: heap_region_def assms)
  show "can_alloc sz s' = can_alloc sz s" by (simp add: can_alloc_def assms f)
  show "vread8 v s' = vread8 v s" by (simp add: vread8_def t assms split: option.split)
  have "private_at q s' = private_at q s" for q by (simp add: private_at_def f p)
  then have "heap_mapped s' = heap_mapped s" by (simp add: heap_mapped_def r t assms)
  then show "kmem_ok s' = kmem_ok s"
    by (simp add: kmem_ok_def dir_ok_def self_mapped_def palloc_ready_def f p r assms)
qed

end
