(* ===== verification/Clone.thy ===== *)
theory Clone
  imports Memory
begin

text \<open>
  Cloning a page directory, \<open>page_dir_clone\<close> of \<^verbatim>\<open>kernel/paging.c\<close>, when the directory that is
  cloned is the current one, as it is when a process is created: afterwards both directories
  translate every address outside the recursive window in the same way.
\<close>

abbreviation (input) OLDDIR :: uint32 where "OLDDIR \<equiv> 0xcccc0000"
abbreviation (input) NEWDIR :: uint32 where "NEWDIR \<equiv> 0xdddd0000"

section \<open>Changes within a private frame\<close>

definition agrees_outside :: "nat \<Rightarrow> (uint32 \<Rightarrow> uint32) \<Rightarrow> (uint32 \<Rightarrow> uint32) \<Rightarrow> bool" where
  "agrees_outside f m n \<longleftrightarrow> (\<forall>a. frame_of a \<noteq> f \<longrightarrow> m a = n a)"

lemma agrees_outside_upd: "agrees_outside f m n \<Longrightarrow> frame_of a = f \<Longrightarrow> agrees_outside f (m(a := x)) n"
  by (auto simp: agrees_outside_def)

lemma pde_private_mem:
  assumes "private_at p s" "agrees_outside (frame_of p) m (phys_mem s)" "unat i < 1024"
  shows "pde i (s\<lparr>phys_mem := m\<rparr>) = pde i s"
  using assms frame_of_slot [OF pdir_aligned assms(3), of s]
  by (simp add: pde_def agrees_outside_def private_at_def pdir_def)

lemma translate_private_mem:
  assumes "private_at p s" "agrees_outside (frame_of p) m (phys_mem s)" "page_dir_index v \<noteq> 1023"
  shows "mmu_translate v (s\<lparr>phys_mem := m\<rparr>) = mmu_translate v s"
proof -
  let ?i = "page_dir_index v"
  note eq = pde_private_mem [OF assms(1,2), of ?i]
  have i: "unat ?i < 1023" using assms(3) by (intro dir_index_less) simp_all
  have "m (pte_slot v s) = phys_mem s (pte_slot v s)" if "pde ?i s AND PAGE_PRESENT \<noteq> 0"
    using that i assms(1,2) frame_of_pte_slot [of v s] unfolding private_at_def agrees_outside_def by metis
  then show ?thesis using eq
    by (cases "pde ?i s AND PAGE_PRESENT = 0") (auto simp: mmu_translate_def pte_slot_def)
qed

section \<open>The copy loop\<close>

text \<open>A page of virtual memory that shows the frame at \<open>b\<close>.\<close>

definition shows_frame :: "uint32 \<Rightarrow> uint32 \<Rightarrow> 'a machine_scheme \<Rightarrow> bool" where
  "shows_frame w b s \<longleftrightarrow> page_aligned w \<and> page_aligned b \<and> page_dir_index w \<noteq> 1023 \<and>
     (\<forall>v. v AND 0xFFFFF000 = w \<longrightarrow> mmu_translate v s = Some (b + (v AND 0xFFF)))"

lemma slot_of_page:
  assumes "page_aligned w" "unat i < 1024"
  shows "(w + 4 * i) AND 0xFFFFF000 = w" "(w + 4 * i) AND 0xFFF = 4 * i" "page_dir_index (w + 4 * i) = page_dir_index w"
proof -
  show page: "(w + 4 * i) AND 0xFFFFF000 = w" "(w + 4 * i) AND 0xFFF = 4 * i"
    using assms by (simp_all add: page_slot_parts)
  show "page_dir_index (w + 4 * i) = page_dir_index w"
    using page(1) same_page_iff [of "w + 4 * i" w] page_base_aligned [OF assms(1)] by simp
qed

lemma shows_frame_slot:
  "shows_frame w b s \<Longrightarrow> unat i < 1024 \<Longrightarrow> mmu_translate (w + 4 * i) s = Some (b + 4 * i)"
  by (simp add: shows_frame_def slot_of_page)

lemma shows_frame_private:
  assumes "shows_frame w b s" "private_at p s" "agrees_outside (frame_of p) m (phys_mem s)"
  shows "shows_frame w b (s\<lparr>phys_mem := m\<rparr>)"
proof -
  have "mmu_translate v (s\<lparr>phys_mem := m\<rparr>) = mmu_translate v s" if "v AND 0xFFFFF000 = w" for v
  proof (rule translate_private_mem [OF assms(2,3)])
    show "page_dir_index v \<noteq> 1023"
      using assms(1) that same_page_iff [of v w] by (simp add: shows_frame_def page_base_aligned)
  qed
  then show ?thesis using assms(1) by (simp add: shows_frame_def)
qed

lemma copy_entries_eq:
  assumes src: "shows_frame src (pdir s) s" and dst: "shows_frame dst nd s" and priv: "private_at nd s"
  shows "agrees_outside (frame_of nd) m (phys_mem s) \<Longrightarrow> unat i + n \<le> 1024 \<Longrightarrow>
    \<exists>m'. copy_entries n i dst src (s\<lparr>phys_mem := m\<rparr>) = Inr (s\<lparr>phys_mem := m'\<rparr>) \<and> agrees_outside (frame_of nd) m' (phys_mem s) \<and>
      (\<forall>j. unat j < 1024 \<longrightarrow> m' (nd + 4 * j) = (if unat i \<le> unat j \<and> unat j < unat i + n then pde j s else m (nd + 4 * j)))"
proof (induction n arbitrary: i m)
  case 0
  then show ?case by (intro exI [of _ m]) auto
next
  case (Suc n)
  let ?s = "s\<lparr>phys_mem := m\<rparr>" and ?m = "m(nd + 4 * i := pde i s)"
  have i: "unat i < 1024" "unat (i + 1) = unat i + 1" using Suc.prems(2) by (auto simp: unat_word_ariths)
  have al: "page_aligned nd" using dst by (simp add: shows_frame_def)
  have f: "shows_frame src (pdir s) ?s" "shows_frame dst nd ?s"
    using shows_frame_private [OF src priv Suc.prems(1)] shows_frame_private [OF dst priv Suc.prems(1)] by auto
  have "m (pdir s + 4 * i) = pde i s" using pde_private_mem [OF priv Suc.prems(1) i(1)] by (simp add: pde_def pdir_def)
  then have "vread (src + 4 * i) ?s = Inr (pde i s)" using shows_frame_slot [OF f(1) i(1)] by (simp add: vread_def)
  moreover have "vwrite (dst + 4 * i) (pde i s) ?s = Inr (s\<lparr>phys_mem := ?m\<rparr>)"
    using shows_frame_slot [OF f(2) i(1)] by (simp add: vwrite_def)
  moreover have "agrees_outside (frame_of nd) ?m (phys_mem s)"
    using Suc.prems(1) frame_of_slot [OF al i(1)] by (intro agrees_outside_upd)
  then have "\<exists>m'. copy_entries n (i + 1) dst src (s\<lparr>phys_mem := ?m\<rparr>) = Inr (s\<lparr>phys_mem := m'\<rparr>) \<and>
      agrees_outside (frame_of nd) m' (phys_mem s) \<and>
      (\<forall>j. unat j < 1024 \<longrightarrow> m' (nd + 4 * j) = (if unat (i + 1) \<le> unat j \<and> unat j < unat (i + 1) + n then pde j s else ?m (nd + 4 * j)))"
    by (rule Suc.IH) (use Suc.prems(2) i(2) in simp)
  then obtain m' where m': "copy_entries n (i + 1) dst src (s\<lparr>phys_mem := ?m\<rparr>) = Inr (s\<lparr>phys_mem := m'\<rparr>)"
      "agrees_outside (frame_of nd) m' (phys_mem s)"
      "\<forall>j. unat j < 1024 \<longrightarrow> m' (nd + 4 * j) = (if unat (i + 1) \<le> unat j \<and> unat j < unat (i + 1) + n then pde j s else ?m (nd + 4 * j))"
    by blast
  moreover have "m' (nd + 4 * j) = (if unat i \<le> unat j \<and> unat j < unat i + Suc n then pde j s else m (nd + 4 * j))"
    if j: "unat j < 1024" for j
  proof (cases "j = i")
    case True
    then show ?thesis using m'(3) i by simp
  next
    case False
    then have "unat j \<noteq> unat i" "nd + 4 * j \<noteq> nd + 4 * i"
      using slot_eq_iff [OF al al j i(1)] by (simp_all add: word_unat_eq_iff)
    then show ?thesis using m'(3) i(2) j by auto
  qed
  ultimately show ?case by (intro exI [of _ m']) simp
qed

section \<open>The clone\<close>

lemma map_again:
  assumes "map_ready s" "page_dir_index virt \<noteq> 1023" "2 \<le> card (frames s)"
  shows "map_ready (map_page virt e s)" "card (frames s) \<le> card (frames (map_page virt e s)) + 1"
proof -
  show "card (frames s) \<le> card (frames (map_page virt e s)) + 1"
    using assms(3) by (auto simp: frames_map_page [OF assms(1)] card_Diff_singleton_if)
  then have "frames (map_page virt e s) \<noteq> {}" using assms(3) by auto
  then show "map_ready (map_page virt e s)"
    using map_page_ok [OF assms(1,2)] assms(1) by (simp add: map_ready_def)
qed

lemma map_shows_frame:
  assumes "map_ready s" "page_aligned w" "page_dir_index w \<noteq> 1023" "page_aligned b" "e AND 0xFFFFF000 = b" "e AND PAGE_PRESENT \<noteq> 0"
  shows "shows_frame w b (map_page w e s)"
  using assms map_page_translate [OF assms(1,3)] same_page_iff [of _ w] by (simp add: shows_frame_def page_base_aligned)

lemma map_other_page:
  assumes "map_ready s" "page_dir_index w \<noteq> 1023" "shows_frame u b s" "u AND 0xFFFFF000 \<noteq> w AND 0xFFFFF000"
    "\<not> twins (page_dir_index u) (page_dir_index w)"
  shows "shows_frame u b (map_page w e s)"
proof -
  have "mmu_translate v (map_page w e s) = mmu_translate v s" if v: "v AND 0xFFFFF000 = u" for v
  proof -
    have i: "page_dir_index v = page_dir_index u" "page_dir_index u \<noteq> 1023" "u AND 0xFFFFF000 = u"
      using assms(3) v same_page_iff [of v u] by (simp_all add: shows_frame_def page_base_aligned)
    then show ?thesis using map_page_translate [OF assms(1,2), of v e] assms(4,5) v by simp
  qed
  then show ?thesis using assms(3) by (simp add: shows_frame_def)
qed

lemma new_frame_private:
  assumes "map_ready s"
  shows "private_at (frame_addr (Min (frames s))) (mem_phys_reserve (frame_addr (Min (frames s))) s)"
proof -
  define p where "p = Min (frames s)"
  have p: "p \<in> frames s" "p < PAGES" using assms Min_frames_mem [of s] by (auto simp: map_ready_def p_def)
  have "dir_ok s" using assms by (simp add: map_ready_def)
  then show ?thesis unfolding p_def [symmetric] using p by (auto simp: dir_ok_def private_at_def)
qed

text \<open>After the two windows are mapped and the entries copied.\<close>

definition with_windows :: "'a machine_scheme \<Rightarrow> 'a machine_scheme" where
  "with_windows s =
     (let nd = frame_addr (Min (frames s)) in
      map_page NEWDIR (page_entry nd 3) (map_page OLDDIR (page_entry (pdir s) 3) (mem_phys_reserve nd s)))"

lemma window_index: "page_dir_index OLDDIR = 819" "page_dir_index NEWDIR = 887"
  "page_aligned OLDDIR" "page_aligned NEWDIR"
  by (simp_all add: page_dir_index_def page_aligned_def)

lemma map_ready_reserve:
  assumes "map_ready s" "2 \<le> card (frames s)"
  shows "map_ready (mem_phys_reserve (frame_addr (Min (frames s))) s)"
proof -
  have "Min (frames s) < PAGES" using two_frames [OF assms(2)] by blast
  then have "card (frames (mem_phys_reserve (frame_addr (Min (frames s))) s)) \<noteq> 0"
    using assms(2) by (auto simp: card_Diff_singleton_if)
  then have "frames (mem_phys_reserve (frame_addr (Min (frames s))) s) \<noteq> {}" by auto
  then show ?thesis using assms(1) dir_ok_reserve [of s] by (simp add: map_ready_def)
qed

lemma with_windows_ok:
  assumes mr: "map_ready s" and card: "4 \<le> card (frames s)"
  defines "nd \<equiv> frame_addr (Min (frames s))" and "w \<equiv> with_windows s"
  shows "map_ready w" "pdir w = pdir s" "cr3 w = cr3 s" "private_at nd w" "shows_frame OLDDIR (pdir s) w" "shows_frame NEWDIR nd w"
    "pde 819 w AND PAGE_PRESENT \<noteq> 0" "pde 887 w AND PAGE_PRESENT \<noteq> 0" "frames w \<subseteq> frames s"
    "page_dir_index v \<noteq> 1023 \<Longrightarrow> v AND 0xFFFFF000 \<noteq> OLDDIR \<Longrightarrow> v AND 0xFFFFF000 \<noteq> NEWDIR \<Longrightarrow>
      mmu_translate v w = mmu_translate v s"
    "map_ready (mem_phys_reserve nd s)" "map_ready (map_page OLDDIR (page_entry (pdir s) 3) (mem_phys_reserve nd s))"
proof -
  let ?r = "mem_phys_reserve nd s"
  let ?a = "map_page OLDDIR (page_entry (pdir s) 3) ?r"
  note i = window_index
  have w: "w = map_page NEWDIR (page_entry nd 3) ?a" by (simp add: w_def with_windows_def nd_def Let_def)
  have P: "Min (frames s) < PAGES" using two_frames [of s] card by simp
  have r: "map_ready ?r" "3 \<le> card (frames ?r)"
    using map_ready_reserve [OF mr] card P by (auto simp: nd_def card_Diff_singleton_if)
  have a: "map_ready ?a" "2 \<le> card (frames ?a)"
    using map_again [OF r(1), of OLDDIR "page_entry (pdir s) 3"] r(2) i by simp_all
  show "map_ready ?r" "map_ready ?a" using r a by blast+
  show "map_ready w" using map_again(1) [OF a(1) _ a(2), of NEWDIR "page_entry nd 3"] i by (simp add: w)
  show "pdir w = pdir s" "cr3 w = cr3 s" by (simp_all add: w)
  have al: "page_aligned nd" "nd AND 0xFFFFF000 = nd" by (simp_all add: nd_def page_base_aligned)
  have "private_at nd ?a" using new_frame_private [OF mr] r(1) i by (intro private_map_page) (simp_all add: nd_def)
  then show "private_at nd w" unfolding w by (rule private_map_page [OF a(1), rotated]) (use i in simp)
  have "shows_frame OLDDIR (pdir s) ?a" using r(1) i by (intro map_shows_frame) (simp_all add: page_base_aligned)
  then show "shows_frame OLDDIR (pdir s) w" unfolding w by (rule map_other_page [OF a(1), rotated]) (use i in simp_all)
  show "shows_frame NEWDIR nd w" unfolding w using a(1) i al by (intro map_shows_frame) simp_all
  have "pde 819 ?a AND PAGE_PRESENT \<noteq> 0" using map_page_pde [OF r(1), of OLDDIR 819 "page_entry (pdir s) 3"] i by simp
  then show "pde 819 w AND PAGE_PRESENT \<noteq> 0" using map_page_pde [OF a(1), of NEWDIR 819 "page_entry nd 3"] i by (simp add: w)
  show "pde 887 w AND PAGE_PRESENT \<noteq> 0" using map_page_pde [OF a(1), of NEWDIR 887 "page_entry nd 3"] i by (simp add: w)
  show "frames w \<subseteq> frames s" using frames_map_page [OF a(1)] frames_map_page [OF r(1)] by (auto simp: w split: if_splits)
  show "mmu_translate v w = mmu_translate v s"
    if "page_dir_index v \<noteq> 1023" "v AND 0xFFFFF000 \<noteq> OLDDIR" "v AND 0xFFFFF000 \<noteq> NEWDIR"
    using that map_page_translate [OF a(1) _ that(1), of NEWDIR] map_page_translate [OF r(1) _ that(1), of OLDDIR] i
    by (simp add: w)
qed

text \<open>
  The windows are removed again. The new directory holds the entries of the old one and maps
  itself.
\<close>

lemma unmap_windows:
  assumes mr: "map_ready s" and p: "pde 819 s AND PAGE_PRESENT \<noteq> 0" "pde 887 s AND PAGE_PRESENT \<noteq> 0"
  defines "u \<equiv> map_page NEWDIR 0 (map_page OLDDIR 0 s)"
  shows "map_ready (map_page OLDDIR 0 s)" "map_ready u" "pdir u = pdir s" "cr3 u = cr3 s" "frames u = frames s"
    "unat i < 1024 \<Longrightarrow> pde i u = pde i s"
    "private_at q s \<Longrightarrow> frame_of a = frame_of q \<Longrightarrow> phys_mem u a = phys_mem s a"
    "page_dir_index v \<noteq> 1023 \<Longrightarrow> mmu_translate v u =
      (if v AND 0xFFFFF000 = OLDDIR \<or> v AND 0xFFFFF000 = NEWDIR then None else mmu_translate v s)"
proof -
  let ?o = "map_page OLDDIR 0 s"
  note ix = window_index
  have o: "frames ?o = frames s" "\<And>i. unat i < 1024 \<Longrightarrow> pde i ?o = pde i s"
    using frames_map_page [OF mr] map_page_pde [OF mr, of OLDDIR] p(1) ix by auto
  then show mo: "map_ready ?o" using mr map_page_ok [OF mr, of OLDDIR] ix by (simp add: map_ready_def)
  have u: "frames u = frames s" "\<And>i. unat i < 1024 \<Longrightarrow> pde i u = pde i s"
    using frames_map_page [OF mo] map_page_pde [OF mo, of NEWDIR] p(2) ix o by (auto simp: u_def)
  then show "frames u = frames s" "unat i < 1024 \<Longrightarrow> pde i u = pde i s" by blast+
  show "map_ready u" using u(1) mo o(1) map_page_ok [OF mo, of NEWDIR] ix by (simp add: map_ready_def u_def)
  show "pdir u = pdir s" "cr3 u = cr3 s" by (simp_all add: u_def)
  show "phys_mem u a = phys_mem s a" if "private_at q s" "frame_of a = frame_of q"
    using map_page_keeps [OF mr _ that, of OLDDIR] map_page_keeps [OF mo _ _ that(2), of NEWDIR]
      private_map_page [OF mr _ that(1), of OLDDIR] ix by (simp add: u_def)
  show "page_dir_index v \<noteq> 1023 \<Longrightarrow> mmu_translate v u =
      (if v AND 0xFFFFF000 = OLDDIR \<or> v AND 0xFFFFF000 = NEWDIR then None else mmu_translate v s)"
    using map_page_translate [OF mo, of NEWDIR v] map_page_translate [OF mr, of OLDDIR v] ix by (simp add: u_def)
qed

lemma copied_dir:
  assumes mr: "map_ready s" and card: "4 \<le> card (frames s)"
  defines "nd \<equiv> frame_addr (Min (frames s))" and "w \<equiv> with_windows s"
  shows "\<exists>m. bindE (copy_entries 1023 0 NEWDIR OLDDIR w) (vwrite (NEWDIR + 4 * 1023) (page_entry nd PAGE_PRESENT)) =
      Inr (w\<lparr>phys_mem := m\<rparr>) \<and> agrees_outside (frame_of nd) m (phys_mem w) \<and>
    m (nd + 4 * 1023) = page_entry nd PAGE_PRESENT \<and> (\<forall>j. unat j < 1023 \<longrightarrow> m (nd + 4 * j) = pde j w)"
proof -
  note win = with_windows_ok [OF mr card, folded nd_def w_def]
  have al: "page_aligned nd" by (simp add: nd_def)
  have "agrees_outside (frame_of nd) (phys_mem w) (phys_mem w)" by (simp add: agrees_outside_def)
  from copy_entries_eq [OF _ win(6,4) this, of OLDDIR 0 1023] win(2,5) obtain m where
      m: "copy_entries 1023 0 NEWDIR OLDDIR w = Inr (w\<lparr>phys_mem := m\<rparr>)" "agrees_outside (frame_of nd) m (phys_mem w)"
      "\<forall>j. unat j < 1024 \<longrightarrow> m (nd + 4 * j) = (if unat j < 1023 then pde j w else phys_mem w (nd + 4 * j))"
    by auto
  let ?m = "m(nd + 4 * 1023 := page_entry nd PAGE_PRESENT)"
  have "shows_frame NEWDIR nd (w\<lparr>phys_mem := m\<rparr>)" using win(6,4) m(2) by (rule shows_frame_private)
  from shows_frame_slot [OF this, of 1023]
  have "vwrite (NEWDIR + 4 * 1023) (page_entry nd PAGE_PRESENT) (w\<lparr>phys_mem := m\<rparr>) = Inr (w\<lparr>phys_mem := ?m\<rparr>)"
    by (simp add: vwrite_def)
  moreover have "agrees_outside (frame_of nd) ?m (phys_mem w)"
    using m(2) frame_of_slot [OF al, of 1023] by (intro agrees_outside_upd) simp_all
  moreover have "?m (nd + 4 * j) = pde j w" if "unat j < 1023" for j
    using m(3) that slot_eq_iff [OF al al, of j 1023] by auto
  ultimately show ?thesis using m(1) by (intro exI [of _ ?m]) simp
qed

lemma page_dir_clone_ok:
  assumes mr: "map_ready s" and card: "4 \<le> card (frames s)" and old: "olddir AND 0xFFFFF000 = pdir s"
  defines "nd \<equiv> frame_addr (Min (frames s))"
  shows "\<exists>s'. page_dir_clone olddir s = Inr (nd, s') \<and> map_ready s' \<and> cr3 s' = cr3 s \<and> frames s' \<subseteq> frames s - {Min (frames s)} \<and>
    (\<forall>v. page_dir_index v \<noteq> 1023 \<longrightarrow> mmu_translate v s' =
      (if v AND 0xFFFFF000 = OLDDIR \<or> v AND 0xFFFFF000 = NEWDIR then None else mmu_translate v s)) \<and>
    map_ready (page_dir_switch nd s') \<and>
    (\<forall>v. page_dir_index v \<noteq> 1023 \<longrightarrow> mmu_translate v (page_dir_switch nd s') = mmu_translate v s')"
proof -
  define w where "w = with_windows s"
  note win = with_windows_ok [OF mr card, folded nd_def w_def]
  obtain m where m: "bindE (copy_entries 1023 0 NEWDIR OLDDIR w) (vwrite (NEWDIR + 4 * 1023) (page_entry nd PAGE_PRESENT)) =
        Inr (w\<lparr>phys_mem := m\<rparr>)" "agrees_outside (frame_of nd) m (phys_mem w)"
      "m (nd + 4 * 1023) = page_entry nd PAGE_PRESENT" "\<forall>j. unat j < 1023 \<longrightarrow> m (nd + 4 * j) = pde j w"
    using copied_dir [OF mr card, folded nd_def w_def] by blast
  let ?c = "w\<lparr>phys_mem := m\<rparr>"
  have c: "pde i ?c = pde i w" if "unat i < 1024" for i using pde_private_mem [OF win(4) m(2) that] .
  have priv: "private_at nd ?c" using win(4) c by (simp add: private_at_def)
  have "dir_ok ?c" by (rule dir_ok_cong [of _ w]) (use win(1) c in \<open>auto simp: map_ready_def\<close>)
  then have mc: "map_ready ?c" using win(1) by (simp add: map_ready_def)
  define u where "u = map_page NEWDIR 0 (map_page OLDDIR 0 ?c)"
  have present: "pde 819 ?c AND PAGE_PRESENT \<noteq> 0" "pde 887 ?c AND PAGE_PRESENT \<noteq> 0" using win(7,8) c by simp_all
  note un = unmap_windows [OF mc present, folded u_def]
  have clone: "page_dir_clone olddir s = Inr (nd, u)"
  proof -
    have "mem_phys_alloc s = Inr (nd, mem_phys_reserve nd s)"
      using mr by (simp add: nd_def mem_phys_alloc_lowest map_ready_def)
    moreover have "paging_map OLDDIR (olddir AND 0xFFFFF000) 3 (mem_phys_reserve nd s) =
        Inr (map_page OLDDIR (page_entry (pdir s) 3) (mem_phys_reserve nd s))"
      using win(11) old window_index by (simp add: paging_map_eq)
    moreover have "paging_map NEWDIR (nd AND 0xFFFFF000) 3 (map_page OLDDIR (page_entry (pdir s) 3) (mem_phys_reserve nd s)) = Inr w"
      using win(12) window_index by (simp add: paging_map_eq w_def with_windows_def nd_def page_base_aligned Let_def)
    moreover have "paging_map OLDDIR 0 0 ?c = Inr (map_page OLDDIR 0 ?c)"
      "paging_map NEWDIR 0 0 (map_page OLDDIR 0 ?c) = Inr u"
      using mc un(1) window_index by (simp_all add: paging_map_eq u_def page_entry_def)
    ultimately show ?thesis using m(1) by (auto simp: page_dir_clone_def Let_def bindE_def split: sum.splits)
  qed
  let ?t = "page_dir_switch nd u"
  have al: "page_aligned nd" "nd AND 0xFFFFF000 = nd" by (simp_all add: nd_def page_base_aligned)
  have pt: "pdir ?t = nd" "phys_mem ?t = phys_mem u" "frames ?t = frames u" "palloc_ready ?t = palloc_ready u"
    using al by (simp_all add: page_dir_switch_def pdir_def frames_def palloc_ready_def)
  have mem: "phys_mem u (nd + 4 * j) = m (nd + 4 * j)" if "unat j < 1024" for j
    using un(7) [OF priv, of "nd + 4 * j"] frame_of_slot [OF al(1) that] by simp
  have pde: "pde j ?t = pde j u" if "unat j < 1023" for j
    using mem [of j] m(4) that un(6) [of j] c [of j] by (simp add: pde_def [of j ?t] pt)
  have self: "pde 1023 ?t = page_entry nd PAGE_PRESENT" using mem [of 1023] m(3) by (simp add: pde_def pt)
  have tr: "mmu_translate v ?t = mmu_translate v u" if "page_dir_index v \<noteq> 1023" for v
    using pde [of "page_dir_index v"] that dir_index_less [of "page_dir_index v"]
    by (simp add: mmu_translate_def pte_slot_def pt)
  have mu: "map_ready u" by (rule un(2))
  have nd: "frame_of nd = Min (frames s)" using Min_frames_mem [of s] mr by (simp add: nd_def map_ready_def)
  have fr: "frames u \<subseteq> frames s - {Min (frames s)}"
    using un(5) win(9,4) nd by (auto simp: private_at_def)
  have "dir_ok ?t"
  proof -
    have "frame_of (pde i u) \<noteq> frame_of nd" if "unat i < 1023" "pde i u AND PAGE_PRESENT \<noteq> 0" for i
      using priv that un(6) [of i] by (auto simp: private_at_def)
    then have ne: "pde i u AND 0xFFFFF000 \<noteq> nd" if "unat i < 1023" "pde i u AND PAGE_PRESENT \<noteq> 0" for i
      using that frame_of_base [of "pde i u"] by metis
    have "dir_ok u" using mu by (simp add: map_ready_def)
    then show ?thesis unfolding dir_ok_def self_mapped_def pt self using pde ne fr nd al(2)
      by auto
  qed
  then have "map_ready ?t" using mu by (simp add: map_ready_def pt)
  moreover have "mmu_translate v u = (if v AND 0xFFFFF000 = OLDDIR \<or> v AND 0xFFFFF000 = NEWDIR then None else mmu_translate v s)"
    if "page_dir_index v \<noteq> 1023" for v
    using un(8) [OF that] translate_private_mem [OF win(4) m(2) that] win(10) [OF that] by simp
  ultimately show ?thesis using clone mu fr tr un(4) win(3) by (intro exI [of _ u]) simp
qed

end
