(* ===== verification/Util.thy ===== *)
theory Util
  imports Memory
begin

text \<open>
  The utilities of \<^verbatim>\<open>kernel/util.c\<close>. The memset family is in \<open>Paging\<close> and \<open>Memory\<close>, where it is used
  first. A string is given by the function that reads its bytes, counted from its address: the
  read may fault. \<open>cstring f xs\<close> says that it holds the bytes \<open>xs\<close> and then a zero. The \<^verbatim>\<open>char\<close> of
  the compiler is signed, so strings are compared as signed bytes.
\<close>

section \<open>Strings\<close>

type_synonym reader = "nat \<Rightarrow> uint8 res"

fun kstrcmp_from :: "nat \<Rightarrow> reader \<Rightarrow> reader \<Rightarrow> nat \<Rightarrow> int res" where
  "kstrcmp_from 0 str1 str2 i = Inl Diverges"
| "kstrcmp_from (Suc fuel) str1 str2 i =
     bindE (str1 i) (\<lambda>a. bindE (str2 i) (\<lambda>b.
     if a = b \<and> a \<noteq> 0 \<and> b \<noteq> 0 then kstrcmp_from fuel str1 str2 (Suc i)
     else Inr (if a = b then 0 else if sint a < sint b then - 1 else 1)))"

definition kstrcmp :: "nat \<Rightarrow> reader \<Rightarrow> reader \<Rightarrow> int res" where
  "kstrcmp fuel str1 str2 = kstrcmp_from fuel str1 str2 0"

fun ksubstr_from :: "nat \<Rightarrow> reader \<Rightarrow> reader \<Rightarrow> nat \<Rightarrow> int res" where
  "ksubstr_from 0 str1 str2 i = Inl Diverges"
| "ksubstr_from (Suc fuel) str1 str2 i =
     bindE (str1 i) (\<lambda>a. bindE (str2 i) (\<lambda>b.
     if a = b \<and> a \<noteq> 0 \<and> b \<noteq> 0 then ksubstr_from fuel str1 str2 (Suc i)
     else Inr (if a = b then 1 else if a = 0 \<or> b = 0 then 1 else 0)))"

definition ksubstr :: "nat \<Rightarrow> reader \<Rightarrow> reader \<Rightarrow> int res" where
  "ksubstr fuel str1 str2 = ksubstr_from fuel str1 str2 0"

text \<open>\<open>kstrncpy\<close> into an array: the byte is stored before the count is tested.\<close>

primrec kstrncpy_from :: "nat \<Rightarrow> reader \<Rightarrow> nat \<Rightarrow> (nat \<Rightarrow> uint8) \<Rightarrow> (nat \<Rightarrow> uint8) res" where
  "kstrncpy_from 0 source i destination = bindE (source i) (\<lambda>c. Inr (destination(i := c)))"
| "kstrncpy_from (Suc count) source i destination =
     bindE (source i) (\<lambda>c.
     let destination = destination(i := c)
     in if c \<noteq> 0 then kstrncpy_from count source (Suc i) destination else Inr destination)"

definition kstrncpy :: "nat \<Rightarrow> reader \<Rightarrow> (nat \<Rightarrow> uint8) \<Rightarrow> (nat \<Rightarrow> uint8) res" where
  "kstrncpy count source destination = kstrncpy_from count source 0 destination"

text \<open>\<open>kmemcpy\<close>: the loop runs while \<open>source\<close> is below its end, and the advanced destination is returned.\<close>

fun kmemcpy_loop :: "nat \<Rightarrow> ptr \<Rightarrow> ptr \<Rightarrow> ptr \<Rightarrow> 'a machine_scheme \<Rightarrow> (ptr \<times> 'a machine_scheme) res" where
  "kmemcpy_loop 0 destination source e s = (if source < e then Inl Diverges else Inr (destination, s))"
| "kmemcpy_loop (Suc fuel) destination source e s =
     (if source < e
      then bindE (vread8 source s) (\<lambda>x. bindE (vwrite8 destination x s) (kmemcpy_loop fuel (destination + 1) (source + 1) e))
      else Inr (destination, s))"

definition kmemcpy :: "ptr \<Rightarrow> ptr \<Rightarrow> uint32 \<Rightarrow> 'a machine_scheme \<Rightarrow> (ptr \<times> 'a machine_scheme) res" where
  "kmemcpy destination source count s = kmemcpy_loop (unat count) destination source (source + count) s"

definition truncate_int :: "int \<Rightarrow> int \<Rightarrow> int \<Rightarrow> int" where
  "truncate_int v lo hi = (if v > hi then hi else if v < lo then lo else v)"

section \<open>Numbers and formats\<close>

definition digits :: "uint8 list" where
  "digits = [48, 49, 50, 51, 52, 53, 54, 55, 56, 57, 97, 98, 99, 100, 101, 102]"

partial_function (option) i2s_loop :: "uint32 \<Rightarrow> uint32 \<Rightarrow> uint8 list \<Rightarrow> uint8 list option" where
  "i2s_loop base n buf =
     (let buf = buf @ [digits ! unat (n mod base)];
          n = n div base
      in if 0 < n then i2s_loop base n buf else Some buf)"

text \<open>The copy runs backwards through \<open>buf\<close> and stops with the zero at its start.\<close>

fun copy_back :: "uint8 list \<Rightarrow> uint8 list" where
  "copy_back [] = []"
| "copy_back (c # cs) = (if c = 0 then [0] else c # copy_back cs)"

text \<open>\<open>int2str\<close> for bases from 2 to 16: the bytes written to \<open>str\<close>, and the result; \<open>buf\<close> has 32 bytes.\<close>

definition int2str :: "uint32 \<Rightarrow> uint32 \<Rightarrow> (uint8 list \<times> nat) res" where
  "int2str n base =
     bindE (of_loop (i2s_loop base n [0])) (\<lambda>buf.
     if 32 < length buf then Inl OutOfBounds else Inr (copy_back (rev buf), length buf))"

text \<open>The bytes of a string argument.\<close>

fun str_at :: "nat \<Rightarrow> (ptr \<Rightarrow> uint8) \<Rightarrow> ptr \<Rightarrow> uint8 list res" where
  "str_at 0 m p = Inl Diverges"
| "str_at (Suc fuel) m p = (if m p = 0 then Inr [] else bindE (str_at fuel m (p + 1)) (\<lambda>cs. Inr (m p # cs)))"

text \<open>
  \<open>kprintf\<close>: the bytes written to \<open>str\<close>, for a format (without its final zero), the words on the stack
  after it and the memory the string arguments point to. A percent sign at the end of the
  format makes the code step over the final zero.
\<close>

definition format_arg :: "nat \<Rightarrow> (ptr \<Rightarrow> uint8) \<Rightarrow> uint8 \<Rightarrow> uint32 \<Rightarrow> uint8 list res" where
  "format_arg fuel m d a =
     (if d = 99 then Inr [ucast a]
      else if d = 105 then bindE (int2str a 10) (\<lambda>(cs, n). Inr (take (n - 1) cs))
      else if d = 120 then bindE (int2str a 16) (\<lambda>(cs, n). Inr ([48, 120] @ take (n - 1) cs))
      else if d = 98 then bindE (int2str a 2) (\<lambda>(cs, n). Inr (take (n - 1) cs))
      else if d = 115 then str_at fuel m a
      else Inr [])"

fun kprintf :: "nat \<Rightarrow> (ptr \<Rightarrow> uint8) \<Rightarrow> uint8 list \<Rightarrow> uint32 list \<Rightarrow> uint8 list res" where
  "kprintf fuel m [] args = Inr [0]"
| "kprintf fuel m (c # cs) args =
     (if c \<noteq> 37 then bindE (kprintf fuel m cs args) (\<lambda>r. Inr (c # r))
      else case cs of
        [] \<Rightarrow> Inl OutOfBounds
      | d # cs \<Rightarrow> (case args of
          [] \<Rightarrow> Inl OutOfBounds
        | a # args \<Rightarrow> bindE (format_arg fuel m d a) (\<lambda>o1. bindE (kprintf fuel m cs args) (\<lambda>o2. Inr (o1 @ o2)))))"

section \<open>Words at any address\<close>

text \<open>Loads and stores of the compiler for words that need not be aligned, as bytes in little-endian order.\<close>

definition vread16 :: "ptr \<Rightarrow> 'a machine_scheme \<Rightarrow> uint16 res" where
  "vread16 p s = bindE (vread8 p s) (\<lambda>a. bindE (vread8 (p + 1) s) (\<lambda>b. Inr (ucast a OR push_bit 8 (ucast b))))"

definition vread32 :: "ptr \<Rightarrow> 'a machine_scheme \<Rightarrow> uint32 res" where
  "vread32 p s = bindE (vread16 p s) (\<lambda>a. bindE (vread16 (p + 2) s) (\<lambda>b. Inr (ucast a OR push_bit 16 (ucast b))))"

definition vwrite16 :: "ptr \<Rightarrow> uint16 \<Rightarrow> 'a machine_scheme \<Rightarrow> 'a machine_scheme res" where
  "vwrite16 p x s = bindE (vwrite8 p (ucast x) s) (vwrite8 (p + 1) (ucast (drop_bit 8 x)))"

definition vwrite32 :: "ptr \<Rightarrow> uint32 \<Rightarrow> 'a machine_scheme \<Rightarrow> 'a machine_scheme res" where
  "vwrite32 p x s = bindE (vwrite16 p (ucast x) s) (vwrite16 (p + 2) (ucast (drop_bit 16 x)))"

section \<open>Comparison\<close>

definition cstring :: "reader \<Rightarrow> uint8 list \<Rightarrow> bool" where
  "cstring f xs \<longleftrightarrow> (\<forall>i<length xs. f i = Inr (xs ! i)) \<and> f (length xs) = Inr 0 \<and> 0 \<notin> set xs"

text \<open>The order of strings of signed bytes, where the end counts as zero.\<close>

fun compare :: "uint8 list \<Rightarrow> uint8 list \<Rightarrow> int" where
  "compare [] [] = 0"
| "compare [] (y # ys) = (if 0 < sint y then - 1 else 1)"
| "compare (x # xs) [] = (if sint x < 0 then - 1 else 1)"
| "compare (x # xs) (y # ys) = (if x = y then compare xs ys else if sint x < sint y then - 1 else 1)"

lemma compare_0: "compare xs ys = 0 \<longleftrightarrow> xs = ys"
  by (induction xs ys rule: compare.induct) auto

lemma compare_swap: "0 \<notin> set xs \<Longrightarrow> 0 \<notin> set ys \<Longrightarrow> compare ys xs = - compare xs ys"
  by (induction xs ys rule: compare.induct) (auto simp: signed_eq_0_iff linorder_not_less order_le_less dest: signed_word_eqI)

lemma cstring_at:
  assumes "cstring f xs" "i \<le> length xs"
  shows "f i = Inr (case drop i xs of [] \<Rightarrow> 0 | c # _ \<Rightarrow> c)"
proof (cases "i = length xs")
  case False
  then have "drop i xs = xs ! i # drop (Suc i) xs" using assms(2) by (simp add: Cons_nth_drop_Suc)
  then show ?thesis using assms False by (simp add: cstring_def)
qed (use assms in \<open>simp add: cstring_def\<close>)

lemma kstrcmp_from_eq:
  assumes "cstring f xs" "cstring g ys"
  shows "i \<le> length xs \<Longrightarrow> i \<le> length ys \<Longrightarrow> min (length xs) (length ys) - i < fuel \<Longrightarrow>
    kstrcmp_from fuel f g i = Inr (compare (drop i xs) (drop i ys))"
proof (induction fuel arbitrary: i)
  case (Suc n)
  note f = cstring_at [OF assms(1) Suc.prems(1)] and g = cstring_at [OF assms(2) Suc.prems(2)]
  have nz: "c \<noteq> 0" if "c \<in> set (drop i xs) \<union> set (drop i ys)" for c
    using assms that by (auto simp: cstring_def dest: in_set_dropD)
  show ?case
  proof (cases "drop i xs"; cases "drop i ys")
    fix x xs' y ys' assume d: "drop i xs = x # xs'" "drop i ys = y # ys'"
    have "i < length xs" "i < length ys" using d drop_all [of xs i] drop_all [of ys i] by (fastforce simp: not_le [symmetric])+
    moreover have "drop (Suc i) xs = xs'" "drop (Suc i) ys = ys'" using d by (simp_all add: drop_Suc drop_tl)
    ultimately have "Suc i \<le> length xs" "Suc i \<le> length ys" "drop (Suc i) xs = xs'" "drop (Suc i) ys = ys'" by simp_all
    then show ?thesis using f g d nz Suc by auto
  qed (use f g nz in auto)
qed simp

lemma kstrcmp_eq:
  assumes "cstring f xs" "cstring g ys" "min (length xs) (length ys) < fuel"
  shows "kstrcmp fuel f g = Inr (compare xs ys)"
  using kstrcmp_from_eq [OF assms(1,2), of 0 fuel] assms(3) by (simp add: kstrcmp_def)

text \<open>\<open>ksubstr\<close> accepts two strings when one is an initial part of the other.\<close>

lemma ksubstr_from_eq:
  assumes "cstring f xs" "cstring g ys"
  shows "i \<le> length xs \<Longrightarrow> i \<le> length ys \<Longrightarrow> min (length xs) (length ys) - i < fuel \<Longrightarrow>
    ksubstr_from fuel f g i =
      Inr (if \<exists>zs. drop i xs = drop i ys @ zs \<or> drop i ys = drop i xs @ zs then 1 else 0)"
proof (induction fuel arbitrary: i)
  case (Suc n)
  note f = cstring_at [OF assms(1) Suc.prems(1)] and g = cstring_at [OF assms(2) Suc.prems(2)]
  have nz: "c \<noteq> 0" if "c \<in> set (drop i xs) \<union> set (drop i ys)" for c
    using assms that by (auto simp: cstring_def dest: in_set_dropD)
  show ?case
  proof (cases "drop i xs"; cases "drop i ys")
    fix x xs' y ys' assume d: "drop i xs = x # xs'" "drop i ys = y # ys'"
    have "i < length xs" "i < length ys" using d drop_all [of xs i] drop_all [of ys i] by (fastforce simp: not_le [symmetric])+
    moreover have "drop (Suc i) xs = xs'" "drop (Suc i) ys = ys'" using d by (simp_all add: drop_Suc drop_tl)
    ultimately have "Suc i \<le> length xs" "Suc i \<le> length ys" "drop (Suc i) xs = xs'" "drop (Suc i) ys = ys'" by simp_all
    then show ?thesis using f g d nz Suc by auto
  qed (use f g nz in auto)
qed simp

lemma ksubstr_eq:
  assumes "cstring f xs" "cstring g ys" "min (length xs) (length ys) < fuel"
  shows "ksubstr fuel f g = Inr (if \<exists>zs. xs = ys @ zs \<or> ys = xs @ zs then 1 else 0)"
  using ksubstr_from_eq [OF assms(1,2), of 0 fuel] assms(3) by (simp add: ksubstr_def)

section \<open>Copying\<close>

text \<open>A string that is not longer than the count is copied with its final zero and nothing else is changed.\<close>

lemma kstrncpy_from_eq:
  assumes "cstring f xs"
  shows "i \<le> length xs \<Longrightarrow> kstrncpy_from n f i d =
    Inr (\<lambda>j. if i \<le> j \<and> j \<le> i + n \<and> j \<le> length xs then (if j < length xs then xs ! j else 0) else d j)"
proof (induction n arbitrary: i d)
  case 0
  then have "f i = Inr (if i < length xs then xs ! i else 0)" using assms by (auto simp: cstring_def)
  then show ?case using 0 by (auto simp: fun_eq_iff)
next
  case (Suc n)
  have nz: "xs ! j \<noteq> 0" if "j < length xs" for j using assms that by (auto simp: cstring_def in_set_conv_nth)
  show ?case
  proof (cases "i < length xs")
    case True
    then have "f i = Inr (xs ! i)" using assms by (simp add: cstring_def)
    moreover have "kstrncpy_from n f (Suc i) (d(i := xs ! i)) =
      Inr (\<lambda>j. if Suc i \<le> j \<and> j \<le> Suc i + n \<and> j \<le> length xs then (if j < length xs then xs ! j else 0) else (d(i := xs ! i)) j)"
      using True by (intro Suc.IH) simp
    ultimately show ?thesis using nz [OF True] True by (auto simp: Let_def fun_eq_iff)
  next
    case False
    then have i: "i = length xs" using Suc.prems by simp
    then have "f i = Inr 0" using assms by (simp add: cstring_def)
    then show ?thesis using i by (auto simp: fun_eq_iff)
  qed
qed

lemma kstrncpy_eq:
  "cstring f xs \<Longrightarrow> kstrncpy n f d =
    Inr (\<lambda>j. if j \<le> n \<and> j \<le> length xs then (if j < length xs then xs ! j else 0) else d j)"
  using kstrncpy_from_eq [of f xs 0 n d] by (simp add: kstrncpy_def)

section \<open>Decimal and hexadecimal numbers\<close>

text \<open>The digits of a number, the least significant one first.\<close>

function lsd :: "nat \<Rightarrow> nat \<Rightarrow> nat list" where
  "lsd b n = (n mod b) # (if n div b = 0 \<or> b < 2 then [] else lsd b (n div b))"
  by pat_completeness auto
termination by (relation "measure snd") (auto intro!: div_less_dividend gr0I simp: not_less Suc_le_eq)

declare lsd.simps [simp del]

lemma i2s_loop_eq:
  assumes "2 \<le> unat base"
  shows "i2s_loop base n buf = Some (buf @ map (nth digits) (lsd (unat base) (unat n)))"
proof (induction "unat n" arbitrary: n buf rule: less_induct)
  case less
  have d: "unat (n div base) = unat n div unat base" "unat (n mod base) = unat n mod unat base"
    by (simp_all add: unat_div unat_mod)
  show ?case
  proof (cases "unat n div unat base = 0")
    case True
    then have "n div base = 0" using d(1) by (simp add: unat_eq_zero)
    then show ?thesis using True d by (subst i2s_loop.simps, subst lsd.simps) (simp add: Let_def)
  next
    case False
    then have "0 < n div base" using d(1) by (simp add: word_gt_0 unat_eq_zero [symmetric] del: unat_eq_zero)
    moreover have "unat (n div base) < unat n"
      using False assms d(1) by (auto intro!: div_less_dividend gr0I simp: div_eq_0_iff)
    ultimately show ?thesis using less.hyps [of "n div base"] False d assms
      by (subst i2s_loop.simps, subst lsd.simps) (simp add: Let_def)
  qed
qed

lemma lsd_props:
  assumes "2 \<le> b"
  shows "lsd b n \<noteq> []" "foldr (\<lambda>d v. v * b + d) (lsd b n) 0 = n" "\<forall>d\<in>set (lsd b n). d < b"
    "n \<noteq> 0 \<Longrightarrow> last (lsd b n) \<noteq> 0"
proof -
  have "lsd b n \<noteq> [] \<and> foldr (\<lambda>d v. v * b + d) (lsd b n) 0 = n \<and> (\<forall>d\<in>set (lsd b n). d < b) \<and> (n \<noteq> 0 \<longrightarrow> last (lsd b n) \<noteq> 0)"
  proof (induction n rule: less_induct)
    case (less n)
    show ?case
    proof (cases "n div b = 0")
      case True
      then have "n mod b = n" using div_mult_mod_eq [of n b] by simp
      then show ?thesis using True assms mod_less_divisor [of b n] by (subst (1 2 3 4) lsd.simps) simp
    next
      case False
      then have "n div b < n" using assms by (auto intro!: div_less_dividend gr0I)
      from less [OF this] show ?thesis
        using False assms mod_less_divisor [of b n] div_mult_mod_eq [of n b] by (subst (1 2 3 4) lsd.simps) simp
    qed
  qed
  then show "lsd b n \<noteq> []" "foldr (\<lambda>d v. v * b + d) (lsd b n) 0 = n" "\<forall>d\<in>set (lsd b n). d < b"
    "n \<noteq> 0 \<Longrightarrow> last (lsd b n) \<noteq> 0" by blast+
qed

lemma length_lsd: "2 \<le> b \<Longrightarrow> length (lsd b n) \<le> Suc k \<longleftrightarrow> n < b ^ Suc k"
proof (induction k arbitrary: n)
  case 0
  then show ?case by (subst lsd.simps) (simp add: div_eq_0_iff, subst lsd.simps, simp)
next
  case (Suc k)
  show ?case
  proof (cases "n div b = 0")
    case True
    then have "n < b" using Suc.prems by (simp add: div_eq_0_iff)
    also have "b \<le> b ^ Suc (Suc k)" using Suc.prems self_le_power [of b "Suc (Suc k)"] by simp
    finally show ?thesis using True by (subst lsd.simps) simp
  next
    case False
    then have "length (lsd b n) \<le> Suc (Suc k) \<longleftrightarrow> length (lsd b (n div b)) \<le> Suc k"
      using Suc.prems by (subst lsd.simps) simp
    also have "\<dots> \<longleftrightarrow> n div b < b ^ Suc k" using Suc by blast
    also have "\<dots> \<longleftrightarrow> n < b ^ Suc (Suc k)" using Suc.prems by (simp add: div_less_iff_less_mult mult.commute)
    finally show ?thesis .
  qed
qed

lemma copy_back_rev: "0 \<notin> set cs \<Longrightarrow> copy_back (cs @ [0]) = cs @ [0]"
  by (induction cs) auto

text \<open>What \<open>int2str\<close> writes, read as a number again.\<close>

definition digit_value :: "uint8 \<Rightarrow> nat" where
  "digit_value c = (if c < 58 then unat c - 48 else unat c - 87)"

definition number_value :: "nat \<Rightarrow> uint8 list \<Rightarrow> nat" where
  "number_value b cs = foldl (\<lambda>v c. v * b + digit_value c) 0 cs"

lemma digits_all: "\<forall>d\<in>set [0..<16]. digit_value (digits ! d) = d \<and> digits ! d \<noteq> 0"
  by code_simp

lemma digit_value_digits: "d < 16 \<Longrightarrow> digit_value (digits ! d) = d" and digits_nonzero: "d < 16 \<Longrightarrow> digits ! d \<noteq> 0"
  using digits_all by auto

lemma number_value_digits:
  "\<forall>d\<in>set ds. d < 16 \<Longrightarrow> number_value b (map (nth digits) (rev ds)) = foldr (\<lambda>d v. v * b + d) ds 0"
  by (induction ds) (simp_all add: number_value_def digit_value_digits)

lemma int2str_eq:
  fixes n :: uint32
  assumes b: "2 \<le> unat base" "unat base \<le> 16"
  defines "cs \<equiv> map (nth digits) (rev (lsd (unat base) (unat n)))"
  shows "int2str n base = (if length cs \<le> 31 then Inr (cs @ [0], length cs + 1) else Inl OutOfBounds)"
    "number_value (unat base) cs = unat n" "cs \<noteq> []" "n \<noteq> 0 \<Longrightarrow> hd cs \<noteq> digits ! 0"
    "length cs \<le> Suc k \<longleftrightarrow> unat n < unat base ^ Suc k"
proof -
  note p = lsd_props [OF b(1), of "unat n"]
  have l: "\<forall>d\<in>set (lsd (unat base) (unat n)). d < 16" using p(3) b(2) by force
  then have "0 \<notin> set cs" by (auto simp: cs_def dest!: digits_nonzero)
  then have "copy_back (rev (0 # map (nth digits) (lsd (unat base) (unat n)))) = cs @ [0]"
    using copy_back_rev [of cs] by (simp add: cs_def rev_map)
  then show "int2str n base = (if length cs \<le> 31 then Inr (cs @ [0], length cs + 1) else Inl OutOfBounds)"
    by (auto simp: int2str_def i2s_loop_eq [OF b(1)] of_loop_def cs_def)
  show "number_value (unat base) cs = unat n" using number_value_digits [OF l] p(2) by (simp add: cs_def)
  show "cs \<noteq> []" using p(1) by (simp add: cs_def)
  show "hd cs \<noteq> digits ! 0" if "n \<noteq> 0"
  proof -
    have "last (lsd (unat base) (unat n)) \<noteq> 0" using p(4) that by (simp add: unat_eq_zero)
    moreover have "last (lsd (unat base) (unat n)) < 16" using l p(1) by simp
    ultimately have "digits ! last (lsd (unat base) (unat n)) \<noteq> digits ! 0" using digit_value_digits by (metis zero_less_numeral)
    then show ?thesis using p(1) by (simp add: cs_def hd_map hd_rev)
  qed
  show "length cs \<le> Suc k \<longleftrightarrow> unat n < unat base ^ Suc k" using length_lsd [OF b(1)] by (simp add: cs_def)
qed

end
