(* ===== verification/Message.thy ===== *)
theory Message
  imports Util
begin

text \<open>
  Messages, \<^verbatim>\<open>kernel/message.c\<close>: a copy of a buffer in the kernel heap with its length. \<^verbatim>\<open>struct message\<close> has the length at offset 0
  and the address of the copy at offset 4.
\<close>

section \<open>Operations\<close>

definition message_alloc :: "nat \<Rightarrow> uint32 \<Rightarrow> ptr \<Rightarrow> 'a kmem_scheme \<Rightarrow> (ptr \<times> 'a kmem_scheme) res" where
  "message_alloc fuel len src s =
     bindE (new_object fuel 8 s) (\<lambda>(result, s).
     bindE (vwrite32 result len s) (\<lambda>s.
     bindE (kmalloc fuel len s) (\<lambda>(p, s).
     bindE (vwrite32 (result + 4) p s) (\<lambda>s.
     bindE (kmemcpy p src len s) (\<lambda>(_, s). Inr (result, s))))))"

definition message_free :: "ptr \<Rightarrow> 'a kmem_scheme \<Rightarrow> 'a kmem_scheme res" where
  "message_free this s =
     bindE (vread32 (this + 4) s) (\<lambda>p.
     bindE (vread32 this s) (\<lambda>len.
     bindE (kfree p len s) (kfree this 8)))"

section \<open>Bytes of the heap\<close>

fun put_bytes :: "ptr \<Rightarrow> uint8 list \<Rightarrow> 'a machine_scheme \<Rightarrow> 'a machine_scheme res" where
  "put_bytes p [] s = Inr s"
| "put_bytes p (b # bs) s = bindE (vwrite8 p b s) (put_bytes (p + 1) bs)"

text \<open>What a state has in the heap after \<open>bs\<close> was stored at \<open>p\<close>.\<close>

definition stored_at :: "ptr \<Rightarrow> uint8 list \<Rightarrow> 'a kmem_scheme \<Rightarrow> 'a kmem_scheme \<Rightarrow> bool" where
  "stored_at p bs s s' \<longleftrightarrow> (\<exists>m. s' = s\<lparr>phys_mem := m\<rparr>) \<and> kmem_ok s' \<and>
     (\<forall>w\<in>heap_region s. vread8 w s' = (if unat p \<le> unat w \<and> unat w < unat p + length bs then Inr (bs ! (unat w - unat p)) else vread8 w s))"

lemma heap_region_phys [simp]: "heap_region (s\<lparr>phys_mem := m\<rparr>) = heap_region s"
  by (simp add: heap_region_def)

lemma put_bytes_heap:
  assumes "kmem_ok s" "HEAP_START \<le> p" "unat p + length bs \<le> unat (heap s)"
  shows "\<exists>s'. put_bytes p bs s = Inr s' \<and> stored_at p bs s s'"
  using assms
proof (induction bs arbitrary: p s)
  case Nil
  then show ?case by (auto simp: stored_at_def intro: exI [of _ "phys_mem s"])
next
  case (Cons b bs)
  have v: "p \<in> heap_region s" using Cons.prems by (simp add: heap_region_def word_less_nat_alt)
  have u: "unat (p + 1) = unat p + 1" using Cons.prems(3) unat32_less [of "heap s"] by (simp add: unat_word_ariths)
  obtain m1 where m1: "vwrite8 p b s = Inr (s\<lparr>phys_mem := m1\<rparr>)" "kmem_ok (s\<lparr>phys_mem := m1\<rparr>)"
      "\<forall>w\<in>heap_region s. vread8 w (s\<lparr>phys_mem := m1\<rparr>) = (if w = p then Inr b else vread8 w s)"
    using vwrite8_heap [OF Cons.prems(1) v] by blast
  have "HEAP_START \<le> p + 1" using Cons.prems(2) u by (simp add: word_le_nat_alt)
  then obtain s' where s': "put_bytes (p + 1) bs (s\<lparr>phys_mem := m1\<rparr>) = Inr s'" "stored_at (p + 1) bs (s\<lparr>phys_mem := m1\<rparr>) s'"
    using Cons.IH [OF m1(2), of "p + 1"] Cons.prems(3) u by auto
  have "vread8 w s' = (if unat p \<le> unat w \<and> unat w < unat p + length (b # bs) then Inr ((b # bs) ! (unat w - unat p)) else vread8 w s)"
    if w: "w \<in> heap_region s" for w
  proof -
    have "vread8 w s' = (if unat p + 1 \<le> unat w \<and> unat w < unat p + 1 + length bs then Inr (bs ! (unat w - (unat p + 1))) else vread8 w (s\<lparr>phys_mem := m1\<rparr>))"
      using s'(2) w by (simp add: stored_at_def u)
    moreover have "w = p \<longleftrightarrow> unat w = unat p" by (simp add: word_unat_eq_iff)
    ultimately show ?thesis using m1(3) w by (auto simp: nth_Cons')
  qed
  moreover have "\<exists>m. s' = s\<lparr>phys_mem := m\<rparr>" "kmem_ok s'" using s'(2) by (auto simp: stored_at_def)
  ultimately show ?case using s'(1) m1(1) by (auto simp: stored_at_def)
qed

text \<open>A word is four bytes.\<close>

definition word_bytes :: "uint32 \<Rightarrow> uint8 list" where
  "word_bytes x = [ucast x, ucast (drop_bit 8 x), ucast (drop_bit 16 x), ucast (drop_bit 24 x)]"

lemma vwrite16_fun: "vwrite16 p y = (\<lambda>s. bindE (vwrite8 p (ucast y) s) (vwrite8 (p + 1) (ucast (drop_bit 8 y))))"
  by (rule ext) (simp add: vwrite16_def)

lemma put_bytes_fun: "put_bytes p (b # bs) = (\<lambda>s. bindE (vwrite8 p b s) (put_bytes (p + 1) bs))" "put_bytes p [] = Inr"
  by (rule ext; simp)+

lemma bindE_unit: "bindE r Inr = r"
  by (cases r) simp_all

lemma vwrite32_bytes: "vwrite32 p x = put_bytes p (word_bytes x)"
proof (rule ext)
  fix s :: "'a machine_scheme"
  have "ucast (drop_bit 8 (ucast x :: uint16)) = (ucast (drop_bit 8 x) :: uint8)"
    "ucast (drop_bit 8 (ucast (drop_bit 16 x) :: uint16)) = (ucast (drop_bit 24 x) :: uint8)"
    "ucast (ucast x :: uint16) = (ucast x :: uint8)" "ucast (ucast (drop_bit 16 x) :: uint16) = (ucast (drop_bit 16 x) :: uint8)"
    by (rule bit_word_eqI; auto simp: bit_simps)+
  then show "vwrite32 p x s = put_bytes p (word_bytes x) s"
    by (simp add: vwrite32_def word_bytes_def bindE_assoc add.assoc vwrite16_fun put_bytes_fun bindE_unit del: put_bytes.simps)
qed

lemma vread32_bytes:
  assumes "\<forall>i<4. vread8 (p + of_nat i) s = Inr (word_bytes x ! i)"
  shows "vread32 p s = Inr x"
proof -
  have b: "vread8 p s = Inr (ucast x)" "vread8 (p + 1) s = Inr (ucast (drop_bit 8 x))" "vread8 (p + 2) s = Inr (ucast (drop_bit 16 x))"
      "vread8 (p + 3) s = Inr (ucast (drop_bit 24 x))"
    using assms [rule_format, of 0] assms [rule_format, of 1] assms [rule_format, of 2] assms [rule_format, of 3] by (simp_all add: word_bytes_def)
  have "ucast (ucast (ucast x :: uint8) OR push_bit 8 (ucast (ucast (drop_bit 8 x) :: uint8)) :: uint16) OR
      push_bit 16 (ucast (ucast (ucast (drop_bit 16 x) :: uint8) OR push_bit 8 (ucast (ucast (drop_bit 24 x) :: uint8)) :: uint16)) = x" (is "?y = x")
  proof (rule bit_word_eqI)
    fix n assume "n < LENGTH(32)"
    then consider "n < 8" | "8 \<le> n" "n < 16" | "16 \<le> n" "n < 24" | "24 \<le> n" "n < 32" by (auto simp: not_less [symmetric])
    then show "bit ?y n = bit x n" by cases (auto simp: bit_simps)
  qed
  then show ?thesis using b by (simp add: vread32_def vread16_def add.assoc)
qed

lemma unat_plus_nat:
  fixes p :: uint32
  assumes "unat p + n < 2 ^ 32"
  shows "unat (p + of_nat n) = unat p + n"
proof -
  have "unat (of_nat n :: uint32) = n" using assms by (simp add: unat_of_nat)
  then show ?thesis using assms by (simp add: unat_word_ariths)
qed

lemma heap_index:
  assumes "HEAP_START \<le> p" "unat p + n \<le> unat (heap s)" "i < n"
  shows "unat (p + of_nat i) = unat p + i" "p + of_nat i \<in> heap_region s"
proof -
  show u: "unat (p + of_nat i) = unat p + i" using assms unat32_less [of "heap s"] by (intro unat_plus_nat) simp
  then show "p + of_nat i \<in> heap_region s" using assms by (simp add: heap_region_def word_less_nat_alt word_le_nat_alt)
qed

text \<open>A copy within the heap between places that do not overlap.\<close>

lemma kmemcpy_loop_heap:
  assumes "kmem_ok s" "HEAP_START \<le> q" "unat q + length bs \<le> unat (heap s)" "HEAP_START \<le> src" "unat src + length bs \<le> unat (heap s)"
    "\<forall>i<length bs. vread8 (src + of_nat i) s = Inr (bs ! i)" "unat q + length bs \<le> unat src \<or> unat src + length bs \<le> unat q"
  shows "kmemcpy_loop (length bs) q src (src + of_nat (length bs)) s = bindE (put_bytes q bs s) (\<lambda>s. Inr (q + of_nat (length bs), s))"
  using assms
proof (induction bs arbitrary: q src s)
  case (Cons b bs)
  have lim: "unat src + length (b # bs) < 2 ^ 32" "unat q + length (b # bs) < 2 ^ 32" using Cons.prems(3,5) unat32_less [of "heap s"] by auto
  have u: "unat (src + 1) = unat src + 1" "unat (q + 1) = unat q + 1" using lim by (simp_all add: unat_word_ariths)
  have e: "unat (src + of_nat (length (b # bs))) = unat src + length (b # bs)" using lim(1) by (rule unat_plus_nat)
  have lt: "src < src + of_nat (length (b # bs))" using e by (simp add: word_less_nat_alt del: of_nat_Suc)
  have rd: "vread8 src s = Inr b" using Cons.prems(6) by force
  have q: "q \<in> heap_region s" using Cons.prems(2,3) by (simp add: heap_region_def word_less_nat_alt)
  obtain m where m: "vwrite8 q b s = Inr (s\<lparr>phys_mem := m\<rparr>)" "kmem_ok (s\<lparr>phys_mem := m\<rparr>)"
      "\<forall>w\<in>heap_region s. vread8 w (s\<lparr>phys_mem := m\<rparr>) = (if w = q then Inr b else vread8 w s)"
    using vwrite8_heap [OF Cons.prems(1) q] by blast
  have "vread8 (src + 1 + of_nat i) (s\<lparr>phys_mem := m\<rparr>) = Inr (bs ! i)" if i: "i < length bs" for i
  proof -
    have ui: "unat (src + of_nat (Suc i)) = unat src + Suc i" using i lim(1) by (intro unat_plus_nat) simp
    then have "src + of_nat (Suc i) \<in> heap_region s" "src + of_nat (Suc i) \<noteq> q"
      using i Cons.prems(4,5,7) by (auto simp: heap_region_def word_less_nat_alt word_le_nat_alt word_unat_eq_iff simp del: of_nat_Suc)
    moreover have "vread8 (src + of_nat (Suc i)) s = Inr (bs ! i)" using Cons.prems(6) i by force
    ultimately show ?thesis using m(3) by (simp add: add.assoc)
  qed
  moreover have "HEAP_START \<le> q + 1" "HEAP_START \<le> src + 1" using Cons.prems(2,4) u by (simp_all add: word_le_nat_alt)
  ultimately have "kmemcpy_loop (length bs) (q + 1) (src + 1) (src + 1 + of_nat (length bs)) (s\<lparr>phys_mem := m\<rparr>) =
      bindE (put_bytes (q + 1) bs (s\<lparr>phys_mem := m\<rparr>)) (\<lambda>s. Inr (q + 1 + of_nat (length bs), s))"
    using Cons.prems(3,5,7) u m(2) by (intro Cons.IH) auto
  then show ?case using lt rd m(1) by (simp add: add.assoc)
qed simp

section \<open>Messages\<close>

definition message_at :: "ptr \<Rightarrow> ptr \<Rightarrow> uint8 list \<Rightarrow> 'a kmem_scheme \<Rightarrow> bool" where
  "message_at this p bs s \<longleftrightarrow> vread32 this s = Inr (of_nat (length bs)) \<and> vread32 (this + 4) s = Inr p \<and>
     (\<forall>i<length bs. vread8 (p + of_nat i) s = Inr (bs ! i))"

text \<open>A buffer of the heap that is in use and holds \<open>bs\<close>.\<close>

definition heap_buffer :: "ptr \<Rightarrow> uint8 list \<Rightarrow> 'a kmem_scheme \<Rightarrow> bool" where
  "heap_buffer src bs s \<longleftrightarrow> HEAP_START \<le> src \<and> unat src + length bs \<le> unat (heap s) \<and> (\<forall>i<length bs. vread8 (src + of_nat i) s = Inr (bs ! i)) \<and>
     {unat src ..< unat src + length bs} \<inter> bytes (free_blocks (allocator s)) = {}"

lemma got_block_range:
  assumes "got_block sz s p s'" "unat sz \<le> 4096"
  shows "HEAP_START \<le> p" "unat p + unat sz \<le> unat (heap s')" "{unat p ..< unat p + unat sz} \<subseteq> block (level_of (unat sz), unat p)"
proof -
  have sz: "unat sz \<le> bsize (level_of (unat sz))" using assms(2) by (intro level_of_props(2)) simp
  show "{unat p ..< unat p + unat sz} \<subseteq> block (level_of (unat sz), unat p)" using sz by (auto simp: block_def)
  show "HEAP_START \<le> p" "unat p + unat sz \<le> unat (heap s')"
    using in_heap_bytes [OF _ sz, of p s'] assms(1) by (simp_all add: got_block_def Let_def)
qed

text \<open>An allocation leaves a buffer in use alone, and the new block does not meet it.\<close>

lemma got_block_buffer:
  assumes "got_block sz s p s'" "unat sz \<le> 4096" "heap_buffer src bs s"
  shows "heap_buffer src bs s'" "{unat src ..< unat src + length bs} \<inter> block (level_of (unat sz), unat p) = {}"
proof -
  let ?B = "block (level_of (unat sz), unat p)" and ?R = "{unat src ..< unat src + length bs}"
  note b = assms(1) [unfolded got_block_def Let_def]
  have src: "HEAP_START \<le> src" "unat src + length bs \<le> unat (heap s)" "\<forall>i<length bs. vread8 (src + of_nat i) s = Inr (bs ! i)"
      "?R \<inter> bytes (free_blocks (allocator s)) = {}" using assms(3) by (auto simp: heap_buffer_def)
  have new: "?R \<inter> new_bytes s s' = {}" using src(2) by (auto simp: new_bytes_def)
  show d: "?R \<inter> ?B = {}" using b src(4) new by blast
  have "vread8 (src + of_nat i) s' = Inr (bs ! i)" if i: "i < length bs" for i
  proof -
    note x = heap_index [OF src(1,2) i]
    have "unat (src + of_nat i) \<in> ?R" using x(1) i by simp
    then have "unat (src + of_nat i) \<notin> {unat p ..< unat p + unat sz}" using d got_block_range(3) [OF assms(1,2)] by blast
    then show ?thesis using b x(2) src(3) i by auto
  qed
  moreover have "?R \<inter> bytes (free_blocks (allocator s')) = {}" using b src(4) new by blast
  moreover have "unat src + length bs \<le> unat (heap s')" using b src(2) by (auto simp: word_le_nat_alt)
  ultimately show "heap_buffer src bs s'" using src(1) by (simp add: heap_buffer_def)
qed

text \<open>A store elsewhere leaves it alone, too.\<close>

lemma stored_at_buffer:
  assumes "stored_at q cs s s'" "heap_buffer src bs s" "{unat src ..< unat src + length bs} \<inter> {unat q ..< unat q + length cs} = {}"
  shows "heap_buffer src bs s'"
proof -
  have src: "HEAP_START \<le> src" "unat src + length bs \<le> unat (heap s)" using assms(2) by (auto simp: heap_buffer_def)
  have "vread8 (src + of_nat i) s' = vread8 (src + of_nat i) s" if i: "i < length bs" for i
  proof -
    note x = heap_index [OF src i]
    have "unat (src + of_nat i) \<in> {unat src ..< unat src + length bs}" using x(1) i by simp
    then have "unat (src + of_nat i) \<notin> {unat q ..< unat q + length cs}" using assms(3) by blast
    then show ?thesis using assms(1) x(2) by (auto simp: stored_at_def)
  qed
  then show ?thesis using assms(1,2) by (auto simp: heap_buffer_def stored_at_def)
qed

lemma stored_at_is_buffer:
  assumes "stored_at q cs s s'" "HEAP_START \<le> q" "unat q + length cs \<le> unat (heap s)"
    "{unat q ..< unat q + length cs} \<inter> bytes (free_blocks (allocator s)) = {}"
  shows "heap_buffer q cs s'"
proof -
  have "vread8 (q + of_nat i) s' = Inr (cs ! i)" if i: "i < length cs" for i
  proof -
    show ?thesis using assms(1) i heap_index [OF assms(2,3) i] by (simp add: stored_at_def)
  qed
  then show ?thesis using assms by (auto simp: heap_buffer_def stored_at_def)
qed

lemma buffer_word: "heap_buffer q (word_bytes x) s \<Longrightarrow> vread32 q s = Inr x"
  by (rule vread32_bytes) (simp add: heap_buffer_def word_bytes_def)

lemma stored_at_fields:
  assumes "stored_at q cs s s'"
  shows "heap s' = heap s" "allocator s' = allocator s" "mem_lock s' = mem_lock s" "stats s' = stats s" "frames s' = frames s" "kmem_ok s'"
    "heap_region s' = heap_region s"
  using assms by (auto simp: stored_at_def frames_def)

text \<open>Storing a word in a part of the heap that is in use.\<close>

lemma store_word:
  assumes "kmem_ok s" "HEAP_START \<le> q" "unat q + 4 \<le> unat (heap s)" "{unat q ..< unat q + 4} \<inter> bytes (free_blocks (allocator s)) = {}"
  obtains s' where "vwrite32 q x s = Inr s'" "stored_at q (word_bytes x) s s'" "heap_buffer q (word_bytes x) s'"
proof -
  have l: "length (word_bytes x) = 4" by (simp add: word_bytes_def)
  then obtain s' where s': "put_bytes q (word_bytes x) s = Inr s'" "stored_at q (word_bytes x) s s'"
    using put_bytes_heap [OF assms(1,2), of "word_bytes x"] assms(3) by auto
  then show ?thesis using that stored_at_is_buffer [OF s'(2) assms(2)] assms(3,4) l by (simp add: vwrite32_bytes)
qed

lemma copy_buffer:
  assumes "kmem_ok s" "HEAP_START \<le> q" "unat q + length bs \<le> unat (heap s)" "heap_buffer src bs s" "length bs \<le> 4096"
    "{unat q ..< unat q + length bs} \<inter> bytes (free_blocks (allocator s)) = {}" "{unat src ..< unat src + length bs} \<inter> {unat q ..< unat q + length bs} = {}"
  obtains s' where "kmemcpy q src (of_nat (length bs)) s = Inr (q + of_nat (length bs), s')" "stored_at q bs s s'" "heap_buffer q bs s'"
proof -
  have n: "unat (of_nat (length bs) :: uint32) = length bs" using assms(5) by (simp add: unat_of_nat)
  have o: "unat q + length bs \<le> unat src \<or> unat src + length bs \<le> unat q"
    using assms(7) by (rule contrapos_pp) (auto simp: disjoint_iff intro!: exI [of _ "max (unat q) (unat src)"])
  obtain s' where s': "put_bytes q bs s = Inr s'" "stored_at q bs s s'" using put_bytes_heap [OF assms(1-3)] by blast
  then have "kmemcpy q src (of_nat (length bs)) s = Inr (q + of_nat (length bs), s')"
    using kmemcpy_loop_heap [OF assms(1-3) _ _ _ o] assms(4) by (simp add: kmemcpy_def n heap_buffer_def)
  then show ?thesis using that s'(2) stored_at_is_buffer [OF s'(2) assms(2,3,6)] by blast
qed

text \<open>The first block with the length in it, then the second one with its address stored in the first, then the copy.\<close>

definition block_of :: "uint32 \<Rightarrow> ptr \<Rightarrow> nat set" where
  "block_of sz p = block (level_of (unat sz), unat p)"

definition got_part :: "uint32 \<Rightarrow> 'a kmem_scheme \<Rightarrow> ptr \<Rightarrow> 'a kmem_scheme \<Rightarrow> bool" where
  "got_part sz s p s' \<longleftrightarrow> kmem_ok s' \<and> mem_lock s' = 0 \<and> stats s' = stats s + sz \<and> heap s \<le> heap s' \<and> block_fits (level_of (unat sz), unat p) \<and>
     block_of sz p \<subseteq> unat ` heap_region s' \<and> block_of sz p \<inter> bytes (free_blocks (allocator s')) = {} \<and>
     block_of sz p \<union> bytes (free_blocks (allocator s')) = bytes (free_blocks (allocator s)) \<union> new_bytes s s' \<and>
     HEAP_START \<le> p \<and> unat p + unat sz \<le> unat (heap s') \<and> {unat p ..< unat p + unat sz} \<subseteq> block_of sz p"

lemma got_block_part: "got_block sz s p s' \<Longrightarrow> unat sz \<le> 4096 \<Longrightarrow> got_part sz s p s'"
  using got_block_range [of sz s p s'] by (auto simp: got_part_def block_of_def got_block_def Let_def)

lemma got_part_stored: "got_part sz s p s1 \<Longrightarrow> stored_at q cs s1 s2 \<Longrightarrow> got_part sz s p s2"
  using stored_at_fields [of q cs s1 s2] by (simp add: got_part_def new_bytes_def)

lemma room_for_stored: "room_for n s \<Longrightarrow> stored_at q cs s s' \<Longrightarrow> room_for n s'"
  using stored_at_fields [of q cs s s'] by (simp add: room_for_def)

lemma disjoint_part: "A \<inter> B = {} \<Longrightarrow> C \<subseteq> B \<Longrightarrow> A \<inter> C = {}"
  by blast

lemma length_word_bytes: "length (word_bytes x) = 4"
  by (simp add: word_bytes_def)

lemma message_header:
  assumes room: "room_for (Suc k) s" and src: "heap_buffer src bs s"
  obtains r s1 s2 where "new_object 2 8 s = Inr (r, s1)" "vwrite32 r n s1 = Inr s2" "got_part 8 s r s2" "room_for k s2"
    "heap_buffer src bs s2" "heap_buffer r (word_bytes n) s2" "{unat src ..< unat src + length bs} \<inter> block_of 8 r = {}"
proof -
  obtain r s1 where r: "new_object 2 8 s = Inr (r, s1)" "got_block 8 s r s1"
    using new_object_ok [of s 8 2] room_for_alloc [OF room, of 8] small_level(2) [of 8] by auto
  have g: "got_part 8 s r s1" using got_block_part [OF r(2)] by simp
  have "unat (8 :: uint32) = 8" by simp
  then have range: "HEAP_START \<le> r" "unat r + 8 \<le> unat (heap s1)" "kmem_ok s1" "{unat r ..< unat r + 8} \<subseteq> block_of 8 r"
    using g unfolding got_part_def by metis+
  have "unat r + 4 \<le> unat (heap s1)" using range(2) by linarith
  moreover have "{unat r ..< unat r + 4} \<subseteq> {unat r ..< unat r + 8}" by auto
  ultimately have range: "HEAP_START \<le> r" "unat r + 4 \<le> unat (heap s1)" "kmem_ok s1" "{unat r ..< unat r + 4} \<subseteq> block_of 8 r"
    using range by blast+
  then have free: "{unat r ..< unat r + 4} \<inter> bytes (free_blocks (allocator s1)) = {}" using g unfolding got_part_def by blast
  obtain s2 where s2: "vwrite32 r n s1 = Inr s2" "stored_at r (word_bytes n) s1 s2" "heap_buffer r (word_bytes n) s2"
    using store_word [OF range(3,1,2) free] by blast
  have d: "heap_buffer src bs s1" "{unat src ..< unat src + length bs} \<inter> block_of 8 r = {}"
    using got_block_buffer [OF r(2) _ src] by (simp_all add: block_of_def)
  have "{unat src ..< unat src + length bs} \<inter> {unat r ..< unat r + length (word_bytes n)} = {}"
    unfolding length_word_bytes by (rule disjoint_part [OF d(2) range(4)])
  then have "heap_buffer src bs s2" by (rule stored_at_buffer [OF s2(2) d(1)])
  moreover have "room_for k s2" using room_for_stored [OF room_for_next [OF room _ r(2)] s2(2)] by simp
  ultimately show ?thesis using that r(1) s2 got_part_stored [OF g s2(2)] d(2) by blast
qed

lemma message_body:
  assumes room: "room_for (Suc k) s" and src: "heap_buffer src bs s" and len: "length bs \<le> 4096" "n = of_nat (length bs)"
    and r: "heap_buffer r (word_bytes n) s" "got_part 8 s0 r s" "{unat src ..< unat src + length bs} \<inter> block_of 8 r = {}"
  obtains p s1 s2 s3 q where "kmalloc 2 n s = Inr (p, s1)" "vwrite32 (r + 4) p s1 = Inr s2" "kmemcpy p src n s2 = Inr (q, s3)"
    "got_part n s p s3" "room_for k s3" "heap_buffer src bs s3" "message_at r p bs s3" "block_of 8 r \<inter> block_of n p = {}"
proof -
  have n: "unat n = length bs" using len by (simp add: unat_of_nat)
  let ?R = "{unat src ..< unat src + length bs}" and ?w = "{unat r ..< unat r + 4}" and ?v = "{unat r + 4 ..< unat r + 8}"
  obtain p s1 where p: "kmalloc 2 n s = Inr (p, s1)" "got_block n s p s1"
    using kmalloc_got_block [of s n 2] room_for_alloc [OF room, of n] small_level(2) [of "unat n"] n len by auto
  have g: "got_part n s p s1" using got_block_part [OF p(2)] n len by simp
  have rr: "HEAP_START \<le> r" "unat r + 8 \<le> unat (heap s)" "{unat r ..< unat r + 8} \<subseteq> block_of 8 r" "block_of 8 r \<subseteq> unat ` heap_region s"
      "block_of 8 r \<inter> bytes (free_blocks (allocator s)) = {}" using r(2) by (auto simp: got_part_def)
  have "block_of 8 r \<inter> new_bytes s s1 = {}" using rr(4) by (auto simp: new_bytes_def heap_region_def word_less_nat_alt)
  then have pr: "block_of 8 r \<inter> block_of n p = {}" using rr(5) g unfolding got_part_def by blast
  have free1: "block_of 8 r \<inter> bytes (free_blocks (allocator s1)) = {}" using \<open>block_of 8 r \<inter> new_bytes s s1 = {}\<close> rr(5) g unfolding got_part_def by blast
  have w: "?w \<subseteq> block_of 8 r" "?v \<subseteq> block_of 8 r" using rr(3) by auto
  have u: "unat (r + 4) = unat r + 4" using rr(2) unat32_less [of "heap s"] unat_plus_nat [of r 4] by simp
  have r4: "HEAP_START \<le> r + 4" "unat (r + 4) + 4 \<le> unat (heap s1)" "kmem_ok s1"
    using rr(1,2) u g by (auto simp: word_le_nat_alt got_part_def)
  have "{unat (r + 4) ..< unat (r + 4) + 4} = ?v" by (simp add: u add.commute)
  then have free4: "{unat (r + 4) ..< unat (r + 4) + 4} \<inter> bytes (free_blocks (allocator s1)) = {}" using free1 w(2) by blast
  obtain s2 where s2: "vwrite32 (r + 4) p s1 = Inr s2" "stored_at (r + 4) (word_bytes p) s1 s2" "heap_buffer (r + 4) (word_bytes p) s2"
    using store_word [OF r4(3,1,2) free4] by blast
  have src1: "heap_buffer src bs s1" "?R \<inter> block_of n p = {}" and r1: "heap_buffer r (word_bytes n) s1"
    using got_block_buffer [OF p(2) _ src] got_block_buffer(1) [OF p(2) _ r(1)] n len by (simp_all add: block_of_def)
  have v: "{unat (r + 4) ..< unat (r + 4) + length (word_bytes x)} = ?v" for x by (simp add: u length_word_bytes add.commute)
  have src2: "heap_buffer src bs s2" by (rule stored_at_buffer [OF s2(2) src1(1)]) (unfold v, rule disjoint_part [OF r(3) w(2)])
  have "?w \<inter> ?v = {}" by auto
  then have r2: "heap_buffer r (word_bytes n) s2" by (intro stored_at_buffer [OF s2(2) r1]) (simp only: v, simp only: length_word_bytes)
  have g2: "got_part n s p s2" by (rule got_part_stored [OF g s2(2)])
  let ?P = "{unat p ..< unat p + length bs}"
  have pp: "?P \<subseteq> block_of n p" "HEAP_START \<le> p" "unat p + length bs \<le> unat (heap s2)" "kmem_ok s2" "?P \<inter> bytes (free_blocks (allocator s2)) = {}"
    using g2 n by (auto simp: got_part_def)
  have rp: "?R \<inter> ?P = {}" using pp(1) src1(2) by blast
  obtain s3 where s3: "kmemcpy p src n s2 = Inr (p + n, s3)" "stored_at p bs s2 s3" "heap_buffer p bs s3"
    using copy_buffer [OF pp(4,2,3) src2 len(1) pp(5) rp] len(2) by blast
  have "heap_buffer src bs s3" by (rule stored_at_buffer [OF s3(2) src2 rp])
  moreover have wp: "?w \<inter> ?P = {}" "?v \<inter> ?P = {}" using w pr pp(1) by blast+
  then have "heap_buffer r (word_bytes n) s3" by (intro stored_at_buffer [OF s3(2) r2]) (unfold length_word_bytes)
  moreover have "heap_buffer (r + 4) (word_bytes p) s3" using wp(2) by (intro stored_at_buffer [OF s3(2) s2(3)]) (unfold v)
  ultimately have "message_at r p bs s3" "heap_buffer src bs s3" using s3(3) buffer_word len(2) by (auto simp: message_at_def heap_buffer_def)
  moreover have "room_for k s3" using room_for_stored [OF room_for_stored [OF room_for_next [OF room _ p(2)] s2(2)] s3(2)] n len by simp
  ultimately show ?thesis using that p(1) s2(1) s3(1) got_part_stored [OF g2 s3(2)] pr by blast
qed

text \<open>A message that may be freed: its two blocks are in use and do not overlap.\<close>

definition message_ready :: "ptr \<Rightarrow> ptr \<Rightarrow> uint8 list \<Rightarrow> 'a kmem_scheme \<Rightarrow> bool" where
  "message_ready this p bs s \<longleftrightarrow> message_at this p bs s \<and> length bs \<le> 4096 \<and> block_of 8 this \<inter> block_of (of_nat (length bs)) p = {} \<and>
     allocated this 8 s \<and> allocated p (of_nat (length bs)) s"

lemma got_part_allocated: "got_part sz s p s' \<Longrightarrow> unat sz \<le> 4096 \<Longrightarrow> 0 < free_nodes (allocator s') \<Longrightarrow> allocated p sz s'"
  by (simp add: got_part_def allocated_def block_of_def)

lemma message_alloc_ok:
  assumes room: "room_for (Suc (Suc k)) s" and src: "heap_buffer src bs s" and len: "length bs \<le> 4096"
  shows "\<exists>this p s'. message_alloc 2 (of_nat (length bs)) src s = Inr (this, s') \<and> message_ready this p bs s' \<and> heap_buffer src bs s' \<and>
    room_for k s' \<and> stats s' = stats s + 8 + of_nat (length bs) \<and> heap s \<le> heap s' \<and>
    block_of 8 this \<union> block_of (of_nat (length bs)) p \<union> bytes (free_blocks (allocator s')) = bytes (free_blocks (allocator s)) \<union> new_bytes s s'"
proof -
  define n :: uint32 where "n = of_nat (length bs)"
  have n: "unat n = length bs" using len by (simp add: n_def unat_of_nat)
  obtain r s1 s2 where r: "new_object 2 8 s = Inr (r, s1)" "vwrite32 r n s1 = Inr s2" "got_part 8 s r s2" "room_for (Suc k) s2"
      "heap_buffer src bs s2" "heap_buffer r (word_bytes n) s2" "{unat src ..< unat src + length bs} \<inter> block_of 8 r = {}"
    using message_header [OF room src] by blast
  obtain p s3 s4 s5 q where p: "kmalloc 2 n s2 = Inr (p, s3)" "vwrite32 (r + 4) p s3 = Inr s4" "kmemcpy p src n s4 = Inr (q, s5)"
      "got_part n s2 p s5" "room_for k s5" "heap_buffer src bs s5" "message_at r p bs s5" "block_of 8 r \<inter> block_of n p = {}"
    by (rule message_body [OF r(4,5) len n_def r(6,3,7)]) (rule that)
  have eq: "message_alloc 2 n src s = Inr (r, s5)" using r(1,2) p(1-3) by (simp add: message_alloc_def)
  note g = r(3) [unfolded got_part_def] and h = p(4) [unfolded got_part_def]
  have le: "heap s \<le> heap s2" "heap s2 \<le> heap s5" using g h by auto
  have new: "new_bytes s s5 = new_bytes s s2 \<union> new_bytes s2 s5" using le by (auto simp: new_bytes_def word_le_nat_alt)
  have b: "block_of 8 r \<union> block_of n p \<union> bytes (free_blocks (allocator s5)) = bytes (free_blocks (allocator s)) \<union> new_bytes s s5"
    using g h unfolding new by blast
  have nodes: "0 < free_nodes (allocator s5)" using p(5) by (simp add: room_for_def)
  have "block_of 8 r \<subseteq> unat ` heap_region s5" using g le(2) by (auto simp: heap_region_def)
  moreover have "block_of 8 r \<inter> new_bytes s2 s5 = {}" using g by (auto simp: new_bytes_def heap_region_def word_less_nat_alt)
  then have "block_of 8 r \<inter> bytes (free_blocks (allocator s5)) = {}" using g h by blast
  ultimately have "allocated r 8 s5" using g h nodes by (simp add: allocated_def block_of_def)
  moreover have "allocated p n s5" using got_part_allocated [OF p(4) _ nodes] n len by simp
  ultimately have "message_ready r p bs s5" using p(7,8) len by (simp add: message_ready_def n_def)
  moreover have "stats s5 = stats s + 8 + n" "heap s \<le> heap s5" using g h by auto
  ultimately show ?thesis unfolding n_def [symmetric] using eq p(5,6) b
    by (intro exI [of _ r] exI [of _ p] exI [of _ s5] conjI)
qed

lemma message_free_ok:
  assumes m: "message_ready this p bs s" and nodes: "1 < free_nodes (allocator s)"
  shows "\<exists>s'. message_free this s = Inr s' \<and> kmem_ok s' \<and> stats s' = stats s - of_nat (length bs) - 8 \<and> heap s' = heap s \<and>
    bytes (free_blocks (allocator s')) = block_of 8 this \<union> block_of (of_nat (length bs)) p \<union> bytes (free_blocks (allocator s))"
proof -
  define n :: uint32 where "n = of_nat (length bs)"
  have a: "allocated this 8 s" "allocated p n s" "block_of 8 this \<inter> block_of n p = {}" "vread32 this s = Inr n" "vread32 (this + 4) s = Inr p"
    using m by (simp_all add: message_ready_def message_at_def n_def)
  note pa = a(2) [unfolded allocated_def] and ta = a(1) [unfolded allocated_def]
  obtain b where b: "kfree p n s = Inr (s\<lparr>stats := stats s - n, allocator := b\<rparr>)" "kmem_ok (s\<lparr>stats := stats s - n, allocator := b\<rparr>)"
      "bytes (free_blocks b) = block_of n p \<union> bytes (free_blocks (allocator s))" "free_nodes (allocator s) \<le> free_nodes b + 1"
    using kfree_ok [of s n p] pa by (auto simp: block_of_def)
  let ?s = "s\<lparr>stats := stats s - n, allocator := b\<rparr>"
  have "block_of 8 this \<inter> bytes (free_blocks b) = {}" using b(3) a(3) ta by (auto simp: block_of_def)
  moreover have "heap_region ?s = heap_region s" by (simp add: heap_region_def)
  ultimately obtain c where "kfree this 8 ?s = Inr (?s\<lparr>stats := stats ?s - 8, allocator := c\<rparr>)" "kmem_ok (?s\<lparr>stats := stats ?s - 8, allocator := c\<rparr>)"
      "bytes (free_blocks c) = block_of 8 this \<union> bytes (free_blocks b)"
    using kfree_ok [of ?s 8 this] ta b(2,4) nodes by (auto simp: block_of_def)
  then show ?thesis using a(4,5) b(1,3) by (auto simp: message_free_def n_def)
qed

text \<open>
  Round trip: a message is a copy of the buffer, the buffer is unchanged, and after \<open>message_free\<close> the heap has all its bytes
  back, with the pages that were added to it.
\<close>

lemma message_roundtrip:
  assumes "room_for 3 s" "heap_buffer src bs s" "length bs \<le> 4096"
  shows "\<exists>this p s1 s2. message_alloc 2 (of_nat (length bs)) src s = Inr (this, s1) \<and> message_at this p bs s1 \<and> heap_buffer src bs s1 \<and>
    message_free this s1 = Inr s2 \<and> kmem_ok s2 \<and> stats s2 = stats s \<and>
    bytes (free_blocks (allocator s2)) = bytes (free_blocks (allocator s)) \<union> new_bytes s s2"
proof -
  have room: "room_for (Suc (Suc 1)) s" using assms(1) by (simp add: numeral_eq_Suc)
  obtain this p s1 where s1: "message_alloc 2 (of_nat (length bs)) src s = Inr (this, s1)" "message_ready this p bs s1" "heap_buffer src bs s1"
      "room_for 1 s1" "stats s1 = stats s + 8 + of_nat (length bs)"
      "block_of 8 this \<union> block_of (of_nat (length bs)) p \<union> bytes (free_blocks (allocator s1)) = bytes (free_blocks (allocator s)) \<union> new_bytes s s1"
    using message_alloc_ok [OF room assms(2,3)] by blast
  have "1 < free_nodes (allocator s1)" using s1(4) by (simp add: room_for_def)
  then obtain s2 where s2: "message_free this s1 = Inr s2" "kmem_ok s2" "stats s2 = stats s1 - of_nat (length bs) - 8" "heap s2 = heap s1"
      "bytes (free_blocks (allocator s2)) = block_of 8 this \<union> block_of (of_nat (length bs)) p \<union> bytes (free_blocks (allocator s1))"
    using message_free_ok [OF s1(2)] by blast
  have "stats s2 = stats s" using s1(5) s2(3) by simp
  moreover have "new_bytes s s2 = new_bytes s s1" using s2(4) by (simp add: new_bytes_def)
  moreover have "message_at this p bs s1" using s1(2) by (simp add: message_ready_def)
  ultimately show ?thesis using s1(1,3,6) s2(1,2,5) by (intro exI [of _ this] exI [of _ p] exI [of _ s1] exI [of _ s2] conjI) simp_all
qed

end
