(* ===== verification/Screen.thy ===== *)
theory Screen
  imports Locks
begin

text \<open>
  The console of the kernel, \<^verbatim>\<open>kernel/screen.c\<close>: text memory of 25 lines with 80 cells, a cursor and a style. A cell is
  the 16-bit word at its index from \<open>videomem\<close>; the memory goes on after the last cell of the
  screen. A \<^verbatim>\<open>char\<close> is a signed byte. Strings are given by their bytes without the final zero.
\<close>

section \<open>State and operations\<close>

type_synonym cells = "nat \<Rightarrow> uint16"

record screen =
  cur_style :: uint8
  cur_x :: uint8
  cur_y :: uint8
  videomem :: cells
  screen_lock :: lock_t

abbreviation (input) SCREEN_HEIGHT :: nat where "SCREEN_HEIGHT \<equiv> 25"
abbreviation (input) SCREEN_WIDTH :: nat where "SCREEN_WIDTH \<equiv> 80"

text \<open>\<open>kmemset16\<close> and \<open>kmemcpy\<close> of \<^verbatim>\<open>kernel/util.c\<close> on the cells; one step of the copy is the copy of the two bytes of a cell.\<close>

fun kmemset16 :: "nat \<Rightarrow> uint16 \<Rightarrow> nat \<Rightarrow> cells \<Rightarrow> cells" where
  "kmemset16 p v 0 m = m"
| "kmemset16 p v (Suc count) m = kmemset16 (Suc p) v count (m(p := v))"

fun copy_cells :: "nat \<Rightarrow> nat \<Rightarrow> nat \<Rightarrow> cells \<Rightarrow> cells" where
  "copy_cells destination source 0 m = m"
| "copy_cells destination source (Suc count) m = copy_cells (Suc destination) (Suc source) count (m(destination := m source))"

definition mv_cur :: "uint8 \<Rightarrow> screen \<Rightarrow> screen" where
  "mv_cur c s =
     (let s = (if c = 13 then s\<lparr>cur_x := 0\<rparr>
               else if c = 10 then s\<lparr>cur_x := 0, cur_y := cur_y s + 1\<rparr>
               else s\<lparr>cur_x := cur_x s + 1\<rparr>)
      in if 80 < cur_x s then s\<lparr>cur_y := cur_y s + cur_x s div 80, cur_x := cur_x s mod 80\<rparr> else s)"

definition screen_getstyle :: "uint8 \<Rightarrow> uint8 \<Rightarrow> uint8" where
  "screen_getstyle bg fg = push_bit 4 bg OR fg"

text \<open>The blank cell: a space in the background colour.\<close>

definition blank :: "uint8 \<Rightarrow> uint16" where
  "blank style = (let c = drop_bit 4 style in push_bit 8 (ucast (screen_getstyle c c)) OR 32)"

definition clear_line :: "screen \<Rightarrow> screen" where
  "clear_line s = s\<lparr>videomem := kmemset16 (SCREEN_WIDTH * (SCREEN_HEIGHT - 1)) (blank (cur_style s)) SCREEN_WIDTH (videomem s)\<rparr>"

definition move_screen :: "screen \<Rightarrow> screen" where
  "move_screen s = s\<lparr>videomem := copy_cells 0 SCREEN_WIDTH (SCREEN_WIDTH * (SCREEN_HEIGHT - 1)) (videomem s)\<rparr>"

definition cell :: "uint8 \<Rightarrow> uint8 \<Rightarrow> uint16" where
  "cell style c = push_bit 8 (ucast style) OR scast c"

definition put_cell :: "uint8 \<Rightarrow> uint8 \<Rightarrow> screen \<Rightarrow> screen" where
  "put_cell c style s =
     (if 32 \<le> sint c
      then s\<lparr>videomem := (videomem s)(unat (cur_y s) * SCREEN_WIDTH + unat (cur_x s) := cell style c)\<rparr>
      else s)"

definition screen_putchar :: "uint8 \<Rightarrow> uint8 \<Rightarrow> screen \<Rightarrow> screen" where
  "screen_putchar c style s =
     (let s = (if 25 \<le> cur_y s then (clear_line (move_screen s))\<lparr>cur_y := 24\<rparr> else s)
      in mv_cur c (put_cell c style s))"

definition screen_clear :: "screen \<Rightarrow> screen res" where
  "screen_clear s =
     bindE (section_enter (screen_lock s)) (\<lambda>l.
     let s = s\<lparr>screen_lock := l\<rparr>;
         s = s\<lparr>videomem := kmemset16 0 (blank (cur_style s)) (SCREEN_HEIGHT * SCREEN_WIDTH) (videomem s)\<rparr>;
         s = s\<lparr>cur_x := 0, cur_y := 0\<rparr>
     in Inr (s\<lparr>screen_lock := section_leave (screen_lock s)\<rparr>))"

definition screen_set_bg :: "uint8 \<Rightarrow> screen \<Rightarrow> screen" where
  "screen_set_bg color s = s\<lparr>cur_style := cur_style s AND 0x0f OR push_bit 4 color\<rparr>"

definition screen_set_fg :: "uint8 \<Rightarrow> screen \<Rightarrow> screen" where
  "screen_set_fg color s = s\<lparr>cur_style := cur_style s AND 0xf0 OR color\<rparr>"

definition screen_putstr :: "uint8 list \<Rightarrow> screen \<Rightarrow> screen" where
  "screen_putstr cs s = fold (\<lambda>c s. screen_putchar c (cur_style s) s) cs s"

section \<open>Filling and scrolling\<close>

lemma kmemset16_eq: "kmemset16 p v n m = (\<lambda>i. if p \<le> i \<and> i < p + n then v else m i)"
  by (induction n arbitrary: p m) (auto simp: fun_eq_iff)

lemma copy_cells_eq: "d \<le> s \<Longrightarrow> copy_cells d s n m = (\<lambda>i. if d \<le> i \<and> i < d + n then m (i + (s - d)) else m i)"
proof (induction n arbitrary: d s m)
  case (Suc n)
  have "copy_cells d s (Suc n) m = (\<lambda>i. if Suc d \<le> i \<and> i < Suc d + n then (m(d := m s)) (i + (s - d)) else (m(d := m s)) i)"
    using Suc by (simp cong: if_cong)
  then show ?case using Suc.prems by (auto simp: fun_eq_iff)
qed (simp add: fun_eq_iff)

definition scrolled :: "uint16 \<Rightarrow> cells \<Rightarrow> cells" where
  "scrolled v m = (\<lambda>i. if i < 1920 then m (i + 80) else if i < 2000 then v else m i)"

lemma scroll_eq: "clear_line (move_screen s) = s\<lparr>videomem := scrolled (blank (cur_style s)) (videomem s)\<rparr>"
  by (auto simp: clear_line_def move_screen_def kmemset16_eq copy_cells_eq scrolled_def fun_eq_iff intro!: screen.equality)

section \<open>The cursor\<close>

text \<open>
  The cursor may stand behind the last cell of a line. The index of its cell is the same as that of the first
  cell of the next line, so the text goes on there.
\<close>

definition cursor :: "screen \<Rightarrow> nat" where
  "cursor s = 80 * unat (cur_y s) + unat (cur_x s)"

definition console_ok :: "screen \<Rightarrow> bool" where
  "console_ok s \<longleftrightarrow> unat (cur_x s) \<le> 80 \<and> unat (cur_y s) \<le> 25"

lemma mv_cur_ok:
  assumes "console_ok s" "unat (cur_y s) < 25"
  shows "console_ok (mv_cur c s)"
    "cursor (mv_cur c s) = (if c = 13 then 80 * unat (cur_y s) else if c = 10 then 80 * (unat (cur_y s) + 1) else cursor s + 1)"
    "c \<noteq> 13 \<Longrightarrow> c \<noteq> 10 \<Longrightarrow> 0 < unat (cur_x (mv_cur c s))"
    "videomem (mv_cur c s) = videomem s" "cur_style (mv_cur c s) = cur_style s" "screen_lock (mv_cur c s) = screen_lock s"
proof -
  have y: "unat (cur_y s + 1) = unat (cur_y s) + 1" using assms by (simp add: unat_word_ariths)
  have x: "unat (cur_x s + 1) = unat (cur_x s) + 1" using assms by (simp add: unat_word_ariths console_ok_def)
  have d: "unat (cur_x s + 1) = 81" "(cur_x s + 1) div 80 = 1" "(cur_x s + 1) mod 80 = 1" if "80 < cur_x s + 1"
  proof -
    show u: "unat (cur_x s + 1) = 81" using that x assms(1) by (simp add: word_less_nat_alt console_ok_def)
    show "(cur_x s + 1) div 80 = 1" "(cur_x s + 1) mod 80 = 1" by (simp_all add: word_unat_eq_iff unat_div unat_mod u)
  qed
  show "console_ok (mv_cur c s)"
    "cursor (mv_cur c s) = (if c = 13 then 80 * unat (cur_y s) else if c = 10 then 80 * (unat (cur_y s) + 1) else cursor s + 1)"
    "c \<noteq> 13 \<Longrightarrow> c \<noteq> 10 \<Longrightarrow> 0 < unat (cur_x (mv_cur c s))"
    using assms x y d by (auto simp: mv_cur_def Let_def console_ok_def cursor_def word_less_nat_alt)
qed (auto simp: mv_cur_def Let_def)

lemma put_cell_simps [simp]:
  "cur_x (put_cell c st s) = cur_x s" "cur_y (put_cell c st s) = cur_y s" "cur_style (put_cell c st s) = cur_style s"
  "console_ok (put_cell c st s) = console_ok s" "cursor (put_cell c st s) = cursor s"
  by (simp_all add: put_cell_def console_ok_def cursor_def)

text \<open>Whatever is printed, the cursor stays in its range and only the cells of the screen and the one after them change.\<close>

lemma screen_putchar_ok:
  assumes "console_ok s"
  shows "console_ok (screen_putchar c st s)" "2000 < i \<Longrightarrow> videomem (screen_putchar c st s) i = videomem s i"
    "cur_style (screen_putchar c st s) = cur_style s"
proof -
  define s1 where "s1 = (if 25 \<le> cur_y s then (clear_line (move_screen s))\<lparr>cur_y := 24\<rparr> else s)"
  have s1: "console_ok s1" "unat (cur_y s1) < 25" "2000 < i \<Longrightarrow> videomem s1 i = videomem s i" "cur_style s1 = cur_style s" for i
    using assms by (auto simp: s1_def scroll_eq console_ok_def scrolled_def word_le_nat_alt)
  have p: "screen_putchar c st s = mv_cur c (put_cell c st s1)" by (simp add: screen_putchar_def s1_def Let_def)
  note mv = mv_cur_ok [of "put_cell c st s1" c, simplified put_cell_simps, OF s1(1,2)]
  show "console_ok (screen_putchar c st s)" "cur_style (screen_putchar c st s) = cur_style s"
    using mv s1(4) by (simp_all add: p)
  have "cursor s1 \<le> 2000" using s1(1,2) by (simp add: cursor_def console_ok_def)
  then show "2000 < i \<Longrightarrow> videomem (screen_putchar c st s) i = videomem s i"
    using mv s1(3) by (simp add: p put_cell_def cursor_def)
qed

lemma screen_putstr_ok:
  assumes "console_ok s"
  shows "console_ok (screen_putstr cs s)" "2000 < i \<Longrightarrow> videomem (screen_putstr cs s) i = videomem s i"
    "cur_style (screen_putstr cs s) = cur_style s"
  using assms by (induction cs arbitrary: s) (simp_all add: screen_putstr_def screen_putchar_ok)

text \<open>Printable text is written to consecutive cells.\<close>

lemma sint_printable: "32 \<le> sint (c :: uint8) \<Longrightarrow> c \<noteq> 13 \<and> c \<noteq> 10"
  by auto

lemma screen_putstr_text:
  assumes "console_ok s" "unat (cur_y s) < 25" "\<forall>c\<in>set cs. 32 \<le> sint c" "cursor s + length cs \<le> 2001"
  shows "videomem (screen_putstr cs s) = (\<lambda>i. if cursor s \<le> i \<and> i < cursor s + length cs
      then cell (cur_style s) (cs ! (i - cursor s)) else videomem s i)"
  using assms
proof (induction cs arbitrary: s)
  case (Cons c cs)
  let ?s = "screen_putchar c (cur_style s) s"
  have ns: "\<not> 25 \<le> cur_y s" using Cons.prems(2) by (simp add: word_le_nat_alt)
  have p: "?s = mv_cur c (put_cell c (cur_style s) s)" using ns by (simp add: screen_putchar_def Let_def)
  note mv = mv_cur_ok [of "put_cell c (cur_style s) s" c, simplified put_cell_simps, OF Cons.prems(1,2)]
  have cur: "cursor ?s = cursor s + 1" using mv(2) sint_printable [of c] Cons.prems(3) by (simp add: p)
  have y: "unat (cur_y ?s) < 25" if "cs \<noteq> []"
  proof (rule ccontr)
    assume "\<not> unat (cur_y ?s) < 25"
    then have "2000 < cursor ?s" using mv(3) sint_printable [of c] Cons.prems(3) by (simp add: cursor_def p)
    moreover have "cursor s + 1 < 2001" using Cons.prems(4) that by (cases cs) auto
    ultimately show False using cur by simp
  qed
  have IH: "videomem (screen_putstr cs ?s) = (\<lambda>i. if cursor s + 1 \<le> i \<and> i < cursor s + 1 + length cs
      then cell (cur_style s) (cs ! (i - (cursor s + 1))) else videomem ?s i)"
  proof (cases "cs = []")
    case False
    then show ?thesis using Cons.IH [of ?s] Cons.prems y cur mv(1,5) by (simp add: p cong: if_cong)
  qed (auto simp: screen_putstr_def fun_eq_iff)
  have "videomem ?s = (videomem s)(cursor s := cell (cur_style s) c)"
    using mv(4) Cons.prems(3) by (simp add: p put_cell_def cursor_def mult.commute)
  moreover have "screen_putstr (c # cs) s = screen_putstr cs ?s" by (simp add: screen_putstr_def)
  ultimately show ?case using IH by (auto simp: fun_eq_iff nth_Cons')
qed (auto simp: screen_putstr_def fun_eq_iff)

end
