(* ===== verification/Srv_Screen.thy ===== *)
theory Srv_Screen
  imports Screen
begin

text \<open>
  The text servers in user space. \<^verbatim>\<open>userspace/srv_screen.c\<close> prints messages like the console of the kernel, on the
  same text memory, which it maps at \<^verbatim>\<open>0xA0000000\<close>; its cursor never leaves the screen.
  \<^verbatim>\<open>userspace/srv_fullscreen.c\<close> shows whole pictures. The operations the servers share with the console
  word for word keep its definitions.
\<close>

section \<open>The text server\<close>

definition srv_mv_cur :: "uint8 \<Rightarrow> screen \<Rightarrow> screen" where
  "srv_mv_cur c s =
     (let s = (if c = 13 then s\<lparr>cur_x := 0\<rparr>
               else if c = 10 then s\<lparr>cur_x := 0, cur_y := cur_y s + 1\<rparr>
               else s\<lparr>cur_x := cur_x s + 1\<rparr>);
          s = (if 80 \<le> cur_x s then s\<lparr>cur_y := cur_y s + cur_x s div 80, cur_x := cur_x s mod 80\<rparr> else s)
      in if 25 \<le> cur_y s then (clear_line (move_screen s))\<lparr>cur_y := 24\<rparr> else s)"

definition srv_putchar :: "uint8 \<Rightarrow> uint8 \<Rightarrow> screen \<Rightarrow> screen" where
  "srv_putchar c style s = srv_mv_cur c (put_cell c style s)"

definition srv_putstr :: "uint8 list \<Rightarrow> screen \<Rightarrow> screen" where
  "srv_putstr cs s = fold (\<lambda>c s. srv_putchar c (cur_style s) s) cs s"

definition srv_clear :: "screen \<Rightarrow> screen" where
  "srv_clear s = s\<lparr>videomem := kmemset16 0 (blank (cur_style s)) (SCREEN_HEIGHT * SCREEN_WIDTH) (videomem s)\<rparr>"

section \<open>The picture server\<close>

fun display_loop :: "nat \<Rightarrow> nat \<Rightarrow> uint8 list \<Rightarrow> screen \<Rightarrow> screen res" where
  "display_loop 0 i buf s = Inr s"
| "display_loop (Suc n) i buf s =
     (if i < length buf
      then display_loop n (Suc i) buf (s\<lparr>videomem := (videomem s)(i := cell (cur_style s) (buf ! i))\<rparr>)
      else Inl OutOfBounds)"

definition screen_display :: "uint8 list \<Rightarrow> screen \<Rightarrow> screen res" where
  "screen_display buf s = display_loop (SCREEN_WIDTH * SCREEN_HEIGHT) 0 buf s"

lemma display_loop_eq: "i + n \<le> length buf \<Longrightarrow> display_loop n i buf s =
    Inr (s\<lparr>videomem := (\<lambda>j. if i \<le> j \<and> j < i + n then cell (cur_style s) (buf ! j) else videomem s j)\<rparr>)"
proof (induction n arbitrary: i s)
  case (Suc n)
  then show ?case by (auto simp: fun_eq_iff intro!: screen.equality)
qed (auto simp: fun_eq_iff intro!: screen.equality)

section \<open>The terminal as a tape\<close>

text \<open>
  The specification of a terminal is a tape without end and a position on it. Lines are the
  pieces of 80 cells. The screen is a window on the tape.
\<close>

record tape =
  tape_cells :: cells
  tape_pos :: nat

definition tape_put :: "uint8 \<Rightarrow> uint8 \<Rightarrow> tape \<Rightarrow> tape" where
  "tape_put c style t =
     (if c = 13 then t\<lparr>tape_pos := tape_pos t div 80 * 80\<rparr>
      else if c = 10 then t\<lparr>tape_pos := (tape_pos t div 80 + 1) * 80\<rparr>
      else \<lparr>tape_cells = (if 32 \<le> sint c then (tape_cells t)(tape_pos t := cell style c) else tape_cells t),
        tape_pos = tape_pos t + 1\<rparr>)"

definition tape_puts :: "uint8 list \<Rightarrow> uint8 \<Rightarrow> tape \<Rightarrow> tape" where
  "tape_puts cs style t = fold (\<lambda>c. tape_put c style) cs t"

text \<open>The screen shows 25 lines of the tape, from line \<open>top_line\<close>; after them the tape is blank.\<close>

definition window :: "nat \<Rightarrow> screen \<Rightarrow> tape \<Rightarrow> bool" where
  "window top_line s t \<longleftrightarrow> unat (cur_x s) < 80 \<and> unat (cur_y s) < 25 \<and>
     tape_pos t = 80 * top_line + cursor s \<and>
     (\<forall>i<2000. videomem s i = tape_cells t (80 * top_line + i)) \<and>
     (\<forall>i\<ge>2000. tape_cells t (80 * top_line + i) = blank (cur_style s))"

text \<open>The cursor after one character, before the screen is scrolled.\<close>

definition advanced :: "uint8 \<Rightarrow> screen \<Rightarrow> nat" where
  "advanced c s = (if c = 13 then 80 * unat (cur_y s) else if c = 10 then 80 * (unat (cur_y s) + 1) else cursor s + 1)"

lemma srv_mv_cur_eq:
  assumes "unat (cur_x s) < 80" "unat (cur_y s) < 25"
  shows "\<exists>x y. srv_mv_cur c s = (if advanced c s < 2000 then s\<lparr>cur_x := x, cur_y := y\<rparr>
      else s\<lparr>cur_x := x, cur_y := y, videomem := scrolled (blank (cur_style s)) (videomem s)\<rparr>) \<and>
    unat x < 80 \<and> unat y < 25 \<and> 80 * unat y + unat x = (if advanced c s < 2000 then advanced c s else advanced c s - 80)"
proof -
  have y: "unat (cur_y s + 1) = unat (cur_y s) + 1" using assms by (simp add: unat_word_ariths)
  have x: "unat (cur_x s + 1) = unat (cur_x s) + 1" using assms by (simp add: unat_word_ariths)
  have d: "unat (cur_x s + 1) = 80" "(cur_x s + 1) div 80 = 1" "(cur_x s + 1) mod 80 = 0" if "80 \<le> cur_x s + 1"
  proof -
    show u: "unat (cur_x s + 1) = 80" using that x assms(1) by (simp add: word_le_nat_alt)
    show "(cur_x s + 1) div 80 = 1" "(cur_x s + 1) mod 80 = 0" by (simp_all add: word_unat_eq_iff unat_div unat_mod u)
  qed
  define x' where "x' = (if c = 13 \<or> c = 10 then 0 else if 80 \<le> cur_x s + 1 then 0 else cur_x s + 1)"
  define y1 where "y1 = (if c \<noteq> 13 \<and> (c = 10 \<or> 80 \<le> cur_x s + 1) then cur_y s + 1 else cur_y s)"
  have adv: "advanced c s = 80 * unat y1 + unat x'" "unat x' < 80" "unat y1 \<le> 25"
    using assms x y d(1) by (auto simp: advanced_def x'_def y1_def cursor_def word_le_nat_alt)
  have lt: "advanced c s < 2000 \<longleftrightarrow> \<not> 25 \<le> y1" using adv by (simp add: word_le_nat_alt) linarith
  have "srv_mv_cur c s = (if 25 \<le> y1 then s\<lparr>cur_x := x', cur_y := 24, videomem := scrolled (blank (cur_style s)) (videomem s)\<rparr>
      else s\<lparr>cur_x := x', cur_y := y1\<rparr>)"
    using d(2,3) by (auto simp: srv_mv_cur_def Let_def scroll_eq x'_def y1_def)
  then show ?thesis using adv lt
    by (intro exI [of _ x'] exI [of _ "if 25 \<le> y1 then 24 else y1"]) (auto simp: word_le_nat_alt)
qed

lemma window_put_cell:
  assumes "window top_line s t"
  shows "\<exists>m. tape_put c (cur_style s) t = \<lparr>tape_cells = m, tape_pos = 80 * top_line + advanced c s\<rparr> \<and>
    (\<forall>i<2000. videomem (put_cell c (cur_style s) s) i = m (80 * top_line + i)) \<and>
    (\<forall>i\<ge>2000. m (80 * top_line + i) = blank (cur_style s))"
proof -
  let ?m = "if 32 \<le> sint c then (tape_cells t)(tape_pos t := cell (cur_style s) c) else tape_cells t"
  have x: "cursor s < 2000" "tape_pos t = 80 * top_line + cursor s" "(80 * top_line + cursor s) div 80 = top_line + unat (cur_y s)"
    using assms by (auto simp: window_def cursor_def)
  have "tape_put c (cur_style s) t = \<lparr>tape_cells = ?m, tape_pos = 80 * top_line + advanced c s\<rparr>"
    using sint_printable [of c] x(2,3) by (intro tape.equality) (auto simp: tape_put_def advanced_def algebra_simps)
  moreover have "videomem (put_cell c (cur_style s) s) i = ?m (80 * top_line + i)" if "i < 2000" for i
    using assms that by (auto simp: put_cell_def window_def cursor_def)
  moreover have "?m (80 * top_line + i) = blank (cur_style s)" if "2000 \<le> i" for i
    using assms that x by (auto simp: window_def)
  ultimately show ?thesis by blast
qed

lemma srv_putchar_window:
  assumes "window top_line s t"
  shows "\<exists>l. top_line \<le> l \<and> window l (srv_putchar c (cur_style s) s) (tape_put c (cur_style s) t)"
    "cur_style (srv_putchar c (cur_style s) s) = cur_style s"
    "2000 \<le> i \<Longrightarrow> videomem (srv_putchar c (cur_style s) s) i = videomem s i"
proof -
  let ?s = "put_cell c (cur_style s) s"
  have r: "unat (cur_x s) < 80" "unat (cur_y s) < 25" using assms by (simp_all add: window_def)
  have a: "advanced c ?s = advanced c s" by (simp add: advanced_def)
  obtain x y where p: "srv_putchar c (cur_style s) s = (if advanced c s < 2000 then ?s\<lparr>cur_x := x, cur_y := y\<rparr>
      else ?s\<lparr>cur_x := x, cur_y := y, videomem := scrolled (blank (cur_style s)) (videomem ?s)\<rparr>)"
      "unat x < 80" "unat y < 25" "80 * unat y + unat x = (if advanced c s < 2000 then advanced c s else advanced c s - 80)"
    using srv_mv_cur_eq [of ?s c] r by (auto simp: srv_putchar_def a cong: if_cong)
  obtain m where m: "tape_put c (cur_style s) t = \<lparr>tape_cells = m, tape_pos = 80 * top_line + advanced c s\<rparr>"
      "\<And>i. i < 2000 \<Longrightarrow> videomem ?s i = m (80 * top_line + i)" "\<And>i. 2000 \<le> i \<Longrightarrow> m (80 * top_line + i) = blank (cur_style s)"
    using window_put_cell [OF assms] by blast
  show "cur_style (srv_putchar c (cur_style s) s) = cur_style s" by (simp add: p(1))
  have "cursor s < 2000" using r by (simp add: cursor_def)
  then show "2000 \<le> i \<Longrightarrow> videomem (srv_putchar c (cur_style s) s) i = videomem s i"
    by (auto simp: p(1) scrolled_def put_cell_def cursor_def)
  show "\<exists>l. top_line \<le> l \<and> window l (srv_putchar c (cur_style s) s) (tape_put c (cur_style s) t)"
  proof (cases "advanced c s < 2000")
    case True
    then have "window top_line (srv_putchar c (cur_style s) s) (tape_put c (cur_style s) t)"
      using p m by (simp add: window_def cursor_def)
    then show ?thesis by blast
  next
    case False
    have "scrolled (blank (cur_style s)) (videomem ?s) i = m (80 * (top_line + 1) + i)" if "i < 2000" for i
      using that m(2) [of "i + 80"] m(3) [of "i + 80"] by (simp add: scrolled_def algebra_simps)
    moreover have "m (80 * (top_line + 1) + i) = blank (cur_style s)" if "2000 \<le> i" for i
      using that m(3) [of "i + 80"] by (simp add: algebra_simps)
    ultimately have "window (top_line + 1) (srv_putchar c (cur_style s) s) (tape_put c (cur_style s) t)"
      using False p m(1) by (simp add: window_def cursor_def)
    then show ?thesis by (intro exI [of _ "top_line + 1"]) simp
  qed
qed

lemma srv_putstr_window:
  assumes "window top_line s t"
  shows "\<exists>l. top_line \<le> l \<and> window l (srv_putstr cs s) (tape_puts cs (cur_style s) t) \<and>
    cur_style (srv_putstr cs s) = cur_style s \<and> (\<forall>i\<ge>2000. videomem (srv_putstr cs s) i = videomem s i)"
  using assms
proof (induction cs arbitrary: s t top_line)
  case (Cons c cs)
  let ?s = "srv_putchar c (cur_style s) s"
  note p = srv_putchar_window [OF Cons.prems]
  from p(1) obtain l where l: "top_line \<le> l" "window l ?s (tape_put c (cur_style s) t)" by blast
  from Cons.IH [OF l(2)] obtain l' where "l \<le> l'" "window l' (srv_putstr cs ?s) (tape_puts cs (cur_style ?s) (tape_put c (cur_style s) t))"
      "cur_style (srv_putstr cs ?s) = cur_style ?s" "\<forall>i\<ge>2000. videomem (srv_putstr cs ?s) i = videomem ?s i" by blast
  then show ?case using l(1) p(2,3) by (auto simp: srv_putstr_def tape_puts_def intro!: exI [of _ l'])
qed (auto simp: srv_putstr_def tape_puts_def)

end
