(* ===== verification/Servers.thy ===== *)
theory Servers
  imports Srv_Screen Util
begin

text \<open>
  The loops of the servers, \<open>main\<close> of \<^verbatim>\<open>userspace/srv_screen.c\<close> and \<^verbatim>\<open>userspace/srv_fullscreen.c\<close>: what a server does with a message
  after \<open>select\<close> and \<open>read\<close> have delivered it. \<open>m\<close> is the memory of the server and \<open>msg\<close> the address of its array, of which
  a message fills the first 64 bytes; the rest is what the stack held before.
\<close>

section \<open>The loops\<close>

definition srv_format :: "uint8 list" where
  "srv_format = [37, 120, 58, 37, 115, 10]"

definition serve_text :: "nat \<Rightarrow> (ptr \<Rightarrow> uint8) \<Rightarrow> ptr \<Rightarrow> uint32 \<times> screen \<Rightarrow> (uint32 \<times> screen) res" where
  "serve_text fuel m msg x =
     (case x of (iter, s) \<Rightarrow>
      let iter = iter + 1 in
      bindE (kprintf fuel m srv_format [iter, msg]) (\<lambda>cs.
      if 128 < length cs then Inl OutOfBounds
      else Inr (iter, srv_putstr (takeWhile (\<lambda>c. c \<noteq> 0) cs) s)))"

fun serve_texts :: "nat \<Rightarrow> ptr \<Rightarrow> (ptr \<Rightarrow> uint8) list \<Rightarrow> uint32 \<times> screen \<Rightarrow> (uint32 \<times> screen) res" where
  "serve_texts fuel msg [] x = Inr x"
| "serve_texts fuel msg (m # ms) x = bindE (serve_text fuel m msg x) (serve_texts fuel msg ms)"

definition fullscreen_start :: "screen \<Rightarrow> screen" where
  "fullscreen_start s =
     (let s = s\<lparr>cur_x := 0, cur_y := 0\<rparr>;
          s = screen_set_bg 0 s;
          s = screen_set_fg 15 s
      in srv_clear s)"

fun serve_pictures :: "uint8 list list \<Rightarrow> screen \<Rightarrow> screen res" where
  "serve_pictures [] s = Inr s"
| "serve_pictures (p # ps) s = bindE (screen_display p s) (serve_pictures ps)"

section \<open>Text\<close>

definition text_at :: "(ptr \<Rightarrow> uint8) \<Rightarrow> ptr \<Rightarrow> uint8 list \<Rightarrow> bool" where
  "text_at m p xs \<longleftrightarrow> map (\<lambda>i. m (p + of_nat i)) [0..<length xs] = xs \<and> m (p + of_nat (length xs)) = 0 \<and> 0 \<notin> set xs"

lemma text_at_Cons: "text_at m p (x # xs) \<longleftrightarrow> m p = x \<and> x \<noteq> 0 \<and> text_at m (p + 1) xs"
proof -
  have "map (\<lambda>i. m (p + of_nat i)) [0..<Suc (length xs)] = m p # map (\<lambda>i. m (p + 1 + of_nat i)) [0..<length xs]"
    by (simp add: upt_conv_Cons map_Suc_upt [symmetric] del: upt_Suc) (simp add: o_def add.assoc)
  then show ?thesis by (auto simp: text_at_def add.assoc simp del: upt_Suc)
qed

lemma str_at_text: "text_at m p xs \<Longrightarrow> length xs < fuel \<Longrightarrow> str_at fuel m p = Inr xs"
proof (induction xs arbitrary: p fuel)
  case Nil
  then show ?case by (cases fuel) (simp_all add: text_at_def)
next
  case (Cons x xs)
  then obtain n where "fuel = Suc n" by (cases fuel) auto
  then show ?case using Cons by (simp add: text_at_Cons)
qed

text \<open>The line the server prints for a message: the number of the message, a colon and the text.\<close>

definition hex_text :: "uint32 \<Rightarrow> uint8 list" where
  "hex_text n = [48, 120] @ map (nth digits) (rev (lsd 16 (unat n)))"

definition message_line :: "uint32 \<Rightarrow> uint8 list \<Rightarrow> uint8 list" where
  "message_line n xs = hex_text n @ [58] @ xs @ [10]"

lemma hex_text_props: "length (hex_text n) \<le> 10" "0 \<notin> set (hex_text n)"
proof -
  have "unat n < 16 ^ Suc 7" using unat32_less [of n] by simp
  then show "length (hex_text n) \<le> 10" using length_lsd [of 16 "unat n" 7] by (simp add: hex_text_def)
  show "0 \<notin> set (hex_text n)" using lsd_props(3) [of 16 "unat n"] by (auto simp: hex_text_def dest!: digits_nonzero)
qed

lemma kprintf_line:
  assumes "text_at m msg xs" "length xs < fuel"
  shows "kprintf fuel m srv_format [n, msg] = Inr (message_line n xs @ [0])"
proof -
  let ?ds = "map (nth digits) (rev (lsd 16 (unat n)))"
  have "length ?ds \<le> 31" using hex_text_props(1) [of n] by (simp add: hex_text_def)
  then have "int2str n 16 = Inr (?ds @ [0], length ?ds + 1)" using int2str_eq(1) [of 16 n] by simp
  then have "format_arg fuel m 120 n = Inr (hex_text n)" by (simp add: format_arg_def hex_text_def)
  then show ?thesis using str_at_text [OF assms] by (simp add: srv_format_def message_line_def format_arg_def)
qed

text \<open>
  A message of up to 115 bytes is printed as one line, and the screen stays a window on the tape of all that was
  printed.
\<close>

lemma serve_text_ok:
  assumes "text_at m msg xs" "length xs \<le> 115" "length xs < fuel" "window top_line s t"
  shows "\<exists>l s'. serve_text fuel m msg (iter, s) = Inr (iter + 1, s') \<and> top_line \<le> l \<and>
    window l s' (tape_puts (message_line (iter + 1) xs) (cur_style s) t) \<and> cur_style s' = cur_style s"
proof -
  let ?line = "message_line (iter + 1) xs"
  have z: "0 \<notin> set ?line" using assms(1) hex_text_props(2) [of "iter + 1"] by (auto simp: message_line_def text_at_def)
  have "takeWhile (\<lambda>c. c \<noteq> 0) (?line @ [0]) = ?line @ takeWhile (\<lambda>c. c \<noteq> 0) [0]" using z by (intro takeWhile_append2) auto
  then have tw: "takeWhile (\<lambda>c. c \<noteq> 0) (?line @ [0]) = ?line" by simp
  have "length (?line @ [0]) \<le> 128" using hex_text_props(1) [of "iter + 1"] assms(2) by (simp add: message_line_def)
  then have "serve_text fuel m msg (iter, s) = Inr (iter + 1, srv_putstr ?line s)"
    using kprintf_line [OF assms(1,3)] tw by (simp add: serve_text_def Let_def not_less)
  then show ?thesis using srv_putstr_window [OF assms(4), of ?line] by blast
qed

text \<open>The transcript of a sequence of messages.\<close>

fun transcript :: "uint32 \<Rightarrow> uint8 list list \<Rightarrow> uint8 list" where
  "transcript n [] = []"
| "transcript n (xs # xss) = message_line (n + 1) xs @ transcript (n + 1) xss"

lemma tape_puts_append: "tape_puts (a @ b) c t = tape_puts b c (tape_puts a c t)"
  by (simp add: tape_puts_def)

lemma serve_texts_ok:
  assumes "list_all2 (\<lambda>m xs. text_at m msg xs \<and> length xs \<le> 115 \<and> length xs < fuel) ms xss" "window top_line s t"
  shows "\<exists>l s'. serve_texts fuel msg ms (iter, s) = Inr (iter + of_nat (length xss), s') \<and> top_line \<le> l \<and>
    window l s' (tape_puts (transcript iter xss) (cur_style s) t)"
  using assms
proof (induction ms xss arbitrary: iter s t top_line rule: list_all2_induct)
  case Nil
  then show ?case by (auto simp: tape_puts_def)
next
  case (Cons m ms xs xss)
  obtain l s1 where s1: "serve_text fuel m msg (iter, s) = Inr (iter + 1, s1)" "top_line \<le> l"
      "window l s1 (tape_puts (message_line (iter + 1) xs) (cur_style s) t)" "cur_style s1 = cur_style s"
    using serve_text_ok [of m msg xs fuel top_line s t iter] Cons by blast
  obtain l' s2 where "serve_texts fuel msg ms (iter + 1, s1) = Inr (iter + 1 + of_nat (length xss), s2)" "l \<le> l'"
      "window l' s2 (tape_puts (transcript (iter + 1) xss) (cur_style s1) (tape_puts (message_line (iter + 1) xs) (cur_style s) t))"
    using Cons.IH [OF s1(3), of "iter + 1"] by blast
  then show ?case using s1 by (intro exI [of _ l'] exI [of _ s2]) (simp add: tape_puts_append add.assoc)
qed

section \<open>Pictures\<close>

text \<open>The screen shows the last picture, whatever was there before.\<close>

lemma serve_pictures_ok:
  assumes "\<forall>p\<in>set ps. length p = 2000" "ps \<noteq> []"
  shows "serve_pictures ps s = Inr (s\<lparr>videomem := (\<lambda>i. if i < 2000 then cell (cur_style s) (last ps ! i) else videomem s i)\<rparr>)"
  using assms
proof (induction ps arbitrary: s)
  case (Cons p ps)
  let ?s = "s\<lparr>videomem := (\<lambda>j. if j < 2000 then cell (cur_style s) (p ! j) else videomem s j)\<rparr>"
  have p: "screen_display p s = Inr ?s" using display_loop_eq [of 0 2000 p s] Cons.prems(1) by (simp add: screen_display_def)
  show ?case
  proof (cases "ps = []")
    case False
    then show ?thesis using p Cons.IH [of ?s] Cons.prems by (auto simp: fun_eq_iff intro!: screen.equality)
  next
    case True
    then have l: "last (p # ps) = p" and e: "serve_pictures (p # ps) s = Inr ?s" using p by simp_all
    show ?thesis unfolding l e by (rule refl)
  qed
qed simp

end
