(* ===== verification/Snake.thy ===== *)
theory Snake
  imports Prelude "HOL-Library.Signed_Division"
begin

text \<open>
  The game \<^verbatim>\<open>userspace/snake.c\<close> and the keyboard driver \<^verbatim>\<open>userspace/srv_keyboard.c\<close>. A \<^verbatim>\<open>short\<close> is a signed 16-bit
  word; sums are computed as \<^verbatim>\<open>int\<close>. The state of the game is that of its global variables. The
  system calls of the two programs connect them through streams, which \<open>Stream\<close> models: here the
  messages are lists of bytes.
\<close>

section \<open>State and operations of the game\<close>

record pos =
  pos_x :: "16 word"
  pos_y :: "16 word"

abbreviation (input) WIDTH :: int where "WIDTH \<equiv> 80"
abbreviation (input) HEIGHT :: int where "HEIGHT \<equiv> 25"
abbreviation (input) MAX_LEN :: nat where "MAX_LEN \<equiv> 400"

record game =
  picture :: "uint8 list"
  status :: "uint8 list"
  symbol :: uint8
  iterations :: "32 word"
  snake :: "nat \<Rightarrow> pos"
  snake_len :: nat
  direction :: pos

definition change_dir :: "game \<Rightarrow> game" where
  "change_dir g =
     (let nxt = (if status g ! 0x11 \<noteq> 0 then \<lparr>pos_x = 0, pos_y = - 1\<rparr>
                 else if status g ! 0x1F \<noteq> 0 then \<lparr>pos_x = 0, pos_y = 1\<rparr>
                 else if status g ! 0x1E \<noteq> 0 then \<lparr>pos_x = - 1, pos_y = 0\<rparr>
                 else if status g ! 0x20 \<noteq> 0 then \<lparr>pos_x = 1, pos_y = 0\<rparr>
                 else \<lparr>pos_x = 0, pos_y = 0\<rparr>) in
      if pos_x nxt = 0 \<and> pos_y nxt = 0 then g
      else if sint (pos_x nxt) + sint (pos_x (direction g)) = 0 \<and> sint (pos_y nxt) + sint (pos_y (direction g)) = 0 then g
      else g\<lparr>direction := nxt\<rparr>)"

text \<open>The loop of \<open>move_snake\<close> runs from \<open>i\<close> down to 1.\<close>

fun shift_snake :: "nat \<Rightarrow> (nat \<Rightarrow> pos) \<Rightarrow> (nat \<Rightarrow> pos)" where
  "shift_snake 0 a = a"
| "shift_snake (Suc i) a = (if 0 < i then shift_snake i (a(i := a (i - 1))) else a)"

definition step_x :: "pos \<Rightarrow> pos \<Rightarrow> 16 word" where
  "step_x p d = of_int ((WIDTH + sint (pos_x p) + sint (pos_x d)) smod WIDTH)"

definition step_y :: "pos \<Rightarrow> pos \<Rightarrow> 16 word" where
  "step_y p d = of_int ((HEIGHT + sint (pos_y p) + sint (pos_y d)) smod HEIGHT)"

definition move_snake :: "game \<Rightarrow> game" where
  "move_snake g =
     (let a = shift_snake (snake_len g) (snake g);
          a = a(0 := a 1);
          a = a(0 := (a 0)\<lparr>pos_x := step_x (a 0) (direction g)\<rparr>);
          a = a(0 := (a 0)\<lparr>pos_y := step_y (a 0) (direction g)\<rparr>)
      in g\<lparr>snake := a\<rparr>)"

definition cell_index :: "pos \<Rightarrow> int" where
  "cell_index p = sint (pos_x p) + sint (pos_y p) * WIDTH"

fun draw_loop :: "nat \<Rightarrow> nat \<Rightarrow> game \<Rightarrow> game res" where
  "draw_loop 0 i g = Inr g"
| "draw_loop (Suc n) i g =
     (let j = cell_index (snake g i) in
      if 0 \<le> j \<and> j < 2000 then draw_loop n (Suc i) (g\<lparr>picture := (picture g)[nat j := symbol g]\<rparr>) else Inl OutOfBounds)"

definition draw_snake :: "game \<Rightarrow> game res" where
  "draw_snake g = draw_loop (snake_len g) 0 (g\<lparr>picture := replicate 2000 32\<rparr>)"

definition enlarge_snake :: "game \<Rightarrow> game" where
  "enlarge_snake g =
     (if sint (iterations g) smod 16 \<noteq> 0 then g
      else if snake_len g = MAX_LEN then g
      else g\<lparr>snake := (snake g)(snake_len g := snake g (snake_len g - 1)), snake_len := snake_len g + 1\<rparr>)"

text \<open>The body of the snake at the start: each element lies behind the one before it, against the direction.\<close>

fun init_loop :: "nat \<Rightarrow> nat \<Rightarrow> pos \<Rightarrow> (nat \<Rightarrow> pos) \<Rightarrow> (nat \<Rightarrow> pos)" where
  "init_loop 0 i d a = a"
| "init_loop (Suc n) i d a =
     init_loop n (Suc i) d (a(i := \<lparr>pos_x = pos_x (a (i - 1)) - pos_x d, pos_y = pos_y (a (i - 1)) - pos_y d\<rparr>))"

text \<open>The variables of \<open>main\<close> before its connections are made; globals are zero or have their initial values.\<close>

definition init_game :: game where
  "init_game =
     (let a = (\<lambda>_. \<lparr>pos_x = 0, pos_y = 0\<rparr>);
          a = a(0 := \<lparr>pos_x = 20, pos_y = 12\<rparr>);
          d = \<lparr>pos_x = 1, pos_y = 0\<rparr>
      in \<lparr>picture = replicate 2000 0, status = replicate 128 0, symbol = 46, iterations = 0,
          snake = init_loop 4 1 d a, snake_len = 5, direction = d\<rparr>)"

text \<open>
  One round of the loop of \<open>main\<close>: the picture that is written to the screen, and the game with the keys
  that were read if \<open>peek\<close> found some.
\<close>

definition play :: "uint8 list option \<Rightarrow> game \<Rightarrow> (uint8 list \<times> game) res" where
  "play keys g =
     (let g = change_dir g;
          g = enlarge_snake g;
          g = move_snake g in
      bindE (draw_snake g) (\<lambda>g.
      let out = picture g;
          g = (case keys of None \<Rightarrow> g | Some ks \<Rightarrow> g\<lparr>status := ks\<rparr>)
      in Inr (out, g\<lparr>iterations := iterations g + 1\<rparr>)))"

section \<open>The keyboard driver\<close>

text \<open>\<open>read_key\<close> for the code that the port delivers; the array has 256 bytes.\<close>

definition read_key :: "uint8 \<Rightarrow> uint8 list \<Rightarrow> uint8 list" where
  "read_key opcode st = st[unat (opcode AND 0x7F) := (if drop_bit 7 opcode = 0 then 1 else 0)]"

definition read_keys :: "uint8 list \<Rightarrow> uint8 list" where
  "read_keys opcodes = fold read_key opcodes (replicate 256 0)"

section \<open>The snake stays on the screen\<close>

definition on_screen :: "pos \<Rightarrow> bool" where
  "on_screen p \<longleftrightarrow> 0 \<le> sint (pos_x p) \<and> sint (pos_x p) < WIDTH \<and> 0 \<le> sint (pos_y p) \<and> sint (pos_y p) < HEIGHT"

definition units :: "pos set" where
  "units = {\<lparr>pos_x = 0, pos_y = - 1\<rparr>, \<lparr>pos_x = 0, pos_y = 1\<rparr>, \<lparr>pos_x = - 1, pos_y = 0\<rparr>, \<lparr>pos_x = 1, pos_y = 0\<rparr>}"

definition game_ok :: "game \<Rightarrow> bool" where
  "game_ok g \<longleftrightarrow> 1 < snake_len g \<and> snake_len g \<le> MAX_LEN \<and> (\<forall>i. i < snake_len g \<longrightarrow> on_screen (snake g i)) \<and> direction g \<in> units"

text \<open>One step on the screen, which is closed at its edges.\<close>

definition neighbour :: "pos \<Rightarrow> pos \<Rightarrow> pos \<Rightarrow> bool" where
  "neighbour d p q \<longleftrightarrow> sint (pos_x q) = (sint (pos_x p) + sint (pos_x d)) mod WIDTH \<and>
     sint (pos_y q) = (sint (pos_y p) + sint (pos_y d)) mod HEIGHT"

lemma sint16_of_int: "0 \<le> n \<Longrightarrow> n < 32768 \<Longrightarrow> sint (of_int n :: 16 word) = n"
  by (simp add: sint_sbintrunc' signed_take_bit_int_eq_self)

lemma step_neighbour:
  assumes "on_screen p" "d \<in> units"
  shows "neighbour d p \<lparr>pos_x = step_x p d, pos_y = step_y p d\<rparr>" "on_screen \<lparr>pos_x = step_x p d, pos_y = step_y p d\<rparr>"
proof -
  have b: "- 1 \<le> sint (pos_x d)" "- 1 \<le> sint (pos_y d)" using assms(2) by (auto simp: units_def)
  have x: "0 \<le> WIDTH + sint (pos_x p) + sint (pos_x d)" and y: "0 \<le> HEIGHT + sint (pos_y p) + sint (pos_y d)"
    using assms(1) b by (auto simp: on_screen_def)
  have sm: "a smod n = a mod n" if "0 \<le> a" "0 < n" for a n :: int
    using that by (cases "a = 0") (simp_all add: signed_modulo_int_def signed_divide_int_def minus_div_mult_eq_mod)
  have ux: "sint (step_x p d) = (sint (pos_x p) + sint (pos_x d)) mod WIDTH"
    using sm [OF x, of WIDTH] sint16_of_int [of "(WIDTH + sint (pos_x p) + sint (pos_x d)) mod WIDTH"]
    by (simp add: step_x_def add.assoc less_le_trans [OF pos_mod_bound])
  have uy: "sint (step_y p d) = (sint (pos_y p) + sint (pos_y d)) mod HEIGHT"
    using sm [OF y, of HEIGHT] sint16_of_int [of "(HEIGHT + sint (pos_y p) + sint (pos_y d)) mod HEIGHT"]
    by (simp add: step_y_def add.assoc less_le_trans [OF pos_mod_bound])
  show "neighbour d p \<lparr>pos_x = step_x p d, pos_y = step_y p d\<rparr>" using ux uy by (simp add: neighbour_def)
  show "on_screen \<lparr>pos_x = step_x p d, pos_y = step_y p d\<rparr>" using ux uy by (simp add: on_screen_def)
qed

lemma shift_snake_eq: "shift_snake n a = (\<lambda>i. if 0 < i \<and> i < n then a (i - 1) else a i)"
proof (induction n arbitrary: a)
  case (Suc n)
  show ?case
  proof (rule ext)
    fix x
    show "shift_snake (Suc n) a x = (if 0 < x \<and> x < Suc n then a (x - 1) else a x)"
      unfolding shift_snake.simps if_distrib [of "\<lambda>f. f x"] Suc.IH by (cases "x = n") auto
  qed
qed (simp add: fun_eq_iff)

lemma move_snake_ok:
  assumes "game_ok g"
  shows "game_ok (move_snake g)" "snake_len (move_snake g) = snake_len g" "direction (move_snake g) = direction g"
    "\<forall>i. 0 < i \<and> i < snake_len g \<longrightarrow> snake (move_snake g) i = snake g (i - 1)"
    "neighbour (direction g) (snake g 0) (snake (move_snake g) 0)" "symbol (move_snake g) = symbol g"
    "iterations (move_snake g) = iterations g" "status (move_snake g) = status g"
proof -
  have len: "1 < snake_len g" using assms by (simp add: game_ok_def)
  have head: "snake (move_snake g) 0 = \<lparr>pos_x = step_x (snake g 0) (direction g), pos_y = step_y (snake g 0) (direction g)\<rparr>"
    using len by (simp add: move_snake_def shift_snake_eq Let_def step_y_def)
  have body: "snake (move_snake g) i = snake g (i - 1)" if "0 < i" "i < snake_len g" for i
    using that by (simp add: move_snake_def shift_snake_eq Let_def)
  have "on_screen (snake g 0)" "direction g \<in> units" using assms len by (auto simp: game_ok_def)
  note st = step_neighbour [OF this]
  show "neighbour (direction g) (snake g 0) (snake (move_snake g) 0)" using st(1) head by simp
  show "\<forall>i. 0 < i \<and> i < snake_len g \<longrightarrow> snake (move_snake g) i = snake g (i - 1)" using body by blast
  show l: "snake_len (move_snake g) = snake_len g" "direction (move_snake g) = direction g"
    "symbol (move_snake g) = symbol g" "iterations (move_snake g) = iterations g" "status (move_snake g) = status g"
    by (simp_all add: move_snake_def Let_def)
  have "on_screen (snake (move_snake g) i)" if "i < snake_len g" for i
    using that body [of i] st(2) head assms by (cases "i = 0") (auto simp: game_ok_def)
  then show "game_ok (move_snake g)" using assms l by (simp add: game_ok_def)
qed

lemma change_dir_ok:
  assumes "game_ok g"
  shows "game_ok (change_dir g)" "snake (change_dir g) = snake g" "snake_len (change_dir g) = snake_len g"
    "symbol (change_dir g) = symbol g" "iterations (change_dir g) = iterations g"
    "\<not> (sint (pos_x (direction (change_dir g))) = - sint (pos_x (direction g)) \<and>
        sint (pos_y (direction (change_dir g))) = - sint (pos_y (direction g)))"
  using assms by (auto simp: change_dir_def Let_def game_ok_def units_def)

lemma enlarge_snake_ok:
  assumes "game_ok g"
  shows "game_ok (enlarge_snake g)" "direction (enlarge_snake g) = direction g" "symbol (enlarge_snake g) = symbol g"
    "iterations (enlarge_snake g) = iterations g"
    "\<forall>i. i < snake_len g \<longrightarrow> snake (enlarge_snake g) i = snake g i"
    "snake_len (enlarge_snake g) = (if sint (iterations g) smod 16 = 0 then min 400 (snake_len g + 1) else snake_len g)"
  using assms by (auto simp: enlarge_snake_def game_ok_def less_Suc_eq)

text \<open>The cells of the first \<open>n\<close> elements of the snake.\<close>

definition covered_cells :: "game \<Rightarrow> nat set" where
  "covered_cells g = (\<lambda>i. nat (cell_index (snake g i))) ` {..< snake_len g}"

lemma cell_index_on_screen: "on_screen p \<Longrightarrow> 0 \<le> cell_index p \<and> cell_index p < 2000"
  by (auto simp: on_screen_def cell_index_def)

lemma draw_loop_eq:
  assumes "\<forall>j. i \<le> j \<and> j < i + n \<longrightarrow> on_screen (snake g j)" "length (picture g) = 2000"
  shows "\<exists>p. draw_loop n i g = Inr (g\<lparr>picture := p\<rparr>) \<and> length p = 2000 \<and>
    (\<forall>c<2000. p ! c = (if \<exists>j. i \<le> j \<and> j < i + n \<and> nat (cell_index (snake g j)) = c then symbol g else picture g ! c))"
  using assms
proof (induction n arbitrary: i g)
  case (Suc n)
  let ?j = "cell_index (snake g i)"
  have j: "0 \<le> ?j" "?j < 2000" using cell_index_on_screen Suc.prems(1) by auto
  obtain p where p: "draw_loop n (Suc i) (g\<lparr>picture := (picture g)[nat ?j := symbol g]\<rparr>) = Inr (g\<lparr>picture := p\<rparr>)" "length p = 2000"
      "\<forall>c<2000. p ! c = (if \<exists>j. Suc i \<le> j \<and> j < Suc i + n \<and> nat (cell_index (snake g j)) = c then symbol g
        else (picture g)[nat ?j := symbol g] ! c)"
    using Suc.IH [of "Suc i" "g\<lparr>picture := (picture g)[nat ?j := symbol g]\<rparr>"] Suc.prems by (auto cong: if_cong)
  have "p ! c = (if \<exists>j. i \<le> j \<and> j < i + Suc n \<and> nat (cell_index (snake g j)) = c then symbol g else picture g ! c)" if "c < 2000" for c
  proof (cases "c = nat ?j")
    case True
    then have "\<exists>j. i \<le> j \<and> j < i + Suc n \<and> nat (cell_index (snake g j)) = c" by (intro exI [of _ i]) simp
    then show ?thesis using p(3) [rule_format, OF that] True that Suc.prems(2) by simp
  next
    case False
    then have "(\<exists>j. i \<le> j \<and> j < i + Suc n \<and> nat (cell_index (snake g j)) = c) \<longleftrightarrow>
        (\<exists>j. Suc i \<le> j \<and> j < Suc i + n \<and> nat (cell_index (snake g j)) = c)"
      by (metis Suc_leD Suc_leI add_Suc add_Suc_right le_neq_implies_less)
    then show ?thesis using p(3) [rule_format, OF that] False by (simp only: nth_list_update_neq [OF False [symmetric]])
  qed
  then show ?case using j p(1,2) by (intro exI [of _ p]) (simp add: Let_def)
next
  case 0
  then show ?case by (intro exI [of _ "picture g"]) auto
qed

lemma draw_snake_eq:
  assumes "game_ok g"
  shows "\<exists>p. draw_snake g = Inr (g\<lparr>picture := p\<rparr>) \<and> length p = 2000 \<and>
    (\<forall>c<2000. p ! c = (if c \<in> covered_cells g then symbol g else 32))"
proof -
  obtain p where "draw_snake g = Inr (g\<lparr>picture := p\<rparr>)" "length p = 2000"
      "\<forall>c<2000. p ! c = (if \<exists>j. 0 \<le> j \<and> j < 0 + snake_len g \<and> nat (cell_index (snake g j)) = c then symbol g else replicate 2000 32 ! c)"
    using draw_loop_eq [of 0 "snake_len g" "g\<lparr>picture := replicate 2000 32\<rparr>"] assms by (auto simp: draw_snake_def game_ok_def cong: if_cong)
  then show ?thesis by (intro exI [of _ p]) (auto simp: covered_cells_def)
qed

lemma play_ok:
  assumes "game_ok g"
  shows "\<exists>out g'. play keys g = Inr (out, g') \<and> game_ok g' \<and> length out = 2000 \<and>
    (\<forall>c<2000. out ! c = (if c \<in> covered_cells g' then symbol g' else 32)) \<and>
    neighbour (direction g') (snake g 0) (snake g' 0) \<and>
    (\<forall>i. 0 < i \<and> i < snake_len g \<longrightarrow> snake g' i = snake g (i - 1)) \<and>
    snake_len g' = (if sint (iterations g) smod 16 = 0 then min 400 (snake_len g + 1) else snake_len g) \<and>
    \<not> (sint (pos_x (direction g')) = - sint (pos_x (direction g)) \<and> sint (pos_y (direction g')) = - sint (pos_y (direction g)))"
proof -
  define g1 where "g1 = change_dir g"
  define g2 where "g2 = enlarge_snake g1"
  define g3 where "g3 = move_snake g2"
  note 1 = change_dir_ok [OF assms, folded g1_def]
  note 2 = enlarge_snake_ok [OF 1(1), folded g2_def]
  note 3 = move_snake_ok [OF 2(1), folded g3_def]
  obtain p where p: "draw_snake g3 = Inr (g3\<lparr>picture := p\<rparr>)" "length p = 2000"
      "\<forall>c<2000. p ! c = (if c \<in> covered_cells g3 then symbol g3 else 32)"
    using draw_snake_eq [OF 3(1)] by blast
  define g' where "g' = (case keys of None \<Rightarrow> g3\<lparr>picture := p\<rparr> | Some ks \<Rightarrow> g3\<lparr>picture := p, status := ks\<rparr>)\<lparr>iterations := iterations g3 + 1\<rparr>"
  have g': "snake g' = snake g3" "snake_len g' = snake_len g3" "direction g' = direction g3" "symbol g' = symbol g3"
    by (auto simp: g'_def split: option.split)
  have "play keys g = Inr (p, g')"
    using p(1) by (auto simp: play_def g1_def g2_def g3_def g'_def Let_def split: option.split)
  moreover have "covered_cells g' = covered_cells g3" "game_ok g'" using g' 3(1) by (simp_all add: covered_cells_def game_ok_def)
  moreover have "\<forall>i. 0 < i \<and> i < snake_len g \<longrightarrow> snake g3 i = snake g (i - 1)" "snake g2 0 = snake g 0"
    using 1(2,3) 2(5,6) 3(2,4) assms by (auto simp: game_ok_def split: if_splits)
  ultimately show ?thesis using p(2,3) 1 2 3 g' by auto
qed

lemma init_game_ok: "game_ok init_game"
  by (simp add: game_ok_def init_game_def Let_def on_screen_def units_def numeral_eq_Suc less_Suc_eq)

text \<open>Only the first 128 of the 256 bytes of the key state are ever set.\<close>

lemma read_key_half: "length st = 256 \<Longrightarrow> drop 128 (read_key opcode st) = drop 128 st"
proof -
  have "unat (opcode AND 0x7F) < 128" using word_and_le1 [of opcode "0x7F"] by (simp add: word_le_nat_alt)
  then show ?thesis by (simp add: read_key_def drop_update_cancel)
qed

lemma read_keys_half: "length (read_keys ops) = 256 \<and> drop 128 (read_keys ops) = replicate 128 0"
proof -
  have "length (fold read_key ops st) = 256 \<and> drop 128 (fold read_key ops st) = drop 128 st" if "length st = 256" for st
    using that
  proof (induction ops arbitrary: st)
    case (Cons a ops)
    have "length (read_key a st) = 256" using Cons.prems by (simp add: read_key_def)
    then show ?case using Cons.IH [of "read_key a st"] read_key_half [OF Cons.prems] by simp
  qed simp
  then show ?thesis by (simp add: read_keys_def)
qed

end
