(* ===== verification/Fifo.thy ===== *)
theory Fifo
  imports Prelude
begin

text \<open>
  The interface of a first-in first-out queue, as the clients of the linked lists
  (\<^verbatim>\<open>kernel/list.c\<close>) and of the byte streams (\<^verbatim>\<open>kernel/stream.c\<close>) use it. The lemmas about
  sequences of operations are proved here once; both components are interpretations.
\<close>

section \<open>The interface of a queue\<close>

text \<open>
  \<open>put\<close> appends at the back, \<open>get\<close> removes at the front; \<open>room\<close> bounds the number of elements
  that surely fit, and \<open>good\<close> says which elements may be put.
\<close>

fun put_all :: "('a \<Rightarrow> 's \<Rightarrow> 's res) \<Rightarrow> 'a list \<Rightarrow> 's \<Rightarrow> 's res" where
  "put_all put [] s = Inr s"
| "put_all put (x # xs) s = bindE (put x s) (put_all put xs)"

fun take_all :: "('s \<Rightarrow> ('a \<times> 's) res) \<Rightarrow> nat \<Rightarrow> 's \<Rightarrow> ('a list \<times> 's) res" where
  "take_all get 0 s = Inr ([], s)"
| "take_all get (Suc n) s =
     bindE (get s) (\<lambda>(x, s). bindE (take_all get n s) (\<lambda>(xs, s). Inr (x # xs, s)))"

locale fifo =
  fixes put :: "'a \<Rightarrow> 's \<Rightarrow> 's res"
    and get :: "'s \<Rightarrow> ('a \<times> 's) res"
    and contents :: "'s \<Rightarrow> 'a list"
    and inv :: "'s \<Rightarrow> bool"
    and room :: "'s \<Rightarrow> nat"
    and good :: "'a \<Rightarrow> bool"
  assumes put_ok: "inv s \<Longrightarrow> 0 < room s \<Longrightarrow> good x \<Longrightarrow>
      \<exists>s'. put x s = Inr s' \<and> inv s' \<and> contents s' = contents s @ [x] \<and> room s \<le> room s' + 1"
    and take_ok: "inv s \<Longrightarrow> contents s = x # xs \<Longrightarrow>
      \<exists>s'. get s = Inr (x, s') \<and> inv s' \<and> contents s' = xs"
begin

lemma put_all_ok:
  "inv s \<Longrightarrow> length xs \<le> room s \<Longrightarrow> \<forall>x\<in>set xs. good x \<Longrightarrow>
   \<exists>s'. put_all put xs s = Inr s' \<and> inv s' \<and> contents s' = contents s @ xs"
proof (induction xs arbitrary: s)
  case (Cons x xs)
  then obtain s1 where s1: "put x s = Inr s1" "inv s1" "contents s1 = contents s @ [x]" "room s \<le> room s1 + 1"
    using put_ok [of s x] by auto
  with Cons obtain s' where "put_all put xs s1 = Inr s'" "inv s'" "contents s' = contents s1 @ xs"
    by (metis Suc_le_mono add.commute le_trans length_Cons list.set_intros(2) plus_1_eq_Suc)
  with s1 show ?case by auto
qed simp

lemma take_all_ok:
  "inv s \<Longrightarrow> contents s = xs @ ys \<Longrightarrow>
   \<exists>s'. take_all get (length xs) s = Inr (xs, s') \<and> inv s' \<and> contents s' = ys"
proof (induction xs arbitrary: s)
  case (Cons x xs)
  then obtain s1 where s1: "get s = Inr (x, s1)" "inv s1" "contents s1 = xs @ ys"
    using take_ok [of s x "xs @ ys"] by auto
  with Cons.IH [OF s1(2,3)] show ?case by auto
qed simp

text \<open>What was put comes out again, in the same order, after what was there before.\<close>

lemma put_all_take_all:
  assumes "inv s" "length xs \<le> room s" "\<forall>x\<in>set xs. good x"
  shows "\<exists>s'. bindE (put_all put xs s) (take_all get (length (contents s) + length xs)) = Inr (contents s @ xs, s') \<and>
    inv s' \<and> contents s' = []"
proof -
  obtain s1 where "put_all put xs s = Inr s1" "inv s1" "contents s1 = contents s @ xs"
    using put_all_ok [OF assms] by blast
  then show ?thesis using take_all_ok [of s1 "contents s @ xs" "[]"] by auto
qed

end

end
