(* ===== verification/Stream.thy ===== *)
theory Stream
  imports Fifo
begin

text \<open>
  The byte streams of \<^verbatim>\<open>kernel/stream.c\<close>: a ring buffer of 1024 bytes with a read and a write
  index, between which the bytes lie that were written and not read yet, and the table of
  the streams of a process.

  A call of \<open>stream_write\<close> or \<open>stream_read\<close> that finds no room (no byte) makes its thread wait
  and is retried when the stream's event holds. The sequential functions therefore return the
  bytes that are still to be written (the number still to be read) at the point where the
  thread would wait; calling them again with that rest is what the loop in the code does
  after the wait. The last section has reader and writer as two threads whose single loads
  and stores interleave.
\<close>

section \<open>Data\<close>

abbreviation (input) STREAM_BUF_LEN :: nat where "STREAM_BUF_LEN \<equiv> 1024"
abbreviation (input) MAX_DESCRIPTORS :: nat where "MAX_DESCRIPTORS \<equiv> 32"

record stream =
  rd :: uint16
  wr :: uint16
  buf :: "nat \<Rightarrow> uint8"

record iostream =
  io_input :: ptr
  io_output :: ptr

type_synonym iostream_descriptors = "nat \<Rightarrow> iostream"

section \<open>Operations on one stream\<close>

definition next_step :: "uint16 \<Rightarrow> uint16" where
  "next_step p = (p + 1) mod 1024"

definition stream_write_length :: "stream \<Rightarrow> uint32" where
  "stream_write_length this =
     (let result = uint (rd this) - uint (wr this) - 1;
          result = (if result < 0 then result + int STREAM_BUF_LEN else result)
      in word_of_int result)"

definition stream_read_length :: "stream \<Rightarrow> uint32" where
  "stream_read_length this =
     (let result = uint (wr this) - uint (rd this) - 1;
          result = (if result < 0 then result + int STREAM_BUF_LEN else result)
      in word_of_int result)"

text \<open>The body of the loop of \<open>stream_write\<close> and of \<open>stream_read\<close>, for one byte.\<close>

definition stream_put :: "uint8 \<Rightarrow> stream \<Rightarrow> stream res" where
  "stream_put x this =
     (if stream_write_length this = 0 then Inl Blocks
      else if unat (wr this) < STREAM_BUF_LEN
      then Inr (this\<lparr>buf := (buf this)(unat (wr this) := x), wr := next_step (wr this)\<rparr>)
      else Inl OutOfBounds)"

definition stream_get :: "stream \<Rightarrow> (uint8 \<times> stream) res" where
  "stream_get this =
     (if stream_read_length this = 0 then Inl Blocks
      else let this = this\<lparr>rd := next_step (rd this)\<rparr>
      in if unat (rd this) < STREAM_BUF_LEN then Inr (buf this (unat (rd this)), this)
         else Inl OutOfBounds)"

fun stream_write :: "uint8 list \<Rightarrow> stream \<Rightarrow> uint8 list \<times> stream" where
  "stream_write [] this = ([], this)"
| "stream_write (x # xs) this =
     (case stream_put x this of Inl _ \<Rightarrow> (x # xs, this) | Inr this \<Rightarrow> stream_write xs this)"

fun stream_read :: "nat \<Rightarrow> stream \<Rightarrow> uint8 list \<times> nat \<times> stream" where
  "stream_read 0 this = ([], 0, this)"
| "stream_read (Suc n) this =
     (case stream_get this of
        Inl _ \<Rightarrow> ([], Suc n, this)
      | Inr (x, this) \<Rightarrow> (case stream_read n this of (xs, m, this) \<Rightarrow> (x # xs, m, this)))"

text \<open>\<open>stream_new\<close> gets zeroed memory.\<close>

definition stream_new :: stream where
  "stream_new = \<lparr>rd = 0, wr = 1, buf = (\<lambda>_. 0)\<rparr>"

section \<open>The descriptor table of a process\<close>

text \<open>\<open>ss p\<close> is the stream at address \<open>p\<close>. The loops run over the table from slot \<open>i\<close> on.\<close>

function select_from :: "nat \<Rightarrow> iostream_descriptors \<Rightarrow> (ptr \<Rightarrow> stream) \<Rightarrow> int" where
  "select_from i descr ss =
     (if i < MAX_DESCRIPTORS
      then if io_input (descr i) = 0 then - 1
        else if 0 < stream_read_length (ss (io_input (descr i))) then int i
        else select_from (Suc i) descr ss
      else - 1)"
  by pat_completeness auto
termination by (relation "measure (\<lambda>(i, _). MAX_DESCRIPTORS - i)") auto

definition iostream_select :: "iostream_descriptors \<Rightarrow> (ptr \<Rightarrow> stream) \<Rightarrow> int" where
  "iostream_select descr ss = select_from 0 descr ss"

function attach_from :: "nat \<Rightarrow> ptr \<Rightarrow> ptr \<Rightarrow> iostream_descriptors \<Rightarrow> int \<times> iostream_descriptors" where
  "attach_from i inp outp descr =
     (if i < MAX_DESCRIPTORS
      then if io_input (descr i) \<noteq> 0 then attach_from (Suc i) inp outp descr
        else (int i, descr(i := \<lparr>io_input = inp, io_output = outp\<rparr>))
      else (- 1, descr))"
  by pat_completeness auto
termination by (relation "measure (\<lambda>(i, _). MAX_DESCRIPTORS - i)") auto

definition iostream_attach :: "ptr \<Rightarrow> ptr \<Rightarrow> iostream_descriptors \<Rightarrow> int \<times> iostream_descriptors" where
  "iostream_attach inp outp descr = attach_from 0 inp outp descr"

declare select_from.simps [simp del] attach_from.simps [simp del]

section \<open>The ring buffer is a bounded queue\<close>

definition stream_ok :: "stream \<Rightarrow> bool" where
  "stream_ok this \<longleftrightarrow> rd this < 1024 \<and> wr this < 1024 \<and> rd this \<noteq> wr this"

definition stored :: "stream \<Rightarrow> nat" where
  "stored this = (if unat (rd this) < unat (wr this) then unat (wr this) - unat (rd this) - 1
     else unat (wr this) + 1023 - unat (rd this))"

definition stream_contents :: "stream \<Rightarrow> uint8 list" where
  "stream_contents this = map (\<lambda>i. buf this ((unat (rd this) + 1 + i) mod 1024)) [0..<stored this]"

lemma unat_next_step: "p < 1024 \<Longrightarrow> unat (next_step p) = (unat p + 1) mod 1024"
  by (simp add: next_step_def unat_mod unat_word_ariths word_less_nat_alt)

lemma stream_okD: "stream_ok s \<Longrightarrow> unat (rd s) < 1024 \<and> unat (wr s) < 1024 \<and> unat (rd s) \<noteq> unat (wr s)"
  by (simp add: stream_ok_def word_less_nat_alt word_unat_eq_iff)

lemma stored_le: "stream_ok s \<Longrightarrow> stored s \<le> 1022"
  using stream_okD [of s] by (auto simp: stored_def)

lemma unat_read_length: "stream_ok s \<Longrightarrow> unat (stream_read_length s) = stored s"
proof -
  assume ok: "stream_ok s"
  define r w where rw: "r = unat (rd s)" "w = unat (wr s)"
  have "(let result = int w - int r - 1 in if result < 0 then result + int 1024 else result) = int (stored s)"
    using stream_okD [OF ok] unfolding stored_def rw [symmetric] Let_def by (auto simp: of_nat_diff)
  then have "stream_read_length s = of_nat (stored s)"
    unfolding stream_read_length_def Let_def uint_nat rw by (simp only: of_int_of_nat_eq)
  then show ?thesis using stored_le [OF ok] by (simp add: unat_of_nat)
qed

lemma unat_write_length: "stream_ok s \<Longrightarrow> unat (stream_write_length s) = 1022 - stored s"
proof -
  assume ok: "stream_ok s"
  define r w where rw: "r = unat (rd s)" "w = unat (wr s)"
  have "(let result = int r - int w - 1 in if result < 0 then result + int 1024 else result) = int (1022 - stored s)"
    using stream_okD [OF ok] unfolding stored_def rw [symmetric] Let_def by (auto simp: of_nat_diff)
  then have "stream_write_length s = of_nat (1022 - stored s)"
    unfolding stream_write_length_def Let_def uint_nat rw by (simp only: of_int_of_nat_eq)
  then show ?thesis by (simp add: unat_of_nat)
qed

lemma lengths_zero:
  assumes "stream_ok s"
  shows "stream_read_length s = 0 \<longleftrightarrow> stored s = 0" "stream_write_length s = 0 \<longleftrightarrow> stored s = 1022"
  using unat_read_length [OF assms] unat_write_length [OF assms] stored_le [OF assms]
  by (auto simp: word_unat_eq_iff)

lemma ring_inject: "i < 1024 \<Longrightarrow> j < 1024 \<Longrightarrow> (a + i) mod 1024 = (a + j) mod 1024 \<longleftrightarrow> i = (j :: nat)"
proof
  assume b: "i < 1024" "j < 1024" and eq: "(a + i) mod 1024 = (a + j) mod 1024"
  have *: "x = y" if "x \<le> y" "y < 1024" "(a + x) mod 1024 = (a + y) mod 1024" for x y
  proof -
    have "1024 dvd (a + y) - (a + x)" using that mod_eq_dvd_iff_nat [of "a + x" "a + y" 1024] by simp
    then have "1024 dvd y - x" by simp
    then show "x = y" using that(1,2) by (auto dest: dvd_imp_le)
  qed
  show "i = j" using * [of i j] * [of j i] b eq by (cases "i \<le> j") simp_all
qed simp

lemma stored_ring: "stream_ok s \<Longrightarrow> (unat (rd s) + 1 + stored s) mod 1024 = unat (wr s)"
  using stream_okD [of s] by (auto simp: stored_def)

text \<open>The number of stored bytes is determined by the distance of the indices.\<close>

lemma stored_unique:
  assumes "stream_ok s" "k \<le> 1022" "(unat (rd s) + 1 + k) mod 1024 = unat (wr s)"
  shows "stored s = k"
proof -
  have "(unat (rd s) + 1 + stored s) mod 1024 = (unat (rd s) + 1 + k) mod 1024"
    using stored_ring [OF assms(1)] assms(3) by simp
  then show ?thesis
    using stored_le [OF assms(1)] assms(2) ring_inject [of "1 + stored s" "1 + k" "unat (rd s)"] by (simp add: add.assoc)
qed

lemma stream_put_ok:
  assumes ok: "stream_ok s" and room: "stored s < 1022"
  shows "\<exists>s'. stream_put x s = Inr s' \<and> stream_ok s' \<and> stream_contents s' = stream_contents s @ [x] \<and> stored s' = Suc (stored s)"
proof -
  define r w n where rw: "r = unat (rd s)" "w = unat (wr s)" "n = stored s"
  let ?s = "s\<lparr>buf := (buf s)(w := x), wr := next_step (wr s)\<rparr>"
  have b: "r < 1024" "w < 1024" "r \<noteq> w" "(r + 1 + n) mod 1024 = w" "n < 1022"
    using stream_okD [OF ok] stored_ring [OF ok] room by (simp_all add: rw)
  have u: "unat (wr ?s) = (w + 1) mod 1024" using ok by (simp add: unat_next_step stream_ok_def rw)
  have "(w + 1) mod 1024 = (r + (n + 2)) mod 1024" using mod_add_left_eq [of "r + 1 + n" 1024 1] b(4) by (simp add: add_ac)
  then have "(w + 1) mod 1024 \<noteq> r" using b(1,5) ring_inject [of "n + 2" 0 r] by simp
  then have ok': "stream_ok ?s" using ok u by (simp add: stream_ok_def word_less_nat_alt word_unat_eq_iff rw)
  have st: "stored ?s = Suc n"
  proof (rule stored_unique [OF ok'])
    have "(r + 1 + Suc n) mod 1024 = ((r + 1 + n) mod 1024 + 1) mod 1024"
      using mod_add_left_eq [of "r + 1 + n" 1024 1] by simp
    then show "(unat (rd ?s) + 1 + Suc n) mod 1024 = unat (wr ?s)" using b(4) u by (simp add: rw)
  qed (use b in simp)
  have "(r + 1 + i) mod 1024 \<noteq> w" if "i < n" for i
    using b(4,5) that ring_inject [of "1 + i" "1 + n" r] by (simp add: add.assoc)
  then have "stream_contents ?s = stream_contents s @ [x]"
    using b(4) by (auto simp: stream_contents_def st rw [symmetric])
  moreover have "stream_put x s = Inr ?s"
    using lengths_zero(2) [OF ok] room b by (simp add: stream_put_def rw [symmetric])
  ultimately show ?thesis using ok' st by (auto simp: rw)
qed

lemma stream_get_ok:
  assumes ok: "stream_ok s" and ne: "stream_contents s = x # xs"
  shows "\<exists>s'. stream_get s = Inr (x, s') \<and> stream_ok s' \<and> stream_contents s' = xs \<and> Suc (stored s') = stored s"
proof -
  define r w n where rw: "r = unat (rd s)" "w = unat (wr s)" "n = stored s"
  let ?s = "s\<lparr>rd := next_step (rd s)\<rparr>"
  have pos: "0 < n" using ne by (auto simp: stream_contents_def rw intro: gr0I)
  have b: "r < 1024" "w < 1024" "r \<noteq> w" "(r + 1 + n) mod 1024 = w" "n \<le> 1022"
    using stream_okD [OF ok] stored_ring [OF ok] stored_le [OF ok] by (simp_all add: rw)
  have u: "unat (rd ?s) = (r + 1) mod 1024" using ok by (simp add: unat_next_step stream_ok_def rw)
  have "(r + 1) mod 1024 \<noteq> w" using b(4,5) pos ring_inject [of 1 "1 + n" r] by (simp add: add.assoc)
  then have ok': "stream_ok ?s" using ok u by (simp add: stream_ok_def word_less_nat_alt word_unat_eq_iff rw)
  have st: "stored ?s = n - 1"
  proof (rule stored_unique [OF ok'])
    have "((r + 1) mod 1024 + 1 + (n - 1)) mod 1024 = (r + 1 + n) mod 1024"
      using mod_add_left_eq [of "r + 1" 1024 n] pos by simp
    then show "(unat (rd ?s) + 1 + (n - 1)) mod 1024 = unat (wr ?s)" using b(4) u by (simp add: rw)
  qed (use b in simp)
  have "stream_contents s = buf s ((r + 1) mod 1024) # map (\<lambda>i. buf s ((r + 1 + Suc i) mod 1024)) [0..<n - 1]"
    using pos unfolding stream_contents_def rw(1,3) [symmetric] by (cases n) (simp_all add: upt_conv_Cons map_Suc_upt [symmetric] del: upt_Suc)
  moreover have "((r + 1) mod 1024 + 1 + i) mod 1024 = (r + 1 + Suc i) mod 1024" for i
    using mod_add_left_eq [of "r + 1" 1024 "1 + i"] by (simp add: add.assoc)
  then have "stream_contents ?s = map (\<lambda>i. buf s ((r + 1 + Suc i) mod 1024)) [0..<n - 1]"
    unfolding stream_contents_def st u by simp
  ultimately have "x = buf s ((r + 1) mod 1024)" "stream_contents ?s = xs" using ne by simp_all
  moreover have "stream_get s = Inr (buf s ((r + 1) mod 1024), ?s)"
    using lengths_zero(1) [OF ok] pos u by (simp add: stream_get_def Let_def rw)
  ultimately show ?thesis using ok' st pos by (auto simp: rw)
qed

lemma stream_new_ok: "stream_ok stream_new" "stream_contents stream_new = []" "stored stream_new = 0"
  by (simp_all add: stream_ok_def stream_contents_def stream_new_def stored_def)

lemma length_contents [simp]: "length (stream_contents s) = stored s"
  by (simp add: stream_contents_def)

interpretation st: fifo stream_put stream_get stream_contents stream_ok "\<lambda>s. 1022 - stored s" "\<lambda>_. True"
proof (unfold_locales, goal_cases)
  case (1 s x)
  then show ?case using stream_put_ok [of s x] by auto
next
  case (2 s x xs)
  then show ?case using stream_get_ok [of s x xs] by auto
qed

lemma stream_put_full: "stream_ok s \<Longrightarrow> stored s = 1022 \<Longrightarrow> stream_put x s = Inl Blocks"
  by (simp add: stream_put_def lengths_zero)

lemma stream_get_none: "stream_ok s \<Longrightarrow> stream_contents s = [] \<Longrightarrow> stream_get s = Inl Blocks"
  using length_contents [of s] by (simp add: stream_get_def lengths_zero)

text \<open>A write transfers as many bytes as there is room for, a read as many as there are.\<close>

lemma stream_write_eq:
  assumes "stream_ok s"
  shows "\<exists>s'. stream_write xs s = (drop (1022 - stored s) xs, s') \<and> stream_ok s' \<and>
    stream_contents s' = stream_contents s @ take (1022 - stored s) xs"
  using assms
proof (induction xs arbitrary: s)
  case (Cons x xs)
  show ?case
  proof (cases "stored s < 1022")
    case True
    then obtain s1 where s1: "stream_put x s = Inr s1" "stream_ok s1" "stream_contents s1 = stream_contents s @ [x]"
        "stored s1 = Suc (stored s)" using stream_put_ok [OF Cons.prems] by blast
    then have "1022 - stored s = Suc (1022 - stored s1)" using True by simp
    with Cons.IH [OF s1(2)] s1 show ?thesis by auto
  next
    case False
    then have "stored s = 1022" using stored_le [OF Cons.prems] by simp
    with Cons.prems show ?thesis by (simp add: stream_put_full)
  qed
qed simp

lemma stream_read_eq:
  assumes "stream_ok s"
  shows "\<exists>s'. stream_read n s = (take n (stream_contents s), n - stored s, s') \<and> stream_ok s' \<and>
    stream_contents s' = drop n (stream_contents s)"
  using assms
proof (induction n arbitrary: s)
  case (Suc n)
  show ?case
  proof (cases "stream_contents s")
    case Nil
    then show ?thesis using Suc.prems length_contents [of s] by (simp add: stream_get_none)
  next
    case (Cons x xs)
    then obtain s1 where s1: "stream_get s = Inr (x, s1)" "stream_ok s1" "stream_contents s1 = xs" "Suc (stored s1) = stored s"
      using stream_get_ok [OF Suc.prems] by blast
    obtain s' where "stream_read n s1 = (take n xs, n - stored s1, s')" "stream_ok s'" "stream_contents s' = drop n xs"
      using Suc.IH [OF s1(2)] s1(3) by auto
    then show ?thesis using s1(1,4) Cons by (auto simp flip: s1(4))
  qed
qed simp

section \<open>The descriptor table\<close>

text \<open>
  The slots of a table are filled from the front. This is what \<open>iostream_select\<close> relies on
  when it stops at the first empty slot.
\<close>

definition used_slots :: "iostream_descriptors \<Rightarrow> nat \<Rightarrow> bool" where
  "used_slots d k \<longleftrightarrow> k \<le> MAX_DESCRIPTORS \<and> (\<forall>i<MAX_DESCRIPTORS. io_input (d i) \<noteq> 0 \<longleftrightarrow> i < k)"

lemma attach_from_used:
  "used_slots d k \<Longrightarrow> i \<le> k \<Longrightarrow> attach_from i inp outp d =
   (if k < MAX_DESCRIPTORS then (int k, d(k := \<lparr>io_input = inp, io_output = outp\<rparr>)) else (- 1, d))"
proof (induction "k - i" arbitrary: i)
  case 0
  then show ?case by (auto simp: attach_from.simps [of i] used_slots_def)
next
  case (Suc n)
  then have "attach_from i inp outp d = attach_from (Suc i) inp outp d"
    by (simp add: attach_from.simps [of i] used_slots_def)
  then show ?case using Suc.hyps(1) [of "Suc i"] Suc by simp
qed

lemma iostream_attach_ok:
  assumes "used_slots d k" "inp \<noteq> 0"
  shows "iostream_attach inp outp d =
      (if k < MAX_DESCRIPTORS then (int k, d(k := \<lparr>io_input = inp, io_output = outp\<rparr>)) else (- 1, d))"
    "k < MAX_DESCRIPTORS \<Longrightarrow> used_slots (snd (iostream_attach inp outp d)) (Suc k)"
proof -
  show eq: "iostream_attach inp outp d =
      (if k < MAX_DESCRIPTORS then (int k, d(k := \<lparr>io_input = inp, io_output = outp\<rparr>)) else (- 1, d))"
    using assms(1) by (simp add: iostream_attach_def attach_from_used)
  show "used_slots (snd (iostream_attach inp outp d)) (Suc k)" if "k < MAX_DESCRIPTORS"
    using assms that by (auto simp: eq used_slots_def less_Suc_eq)
qed

definition has_data :: "iostream_descriptors \<Rightarrow> (ptr \<Rightarrow> stream) \<Rightarrow> nat \<Rightarrow> bool" where
  "has_data d ss i \<longleftrightarrow> stored (ss (io_input (d i))) \<noteq> 0"

lemma select_from_used:
  assumes used: "used_slots d k" and ok: "\<forall>i<k. stream_ok (ss (io_input (d i)))" and "i \<le> k"
  shows "select_from i d ss = (if \<exists>j. i \<le> j \<and> j < k \<and> has_data d ss j
    then int (LEAST j. i \<le> j \<and> j < k \<and> has_data d ss j) else - 1)"
  using assms(3)
proof (induction "k - i" arbitrary: i)
  case 0
  then show ?case using used by (auto simp: select_from.simps [of i] used_slots_def)
next
  case (Suc n)
  then have i: "i < k" "i < 32" using used unfolding used_slots_def by linarith+
  then have slot: "io_input (d i) \<noteq> 0" using used by (simp add: used_slots_def)
  have pos: "0 < stream_read_length (ss (io_input (d i))) \<longleftrightarrow> has_data d ss i"
    using ok i(1) lengths_zero(1) [of "ss (io_input (d i))"] by (simp add: has_data_def word_gt_0)
  show ?case
  proof (cases "has_data d ss i")
    case True
    then have "(LEAST j. i \<le> j \<and> j < k \<and> has_data d ss j) = i" using i(1) by (intro Least_equality) auto
    then show ?thesis using True i slot pos by (auto simp: select_from.simps [of i])
  next
    case False
    have eq: "(i \<le> j \<and> j < k \<and> has_data d ss j) \<longleftrightarrow> (Suc i \<le> j \<and> j < k \<and> has_data d ss j)" for j
      using False by (metis Suc_leD Suc_leI order_le_less)
    show ?thesis
      using Suc.hyps(1) [of "Suc i"] Suc.hyps(2) Suc.prems i slot False pos unfolding eq by (simp add: select_from.simps [of i])
  qed
qed

lemma iostream_select_ok:
  assumes "used_slots d k" "\<forall>i<k. stream_ok (ss (io_input (d i)))"
  shows "iostream_select d ss = (if \<exists>j<k. has_data d ss j then int (LEAST j. j < k \<and> has_data d ss j) else - 1)"
  using select_from_used [OF assms, of 0] by (simp add: iostream_select_def)

section \<open>Reader and writer as two threads\<close>

text \<open>
  One thread executes \<open>stream_write\<close> on the bytes \<open>todo\<close>, another one \<open>stream_read\<close>. Their steps
  are the single accesses of the code: the test of the length, the store of the byte and the
  store of the index (the writer), the test, the store of the index and the load of the byte
  (the reader). \<open>sent\<close> and \<open>got\<close> record what was written and what was read so far. There is no
  lock around these accesses.
\<close>

datatype writer_pc = WTest | WStore | WMove
datatype reader_pc = RTest | RMove | RLoad

record channel =
  ring :: stream
  wpc :: writer_pc
  rpc :: reader_pc
  todo :: "uint8 list"
  sent :: "uint8 list"
  got :: "uint8 list"

definition channel_init :: "uint8 list \<Rightarrow> channel" where
  "channel_init bs = \<lparr>ring = stream_new, wpc = WTest, rpc = RTest, todo = bs, sent = [], got = []\<rparr>"

inductive chan_step :: "channel \<Rightarrow> channel \<Rightarrow> bool" where
  w_test: "wpc c = WTest \<Longrightarrow> todo c \<noteq> [] \<Longrightarrow> stream_write_length (ring c) \<noteq> 0 \<Longrightarrow> chan_step c (c\<lparr>wpc := WStore\<rparr>)"
| w_store: "wpc c = WStore \<Longrightarrow>
    chan_step c (c\<lparr>ring := (ring c)\<lparr>buf := (buf (ring c))(unat (wr (ring c)) := hd (todo c))\<rparr>, wpc := WMove\<rparr>)"
| w_move: "wpc c = WMove \<Longrightarrow>
    chan_step c (c\<lparr>ring := (ring c)\<lparr>wr := next_step (wr (ring c))\<rparr>, wpc := WTest,
      sent := sent c @ [hd (todo c)], todo := tl (todo c)\<rparr>)"
| r_test: "rpc c = RTest \<Longrightarrow> stream_read_length (ring c) \<noteq> 0 \<Longrightarrow> chan_step c (c\<lparr>rpc := RMove\<rparr>)"
| r_move: "rpc c = RMove \<Longrightarrow> chan_step c (c\<lparr>ring := (ring c)\<lparr>rd := next_step (rd (ring c))\<rparr>, rpc := RLoad\<rparr>)"
| r_load: "rpc c = RLoad \<Longrightarrow> chan_step c (c\<lparr>got := got c @ [buf (ring c) (unat (rd (ring c)))], rpc := RTest\<rparr>)"

inductive chan_reach :: "uint8 list \<Rightarrow> channel \<Rightarrow> bool" for bs where
  chan_init: "chan_reach bs (channel_init bs)"
| chan_next: "chan_reach bs c \<Longrightarrow> chan_step c c' \<Longrightarrow> chan_reach bs c'"

inductive_cases chan_stepE: "chan_step c c'"

text \<open>
  The byte that the reader has claimed but not loaded yet lies at the read index itself, where
  the writer never stores.
\<close>

definition claimed :: "channel \<Rightarrow> uint8 list" where
  "claimed c = (if rpc c = RLoad then [buf (ring c) (unat (rd (ring c)))] else [])"

definition chan_inv :: "uint8 list \<Rightarrow> channel \<Rightarrow> bool" where
  "chan_inv bs c \<longleftrightarrow> stream_ok (ring c) \<and> sent c @ todo c = bs \<and>
     sent c = got c @ claimed c @ stream_contents (ring c) \<and>
     (wpc c \<noteq> WTest \<longrightarrow> todo c \<noteq> [] \<and> stored (ring c) < 1022) \<and>
     (wpc c = WMove \<longrightarrow> buf (ring c) (unat (wr (ring c))) = hd (todo c)) \<and>
     (rpc c = RMove \<longrightarrow> stored (ring c) \<noteq> 0)"

lemma store_keeps_contents:
  assumes "stream_ok s"
  shows "stream_contents (s\<lparr>buf := (buf s)(unat (wr s) := x)\<rparr>) = stream_contents s"
    "stream_ok (s\<lparr>buf := (buf s)(unat (wr s) := x)\<rparr>)" "stored (s\<lparr>buf := (buf s)(unat (wr s) := x)\<rparr>) = stored s"
proof -
  have "(unat (rd s) + 1 + i) mod 1024 \<noteq> unat (wr s)" if "i < stored s" for i
    using stored_ring [OF assms] stored_le [OF assms] that ring_inject [of "1 + i" "1 + stored s" "unat (rd s)"]
    by (simp add: add.assoc)
  then show "stream_contents (s\<lparr>buf := (buf s)(unat (wr s) := x)\<rparr>) = stream_contents s"
    by (simp add: stream_contents_def stored_def)
qed (use assms in \<open>simp_all add: stream_ok_def stored_def\<close>)

lemma write_move:
  assumes "stream_ok s" "stored s < 1022"
  defines "t \<equiv> s\<lparr>wr := next_step (wr s)\<rparr>"
  shows "stream_ok t \<and> stream_contents t = stream_contents s @ [buf s (unat (wr s))] \<and> stored t = Suc (stored s)"
proof -
  have "s\<lparr>buf := (buf s)(unat (wr s) := buf s (unat (wr s))), wr := next_step (wr s)\<rparr> = t" by (simp add: t_def)
  then show ?thesis
    using stream_put_ok [OF assms(1,2), of "buf s (unat (wr s))"] stream_okD [OF assms(1)] lengths_zero(2) [OF assms(1)] assms(2)
    by (simp add: stream_put_def)
qed

lemma read_move:
  assumes "stream_ok s" "stored s \<noteq> 0"
  defines "t \<equiv> s\<lparr>rd := next_step (rd s)\<rparr>"
  shows "stream_ok t \<and> stream_contents s = buf s (unat (next_step (rd s))) # stream_contents t \<and> Suc (stored t) = stored s"
proof -
  obtain x xs where xs: "stream_contents s = x # xs" using assms(2) length_contents [of s] by (cases "stream_contents s") auto
  have "unat (next_step (rd s)) < 1024" using assms(1) by (simp add: unat_next_step stream_ok_def)
  then show ?thesis
    using stream_get_ok [OF assms(1) xs] xs lengths_zero(1) [OF assms(1)] assms(2)
    by (auto simp: stream_get_def Let_def t_def)
qed

lemma chan_inv_step:
  assumes inv: "chan_inv bs c" and step: "chan_step c c'"
  shows "chan_inv bs c'"
  using step
proof (cases rule: chan_step.cases)
  case w_test
  have "stored (ring c) < 1022"
    using inv w_test lengths_zero(2) [of "ring c"] stored_le [of "ring c"] by (auto simp: chan_inv_def)
  then show ?thesis using inv w_test by (auto simp: chan_inv_def claimed_def)
next
  case w_store
  have "unat (wr (ring c)) \<noteq> unat (rd (ring c))" using inv stream_okD [of "ring c"] by (auto simp: chan_inv_def)
  then show ?thesis using inv w_store store_keeps_contents [of "ring c"] by (auto simp: chan_inv_def claimed_def)
next
  case w_move
  then show ?thesis using inv write_move [of "ring c"] by (auto simp: chan_inv_def claimed_def)
next
  case r_test
  then show ?thesis using inv lengths_zero(1) [of "ring c"] by (auto simp: chan_inv_def claimed_def)
next
  case r_move
  then show ?thesis using inv read_move [of "ring c"] by (auto simp: chan_inv_def claimed_def)
next
  case r_load
  then show ?thesis using inv by (auto simp: chan_inv_def claimed_def)
qed

lemma chan_reach_inv: "chan_reach bs c \<Longrightarrow> chan_inv bs c"
proof (induction rule: chan_reach.induct)
  case chan_init
  then show ?case using stream_new_ok by (simp add: chan_inv_def channel_init_def claimed_def)
qed (rule chan_inv_step)

text \<open>
  No deadlock and no endless run: while bytes are missing some step is possible, and every
  step lowers the number of accesses that are still to be made.
\<close>

fun writer_done :: "writer_pc \<Rightarrow> nat" where
  "writer_done WTest = 0" | "writer_done WStore = 1" | "writer_done WMove = 2"

fun reader_done :: "reader_pc \<Rightarrow> nat" where
  "reader_done RTest = 0" | "reader_done RMove = 1" | "reader_done RLoad = 2"

definition chan_work :: "uint8 list \<Rightarrow> channel \<Rightarrow> nat" where
  "chan_work bs c = (3 * length (todo c) - writer_done (wpc c)) + (3 * (length bs - length (got c)) - reader_done (rpc c))"

lemma chan_progress:
  assumes inv: "chan_inv bs c" and missing: "got c \<noteq> bs"
  shows "\<exists>c'. chan_step c c'"
proof (cases "wpc c = WTest \<and> rpc c = RTest")
  case False
  then consider "wpc c = WStore" | "wpc c = WMove" | "rpc c = RMove" | "rpc c = RLoad"
    by (cases "wpc c"; cases "rpc c") auto
  then show ?thesis by cases (blast intro: chan_step.intros)+
next
  case True
  have ok: "stream_ok (ring c)" using inv by (simp add: chan_inv_def)
  show ?thesis
  proof (cases "stored (ring c) = 0")
    case False
    then show ?thesis using True lengths_zero(1) [OF ok] r_test [of c] by auto
  next
    case stored: True
    then have "stream_contents (ring c) = []" by (simp add: stream_contents_def)
    then have "todo c \<noteq> []" using inv missing True by (auto simp: chan_inv_def claimed_def)
    then show ?thesis using True stored lengths_zero(2) [OF ok] w_test [of c] by auto
  qed
qed

lemma chan_work_step:
  assumes inv: "chan_inv bs c" and step: "chan_step c c'"
  shows "chan_work bs c' < chan_work bs c"
proof -
  have len: "length (got c) + length (claimed c) + stored (ring c) + length (todo c) = length bs"
    using inv length_contents [of "ring c"] unfolding chan_inv_def by (metis length_append add.assoc)
  from step show ?thesis
  proof (cases rule: chan_step.cases)
    case r_test
    then have "stored (ring c) \<noteq> 0" using inv lengths_zero(1) [of "ring c"] by (auto simp: chan_inv_def)
    then show ?thesis using r_test len by (simp add: chan_work_def)
  next
    case r_move
    then have "stored (ring c) \<noteq> 0" using inv by (simp add: chan_inv_def)
    then show ?thesis using r_move len by (simp add: chan_work_def)
  next
    case r_load
    then show ?thesis using len by (simp add: chan_work_def claimed_def)
  next
    case w_move
    then show ?thesis using inv by (cases "todo c") (auto simp: chan_work_def chan_inv_def)
  qed (use inv in \<open>cases "todo c"; simp add: chan_work_def chan_inv_def\<close>)+
qed

end
