(* ===== verification/Tokens.thy ===== *)
theory Tokens
  imports Servers Stream "HOL-Library.Signed_Division"
begin

text \<open>
  The token ring of \<^verbatim>\<open>userspace/token_0.c\<close> to \<^verbatim>\<open>token_9.c\<close> (\<^verbatim>\<open>token_common.h\<close>), the demonstration that the image boots with: processes
  \<open>0\<close> to \<open>n - 1\<close>, of which number \<open>i\<close> passes every message on to the next one. Process 0 starts the token and
  reports to the text server. The file \<^verbatim>\<open>modfile\<close> lists \<open>n = 4\<close>; the other programs make it ten.

  \<open>link r i\<close> is the stream from process \<open>i\<close> to its successor, \<open>to_screen r\<close> the one to the server. A step
  of a process is the transfer of one byte by \<open>read\<close> or \<open>write\<close>, or one of its other calls; a call that has to
  wait is a step that is not possible yet (\<open>Blocks\<close>). Processes interleave in any order.
\<close>

section \<open>Processes\<close>

text \<open>
  Where a process is: the arguments are the bytes a \<open>read\<close> has stored so far and those a \<open>write\<close> has still to
  transfer. \<open>Greets\<close>, \<open>Launches\<close> and \<open>Reports\<close> are the writes that only process 0 makes.
\<close>

datatype phase = Registers | Greets "uint8 list" | Connects | Launches "uint8 list"
  | Reads "uint8 list" | Writes "uint8 list" | Reports "uint8 list"

record token_ring =
  phase_of :: "nat \<Rightarrow> phase"
  registered :: "nat \<Rightarrow> bool"
  link :: "nat \<Rightarrow> stream"
  to_screen :: stream
  buf0 :: "uint8 list"
  msg0 :: "uint8 list"
  iter :: uint32
  start :: uint32

definition succ_node :: "nat \<Rightarrow> nat \<Rightarrow> nat" where
  "succ_node n i = (if Suc i = n then 0 else Suc i)"

definition pred_node :: "nat \<Rightarrow> nat \<Rightarrow> nat" where
  "pred_node n i = (if i = 0 then n - 1 else i - 1)"

definition now_at :: "nat \<Rightarrow> phase \<Rightarrow> token_ring \<Rightarrow> token_ring" where
  "now_at i p r = r\<lparr>phase_of := (phase_of r)(i := p)\<rparr>"

definition send :: "nat \<Rightarrow> uint8 \<Rightarrow> token_ring \<Rightarrow> token_ring res" where
  "send i x r = bindE (stream_put x (link r i)) (\<lambda>s. Inr (r\<lparr>link := (link r)(i := s)\<rparr>))"

definition receive :: "nat \<Rightarrow> nat \<Rightarrow> token_ring \<Rightarrow> (uint8 \<times> token_ring) res" where
  "receive n i r = bindE (stream_get (link r (pred_node n i))) (\<lambda>(x, s). Inr (x, r\<lparr>link := (link r)(pred_node n i := s)\<rparr>))"

definition say :: "uint8 \<Rightarrow> token_ring \<Rightarrow> token_ring res" where
  "say x r = bindE (stream_put x (to_screen r)) (\<lambda>s. Inr (r\<lparr>to_screen := s\<rparr>))"

text \<open>The program of the processes after the first.\<close>

definition token_step :: "nat \<Rightarrow> nat \<Rightarrow> token_ring \<Rightarrow> token_ring res" where
  "token_step n i r =
     (case phase_of r i of
        Registers \<Rightarrow> Inr (now_at i Connects (r\<lparr>registered := (registered r)(i := True)\<rparr>))
      | Connects \<Rightarrow> (if registered r (succ_node n i) then Inr (now_at i (Reads []) r) else Inl Blocks)
      | Reads xs \<Rightarrow> bindE (receive n i r) (\<lambda>(x, r).
          Inr (now_at i (if length xs = 31 then Writes (xs @ [x]) else Reads (xs @ [x])) r))
      | Writes ys \<Rightarrow> bindE (send i (hd ys) r) (\<lambda>r. Inr (now_at i (if tl ys = [] then Reads [] else Writes (tl ys)) r))
      | _ \<Rightarrow> Inl Blocks)"

text \<open>Strings that are printed to an array replace its first bytes.\<close>

definition overlay :: "uint8 list \<Rightarrow> uint8 list \<Rightarrow> uint8 list" where
  "overlay bs arr = bs @ drop (length bs) arr"

definition started_text :: "uint8 list" where
  "started_text = [83, 84, 65, 82, 84, 69, 68]"

definition token_text :: "uint8 list" where
  "token_text = [84, 79, 75, 69, 78, 33]"

definition report_format :: "uint8 list" where
  "report_format = [109, 101, 115, 115, 97, 103, 101, 115, 58, 32, 37, 105, 32, 116, 105, 109, 101, 58, 37, 105, 32, 91, 37, 115, 93]"

text \<open>The memory that holds the array \<open>bs\<close> at address \<open>p\<close>.\<close>

definition array_at :: "ptr \<Rightarrow> uint8 list \<Rightarrow> ptr \<Rightarrow> uint8" where
  "array_at p bs q = (if unat (q - p) < length bs then bs ! unat (q - p) else 0)"

text \<open>
  After a round of process 0: every 4096th one makes a report. \<open>now\<close> is the result of \<open>time\<close>, \<open>p\<close> the address
  of \<open>buf\<close>. The string is read up to the end of the array.
\<close>

definition token0_round :: "ptr \<Rightarrow> uint32 \<Rightarrow> token_ring \<Rightarrow> token_ring res" where
  "token0_round p now r =
     (let r = r\<lparr>iter := iter r + 1\<rparr> in
      if sint (iter r) smod 4096 = 0
      then bindE (kprintf 128 (array_at p (buf0 r)) report_format [iter r, now - start r, p]) (\<lambda>cs.
        if 64 < length cs then Inl OutOfBounds
        else let r = r\<lparr>msg0 := overlay cs (msg0 r)\<rparr> in Inr (now_at 0 (Reports (take 64 (msg0 r))) r))
      else Inr (now_at 0 (Reads []) r))"

definition token0_step :: "ptr \<Rightarrow> uint32 \<Rightarrow> nat \<Rightarrow> token_ring \<Rightarrow> token_ring res" where
  "token0_step p now n r =
     (case phase_of r 0 of
        Registers \<Rightarrow>
          let r = r\<lparr>registered := (registered r)(0 := True)\<rparr>;
              r = r\<lparr>buf0 := overlay (started_text @ [0]) (buf0 r)\<rparr>
          in Inr (now_at 0 (Greets (take 64 (buf0 r))) r)
      | Greets ys \<Rightarrow> bindE (say (hd ys) r) (\<lambda>r. Inr (now_at 0 (if tl ys = [] then Connects else Greets (tl ys)) r))
      | Connects \<Rightarrow>
          (if registered r (succ_node n 0)
           then let r = r\<lparr>start := now\<rparr>;
                    r = r\<lparr>buf0 := overlay (token_text @ [0]) (buf0 r)\<rparr>
                in Inr (now_at 0 (Launches (take 32 (buf0 r))) r)
           else Inl Blocks)
      | Launches ys \<Rightarrow> bindE (send 0 (hd ys) r) (\<lambda>r. Inr (now_at 0 (if tl ys = [] then Reads [] else Launches (tl ys)) r))
      | Reads xs \<Rightarrow> bindE (receive n 0 r) (\<lambda>(x, r).
          let r = r\<lparr>buf0 := (buf0 r)[length xs := x]\<rparr>
          in Inr (now_at 0 (if length xs = 31 then Writes (take 32 (buf0 r)) else Reads (xs @ [x])) r))
      | Writes ys \<Rightarrow> bindE (send 0 (hd ys) r) (\<lambda>r. if tl ys = [] then token0_round p now r else Inr (now_at 0 (Writes (tl ys)) r))
      | Reports ys \<Rightarrow> bindE (say (hd ys) r) (\<lambda>r. Inr (now_at 0 (if tl ys = [] then Reads [] else Reports (tl ys)) r)))"

text \<open>The ring before any process runs; \<open>b\<close> and \<open>m\<close> are the arrays of process 0, which are not initialised.\<close>

definition ring_init :: "uint8 list \<Rightarrow> uint8 list \<Rightarrow> token_ring" where
  "ring_init b m = \<lparr>phase_of = (\<lambda>_. Registers), registered = (\<lambda>_. False), link = (\<lambda>_. stream_new), to_screen = stream_new,
     buf0 = b, msg0 = m, iter = 0, start = 0\<rparr>"

text \<open>A step of one of the processes, or of the text server, which takes a byte.\<close>

inductive ring_step :: "ptr \<Rightarrow> nat \<Rightarrow> token_ring \<Rightarrow> token_ring \<Rightarrow> bool" for p n where
  step_first: "token0_step p now n r = Inr r' \<Longrightarrow> ring_step p n r r'"
| step_other: "0 < i \<Longrightarrow> i < n \<Longrightarrow> token_step n i r = Inr r' \<Longrightarrow> ring_step p n r r'"
| step_screen: "stream_get (to_screen r) = Inr (x, s) \<Longrightarrow> ring_step p n r (r\<lparr>to_screen := s\<rparr>)"

inductive ring_reach :: "ptr \<Rightarrow> nat \<Rightarrow> uint8 list \<Rightarrow> uint8 list \<Rightarrow> token_ring \<Rightarrow> bool" for p n b m where
  reach_init: "ring_reach p n b m (ring_init b m)"
| reach_step: "ring_reach p n b m r \<Longrightarrow> ring_step p n r r' \<Longrightarrow> ring_reach p n b m r'"

section \<open>Where the token is\<close>

fun received :: "phase \<Rightarrow> uint8 list" where
  "received (Reads xs) = xs"
| "received _ = []"

fun unsent :: "phase \<Rightarrow> uint8 list" where
  "unsent (Writes ys) = ys"
| "unsent (Launches ys) = ys"
| "unsent _ = []"

text \<open>The bytes on their way from process \<open>k\<close> to its successor: those that arrived, those in the stream, those to be sent.\<close>

definition in_transit :: "nat \<Rightarrow> token_ring \<Rightarrow> nat \<Rightarrow> uint8 list" where
  "in_transit n r k = received (phase_of r (succ_node n k)) @ stream_contents (link r k) @ unsent (phase_of r k)"

fun launched :: "phase \<Rightarrow> bool" where
  "launched Registers = False"
| "launched (Greets ys) = False"
| "launched Connects = False"
| "launched _ = True"

fun phase_ok :: "phase \<Rightarrow> bool" where
  "phase_ok (Greets ys) = (ys \<noteq> [])"
| "phase_ok (Launches ys) = (ys \<noteq> [])"
| "phase_ok (Reads xs) = (length xs < 32)"
| "phase_ok (Writes ys) = (ys \<noteq> [])"
| "phase_ok (Reports ys) = (ys \<noteq> [])"
| "phase_ok _ = True"

fun common_phase :: "phase \<Rightarrow> bool" where
  "common_phase (Greets ys) = False"
| "common_phase (Launches ys) = False"
| "common_phase (Reports ys) = False"
| "common_phase _ = True"

text \<open>The token: the text, and after it what the greeting and the stack left in the array.\<close>

definition token_bytes :: "uint8 list \<Rightarrow> uint8 list" where
  "token_bytes b = take 32 (overlay (token_text @ [0]) (overlay (started_text @ [0]) b))"

definition held_by :: "nat \<Rightarrow> uint8 list \<Rightarrow> nat \<Rightarrow> token_ring \<Rightarrow> bool" where
  "held_by n tok k r \<longleftrightarrow> k < n \<and> in_transit n r k = tok \<and> (\<forall>j<n. j \<noteq> k \<longrightarrow> in_transit n r j = [])"

lemma node_simps:
  assumes "i < n"
  shows "succ_node n (pred_node n i) = i" "pred_node n i < n" "succ_node n i < n" "pred_node n (succ_node n i) = i"
  using assms by (auto simp: succ_node_def pred_node_def)

lemma succ_node_eq: "i < n \<Longrightarrow> k < n \<Longrightarrow> succ_node n k = i \<longleftrightarrow> k = pred_node n i"
  using node_simps(1) [of i n] node_simps(4) [of k n] by auto

lemma now_at_simps [simp]:
  "phase_of (now_at i q r) = (phase_of r)(i := q)" "registered (now_at i q r) = registered r" "link (now_at i q r) = link r"
  "to_screen (now_at i q r) = to_screen r" "buf0 (now_at i q r) = buf0 r" "msg0 (now_at i q r) = msg0 r" "iter (now_at i q r) = iter r"
  "start (now_at i q r) = start r"
  by (simp_all add: now_at_def)

text \<open>Invariant of the parts.\<close>

definition ring_ok :: "nat \<Rightarrow> token_ring \<Rightarrow> bool" where
  "ring_ok n r \<longleftrightarrow> 0 < n \<and> (\<forall>i<n. stream_ok (link r i) \<and> phase_ok (phase_of r i) \<and> (registered r i \<longleftrightarrow> phase_of r i \<noteq> Registers) \<and>
     (0 < i \<longrightarrow> common_phase (phase_of r i))) \<and> stream_ok (to_screen r) \<and> length (buf0 r) = 128 \<and> length (msg0 r) = 64"

lemma send_Inr:
  assumes "send i x r = Inr r1" "stream_ok (link r i)"
  obtains s where "r1 = r\<lparr>link := (link r)(i := s)\<rparr>" "stream_ok s" "stream_contents s = stream_contents (link r i) @ [x]"
proof -
  have "stored (link r i) < 1022"
    using assms stream_put_full [of "link r i" x] stored_le [of "link r i"] by (fastforce simp: send_def)
  then show ?thesis using stream_put_ok [OF assms(2), of x] assms(1) that by (auto simp: send_def)
qed

lemma receive_Inr:
  assumes "receive n i r = Inr (x, r1)" "stream_ok (link r (pred_node n i))"
  obtains s where "r1 = r\<lparr>link := (link r)(pred_node n i := s)\<rparr>" "stream_ok s"
    "stream_contents (link r (pred_node n i)) = x # stream_contents s"
proof (cases "stream_contents (link r (pred_node n i))")
  case Nil
  then show ?thesis using assms stream_get_none by (simp add: receive_def)
next
  case (Cons y ys)
  then show ?thesis using stream_get_ok [OF assms(2) Cons] assms(1) that by (auto simp: receive_def)
qed

lemma say_Inr:
  assumes "say x r = Inr r1" "stream_ok (to_screen r)"
  obtains s where "r1 = r\<lparr>to_screen := s\<rparr>" "stream_ok s"
proof -
  have "stored (to_screen r) < 1022"
    using assms stream_put_full [of "to_screen r" x] stored_le [of "to_screen r"] by (fastforce simp: say_def)
  then show ?thesis using stream_put_ok [OF assms(2), of x] assms(1) that by (auto simp: say_def)
qed

text \<open>What a step does to the bytes in transit: nothing, or it hands a complete message over.\<close>

lemma transit_cong: "phase_of r' = phase_of r \<Longrightarrow> link r' = link r \<Longrightarrow> in_transit n r' = in_transit n r"
  by (simp add: in_transit_def fun_eq_iff)

lemma transit_now_at:
  "received q = received (phase_of r i) \<Longrightarrow> unsent q = unsent (phase_of r i) \<Longrightarrow> in_transit n (now_at i q r) = in_transit n r"
  by (simp add: in_transit_def fun_eq_iff)

lemma transit_send:
  assumes "stream_contents s = stream_contents (link r i) @ [x]" "unsent (phase_of r i) = x # unsent q" "received q = []"
  shows "in_transit n (now_at i q (r\<lparr>link := (link r)(i := s)\<rparr>)) = in_transit n r"
proof -
  have "received (phase_of r i) = []" using assms(2) by (cases "phase_of r i") simp_all
  then show ?thesis using assms by (auto simp: in_transit_def fun_eq_iff)
qed

lemma transit_receive:
  assumes "i < n" "k < n" "phase_of r i = Reads xs" "stream_contents (link r (pred_node n i)) = x # stream_contents s"
  shows "in_transit n (now_at i (Reads (xs @ [x])) (r\<lparr>link := (link r)(pred_node n i := s)\<rparr>)) k = in_transit n r k"
  using assms succ_node_eq [OF assms(1,2)] by (auto simp: in_transit_def)

lemma transit_pass:
  assumes i: "i < n" and r: "phase_of r i = Reads xs" "stream_contents (link r (pred_node n i)) = x # stream_contents s"
    and h: "held_by n tok k r" and l: "length xs = 31" "length tok = 32"
  shows "k = pred_node n i" "xs @ [x] = tok" "held_by n tok i (now_at i (Writes tok) (r\<lparr>link := (link r)(pred_node n i := s)\<rparr>))"
proof -
  let ?j = "pred_node n i"
  have t: "in_transit n r ?j = xs @ x # stream_contents s @ unsent (phase_of r ?j)"
    using r node_simps(1) [OF i] by (simp add: in_transit_def)
  show k: "k = ?j" using h node_simps(2) [OF i] t by (auto simp: held_by_def)
  have tok: "tok = xs @ x # stream_contents s @ unsent (phase_of r ?j)" using h t k by (simp add: held_by_def)
  then have e: "stream_contents s = []" "unsent (phase_of r ?j) = []" using l length_0_conv [of "stream_contents s"] by auto
  show x: "xs @ [x] = tok" using tok e by simp
  let ?r = "now_at i (Writes tok) (r\<lparr>link := (link r)(?j := s)\<rparr>)"
  have q: "in_transit n r j = []" if "j < n" "j \<noteq> ?j" for j using h that k by (simp add: held_by_def)
  have "in_transit n ?r j = (if j = i then tok else [])" if j: "j < n" for j
    using q [OF j] e succ_node_eq [OF i j] by (auto simp: in_transit_def r)
  then show "held_by n tok i ?r" using i by (simp add: held_by_def)
qed

section \<open>The ring refines a single token\<close>

text \<open>
  Specification: the token is nowhere before it is launched, and then on its way from one process to the next.
\<close>

datatype position = Nowhere | At nat

inductive pass_step :: "nat \<Rightarrow> position \<Rightarrow> position \<Rightarrow> bool" for n where
  pass_stay: "pass_step n q q"
| pass_launch: "pass_step n Nowhere (At 0)"
| pass_hop: "pass_step n (At k) (At (succ_node n k))"

fun position_ok :: "nat \<Rightarrow> uint8 list \<Rightarrow> position \<Rightarrow> token_ring \<Rightarrow> bool" where
  "position_ok n b Nowhere r \<longleftrightarrow> \<not> launched (phase_of r 0) \<and> (\<forall>k<n. in_transit n r k = []) \<and>
     buf0 r = (if phase_of r 0 = Registers then b else overlay (started_text @ [0]) b)"
| "position_ok n b (At k) r \<longleftrightarrow> launched (phase_of r 0) \<and> held_by n (token_bytes b) k r \<and> take 32 (buf0 r) = token_bytes b"

definition ring_at :: "nat \<Rightarrow> uint8 list \<Rightarrow> position \<Rightarrow> token_ring \<Rightarrow> bool" where
  "ring_at n b q r \<longleftrightarrow> ring_ok n r \<and> position_ok n b q r"

lemma position_ok_cong:
  assumes "launched (phase_of r' 0) = launched (phase_of r 0)" "\<forall>k<n. in_transit n r' k = in_transit n r k" "take 32 (buf0 r') = take 32 (buf0 r)"
    "\<not> launched (phase_of r 0) \<Longrightarrow> buf0 r' = buf0 r \<and> (phase_of r' 0 = Registers \<longleftrightarrow> phase_of r 0 = Registers)"
  shows "position_ok n b q r' = position_ok n b q r"
  using assms by (cases q) (auto simp: held_by_def)

lemma ring_at_init: "0 < n \<Longrightarrow> length b = 128 \<Longrightarrow> length m = 64 \<Longrightarrow> ring_at n b Nowhere (ring_init b m)"
  by (simp add: ring_at_def ring_ok_def ring_init_def in_transit_def stream_new_ok)

lemma length_token_bytes: "length b = 128 \<Longrightarrow> length (token_bytes b) = 32"
  by (simp add: token_bytes_def overlay_def token_text_def started_text_def)

text \<open>A reader means that the token is out: process 0 launches it before any byte is in a stream.\<close>

lemma ring_at_contents:
  assumes "ring_at n b q r" "i < n" "stream_contents (link r i) = x # xs"
  obtains k where "q = At k"
  using assms by (cases q) (auto simp: ring_at_def in_transit_def)

lemma ring_ok_now_at:
  assumes "ring_ok n r" "i < n" "phase_ok q" "0 < i \<longrightarrow> common_phase q" "q \<noteq> Registers" "phase_of r i \<noteq> Registers"
  shows "ring_ok n (now_at i q r)"
  using assms by (auto simp: ring_ok_def)

lemma ring_ok_link: "ring_ok n r \<Longrightarrow> stream_ok s \<Longrightarrow> ring_ok n (r\<lparr>link := (link r)(i := s)\<rparr>)"
  by (simp add: ring_ok_def)

lemma ring_ok_screen: "ring_ok n r \<Longrightarrow> stream_ok s \<Longrightarrow> ring_ok n (r\<lparr>to_screen := s\<rparr>)"
  by (simp add: ring_ok_def)

lemma send_at:
  assumes inv: "ring_at n b q r" and i: "i < n" and step: "send i x r = Inr r1" and u: "unsent (phase_of r i) = x # unsent p"
    and p: "received p = []" "phase_ok p" "0 < i \<longrightarrow> common_phase p" "launched p"
  shows "ring_at n b q (now_at i p r1)"
proof -
  obtain s where s: "r1 = r\<lparr>link := (link r)(i := s)\<rparr>" "stream_ok s" "stream_contents s = stream_contents (link r i) @ [x]"
    using send_Inr [OF step] inv i by (auto simp: ring_at_def ring_ok_def)
  have l: "launched (phase_of r i)" "phase_of r i \<noteq> Registers" using u by (cases "phase_of r i"; simp)+
  have "in_transit n (now_at i p r1) = in_transit n r" using transit_send [OF s(3) u p(1)] by (simp add: s(1))
  then have "position_ok n b q (now_at i p r1) = position_ok n b q r" using l p by (intro position_ok_cong) (auto simp: s(1))
  moreover have "ring_ok n (now_at i p r1)" using inv i p l s unfolding s(1)
    by (intro ring_ok_now_at ring_ok_link) (auto simp: ring_at_def)
  ultimately show ?thesis using inv by (simp add: ring_at_def)
qed

lemma receive_at:
  assumes inv: "ring_at n b q r" and i: "i < n" and b: "length b = 128" and xs: "phase_of r i = Reads xs"
    and step: "receive n i r = Inr (x, r1)"
  shows "\<exists>k. q = At k" "x = token_bytes b ! length xs" "buf0 r1 = buf0 r"
    "length xs = 31 \<Longrightarrow> xs @ [x] = token_bytes b \<and> pass_step n q (At i) \<and> ring_at n b (At i) (now_at i (Writes (token_bytes b)) r1)"
    "length xs \<noteq> 31 \<Longrightarrow> ring_at n b q (now_at i (Reads (xs @ [x])) r1)"
proof -
  obtain s where s: "r1 = r\<lparr>link := (link r)(pred_node n i := s)\<rparr>" "stream_ok s" "stream_contents (link r (pred_node n i)) = x # stream_contents s"
    using receive_Inr [OF step] inv node_simps(2) [OF i] by (auto simp: ring_at_def ring_ok_def)
  have l: "length xs < 32" using inv i xs by (auto simp: ring_at_def ring_ok_def)
  obtain k where k: "q = At k" using ring_at_contents [OF inv node_simps(2) [OF i] s(3)] .
  then show "\<exists>k. q = At k" by blast
  have h: "held_by n (token_bytes b) k r" using inv k by (simp add: ring_at_def)
  have "in_transit n r (pred_node n i) = xs @ x # stream_contents s @ unsent (phase_of r (pred_node n i))"
    using xs s(3) node_simps(1) [OF i] by (simp add: in_transit_def)
  then show "x = token_bytes b ! length xs" using h node_simps(2) [OF i] by (auto simp: held_by_def nth_append)
  show "buf0 r1 = buf0 r" by (simp add: s(1))
  have ok: "ring_ok n (now_at i p r1)" if "phase_ok p" "common_phase p" "p \<noteq> Registers" for p
    using that inv i xs s unfolding s(1) by (intro ring_ok_now_at ring_ok_link) (auto simp: ring_at_def)
  show "length xs = 31 \<Longrightarrow> xs @ [x] = token_bytes b \<and> pass_step n q (At i) \<and> ring_at n b (At i) (now_at i (Writes (token_bytes b)) r1)"
  proof -
    assume 31: "length xs = 31"
    note t = transit_pass [OF i xs s(3) h 31 length_token_bytes [OF b]]
    have "pass_step n (At k) (At i)" using pass_hop [of n k] t(1) node_simps(1) [OF i] by simp
    moreover have "token_bytes b \<noteq> []" using length_token_bytes [OF b] by auto
    then have "ring_ok n (now_at i (Writes (token_bytes b)) r1)" using ok [of "Writes (token_bytes b)"] by simp
    ultimately show ?thesis using t inv k s(1) by (auto simp: ring_at_def)
  qed
  show "length xs \<noteq> 31 \<Longrightarrow> ring_at n b q (now_at i (Reads (xs @ [x])) r1)"
  proof -
    assume 31: "length xs \<noteq> 31"
    have "position_ok n b q (now_at i (Reads (xs @ [x])) r1) = position_ok n b q r"
      using transit_receive [OF i _ xs s(3)] inv k xs by (intro position_ok_cong) (auto simp: s(1) ring_at_def)
    then show ?thesis using ok [of "Reads (xs @ [x])"] inv l 31 by (auto simp: ring_at_def)
  qed
qed

lemma now_at_ok:
  assumes "ring_at n b q r" "i < n" "received p = received (phase_of r i)" "unsent p = unsent (phase_of r i)" "phase_ok p"
    "0 < i \<longrightarrow> common_phase p" "p \<noteq> Registers" "phase_of r i \<noteq> Registers" "i = 0 \<longrightarrow> launched p = launched (phase_of r 0)"
  shows "ring_at n b q (now_at i p r)"
proof -
  have "position_ok n b q (now_at i p r) = position_ok n b q r"
    using assms transit_now_at [of p r i n] by (intro position_ok_cong) auto
  then show ?thesis using assms ring_ok_now_at [of n r i p] by (simp add: ring_at_def)
qed

lemma token_step_at:
  assumes inv: "ring_at n b q r" and i: "0 < i" "i < n" and b: "length b = 128" and step: "token_step n i r = Inr r'"
  shows "\<exists>q'. pass_step n q q' \<and> ring_at n b q' r'"
proof (cases "phase_of r i")
  case Registers
  then have r': "r' = now_at i Connects (r\<lparr>registered := (registered r)(i := True)\<rparr>)" using step by (simp add: token_step_def)
  have "in_transit n r' = in_transit n (now_at i Connects r)" by (rule transit_cong) (simp_all add: r')
  then have "in_transit n r' = in_transit n r" using Registers transit_now_at [of Connects r i n] by simp
  then have "position_ok n b q r' = position_ok n b q r" using i by (intro position_ok_cong) (simp_all add: r')
  then have "ring_at n b q r'" using inv i by (auto simp: ring_at_def ring_ok_def r')
  then show ?thesis using pass_stay by blast
next
  case Connects
  then have r': "r' = now_at i (Reads []) r" using step by (simp add: token_step_def split: if_splits)
  show ?thesis unfolding r' using now_at_ok [OF inv i(2), of "Reads []"] Connects i pass_stay by auto
next
  case (Reads xs)
  then obtain x r1 where r1: "receive n i r = Inr (x, r1)"
      and r': "r' = now_at i (if length xs = 31 then Writes (xs @ [x]) else Reads (xs @ [x])) r1"
    using step by (auto simp: token_step_def bindE_eq_Inr)
  show ?thesis using receive_at [OF inv i(2) b Reads r1] pass_stay by (cases "length xs = 31") (auto simp: r')
next
  case (Writes ys)
  then obtain r1 where r1: "send i (hd ys) r = Inr r1" and r': "r' = now_at i (if tl ys = [] then Reads [] else Writes (tl ys)) r1"
    using step by (auto simp: token_step_def bindE_eq_Inr)
  have "ys = hd ys # tl ys" using inv i Writes by (auto simp: ring_at_def ring_ok_def)
  then have "ring_at n b q r'" unfolding r' using Writes i by (intro send_at [OF inv i(2) r1]) auto
  then show ?thesis using pass_stay by blast
qed (use step in \<open>simp_all add: token_step_def\<close>)

text \<open>The report of process 0 names the number of rounds and the token, and fits into its array.\<close>

definition dec_text :: "uint32 \<Rightarrow> uint8 list" where
  "dec_text n = map (nth digits) (rev (lsd 10 (unat n)))"

definition report_text :: "uint32 \<Rightarrow> uint32 \<Rightarrow> uint8 list" where
  "report_text i t = [109, 101, 115, 115, 97, 103, 101, 115, 58, 32] @ dec_text i @ [32, 116, 105, 109, 101, 58] @ dec_text t @
     [32, 91] @ token_text @ [93]"

lemma length_dec_text: "length (dec_text n) \<le> 10"
  using unat32_less [of n] length_lsd [of 10 "unat n" 9] by (simp add: dec_text_def)

lemma length_report_text: "length (report_text i t) \<le> 45"
  using length_dec_text [of i] length_dec_text [of t] by (simp add: report_text_def token_text_def)

lemma array_at_nth: "length bs \<le> 128 \<Longrightarrow> i < length bs \<Longrightarrow> array_at p bs (p + of_nat i) = bs ! i"
  by (simp add: array_at_def unat_of_nat)

lemma take_eq_nth: "take k xs = ys \<Longrightarrow> i < length ys \<Longrightarrow> xs ! i = ys ! i"
  by auto

lemma text_at_array:
  assumes "take 7 bs = token_text @ [0]" "length bs = 128"
  shows "text_at (array_at p bs) p token_text"
proof -
  have "array_at p bs (p + of_nat i) = (token_text @ [0]) ! i" if "i < 7" for i
    using that assms array_at_nth [of bs i p] take_eq_nth [OF assms(1), of i] by (simp add: token_text_def)
  note a = this
  have "map (\<lambda>i. array_at p bs (p + of_nat i)) [0..<6] = map (nth (token_text @ [0])) [0..<6]" using a by simp
  moreover have "array_at p bs (p + of_nat 6) = (token_text @ [0]) ! 6" by (rule a) simp
  ultimately show ?thesis by (simp add: text_at_def token_text_def upt_rec)
qed

lemma int2str_dec: "int2str n 10 = Inr (dec_text n @ [0], length (dec_text n) + 1)"
  using int2str_eq(1) [of 10 n] length_dec_text [of n] by (simp add: dec_text_def)

lemma kprintf_report:
  assumes "take 7 bs = token_text @ [0]" "length bs = 128"
  shows "kprintf 128 (array_at p bs) report_format [i, t, p] = Inr (report_text i t @ [0])"
proof -
  have "str_at 128 (array_at p bs) p = Inr token_text"
    by (rule str_at_text [OF text_at_array [OF assms]]) (simp add: token_text_def)
  then show ?thesis by (simp add: report_format_def report_text_def format_arg_def int2str_dec)
qed

lemma take_token_bytes: "length b = 128 \<Longrightarrow> take 32 bs = token_bytes b \<Longrightarrow> take 7 bs = token_text @ [0]"
proof -
  assume "length b = 128" "take 32 bs = token_bytes b"
  moreover have "take 7 bs = take 7 (take 32 bs)" by simp
  ultimately show ?thesis by (simp add: token_bytes_def overlay_def token_text_def)
qed

lemma token0_round_eq:
  assumes "take 32 (buf0 r) = token_bytes b" "length (buf0 r) = 128" "length b = 128" "length (msg0 r) = 64"
  shows "token0_round p now r =
    (let j = iter r + 1; m = overlay (report_text j (now - start r) @ [0]) (msg0 r)
     in if sint j smod 4096 = 0 then Inr (now_at 0 (Reports m) (r\<lparr>iter := j, msg0 := m\<rparr>))
        else Inr (now_at 0 (Reads []) (r\<lparr>iter := j\<rparr>)))"
proof -
  have l: "\<not> 63 < length (report_text i t)" "length (report_text i t @ [0]) \<le> 64" for i t using length_report_text [of i t] by simp_all
  have "take 64 (overlay (report_text i t @ [0]) (msg0 r)) = overlay (report_text i t @ [0]) (msg0 r)" for i t
    using assms(4) l(2) [of i t] by (intro take_all) (simp add: overlay_def)
  then show ?thesis using kprintf_report [OF take_token_bytes [OF assms(3,1)] assms(2)] l(1)
    by (auto simp: token0_round_def Let_def)
qed

section \<open>Steps of the first process\<close>

lemma ring_at_cong:
  assumes "phase_of r' = phase_of r" "registered r' = registered r" "link r' = link r" "stream_ok (to_screen r')"
    "buf0 r' = buf0 r" "length (msg0 r') = 64" "ring_at n b q r"
  shows "ring_at n b q r'"
proof -
  have "position_ok n b q r' = position_ok n b q r"
    by (rule position_ok_cong) (use assms transit_cong [of r' r n] in auto)
  then show ?thesis using assms by (simp add: ring_at_def ring_ok_def)
qed

lemma say_at:
  assumes "ring_at n b q r" "say x r = Inr r1"
  shows "ring_at n b q r1" "phase_of r1 = phase_of r"
proof -
  obtain s where s: "r1 = r\<lparr>to_screen := s\<rparr>" "stream_ok s" using say_Inr [OF assms(2)] assms(1) by (auto simp: ring_at_def ring_ok_def)
  then show "ring_at n b q r1" "phase_of r1 = phase_of r" using ring_at_cong [of r1 r n b q] assms(1) by (auto simp: ring_at_def ring_ok_def)
qed

lemma buf0_at:
  assumes "ring_at n b (At k) r" "length c = 128" "take 32 c = token_bytes b"
  shows "ring_at n b (At k) (r\<lparr>buf0 := c\<rparr>)"
proof -
  have "in_transit n (r\<lparr>buf0 := c\<rparr>) = in_transit n r" by (rule transit_cong) simp_all
  then show ?thesis using assms by (simp add: ring_at_def ring_ok_def held_by_def)
qed

lemma round_at:
  assumes inv: "ring_at n b q (now_at 0 (Reads []) r)" and b: "length b = 128" and step: "token0_round p now r = Inr r'"
  shows "ring_at n b q r'"
proof -
  obtain k where q: "q = At k" using inv by (cases q) (auto simp: ring_at_def)
  have ok: "take 32 (buf0 r) = token_bytes b" "length (buf0 r) = 128" "length (msg0 r) = 64" "0 < n" "stream_ok (to_screen r)"
    using inv q by (auto simp: ring_at_def ring_ok_def)
  define j where "j = iter r + 1"
  define m where "m = overlay (report_text j (now - start r) @ [0]) (msg0 r)"
  have l: "length m = 64" using length_report_text [of j "now - start r"] ok(3) by (simp add: m_def overlay_def)
  have c: "ring_at n b q (now_at 0 (Reads []) (r\<lparr>iter := j\<rparr>))" "ring_at n b q (now_at 0 (Reads []) (r\<lparr>iter := j, msg0 := m\<rparr>))"
    using ok l by (auto intro: ring_at_cong [OF _ _ _ _ _ _ inv])
  have "m \<noteq> []" using l by auto
  then have "ring_at n b q (now_at 0 (Reports m) (now_at 0 (Reads []) (r\<lparr>iter := j, msg0 := m\<rparr>)))"
    using now_at_ok [OF c(2) ok(4), of "Reports m"] by simp
  then have "ring_at n b q (now_at 0 (Reports m) (r\<lparr>iter := j, msg0 := m\<rparr>))" by (simp add: now_at_def)
  then show ?thesis using step c(1) unfolding token0_round_eq [OF ok(1,2) b ok(3)] j_def [symmetric] m_def [symmetric] Let_def
    by (auto split: if_splits)
qed

lemma launch_at:
  assumes inv: "ring_at n b Nowhere r" and b: "length b = 128" and r: "phase_of r 0 = Connects"
    and c: "c = overlay (token_text @ [0]) (buf0 r)"
  shows "ring_at n b (At 0) (now_at 0 (Launches (take 32 c)) (r\<lparr>start := now, buf0 := c\<rparr>))" (is "ring_at _ _ _ ?r")
proof -
  have tok: "take 32 c = token_bytes b" using inv r by (simp add: ring_at_def c token_bytes_def)
  have n: "0 < n" using inv by (simp add: ring_at_def ring_ok_def)
  have e: "in_transit n r j = []" if "j < n" for j using inv that by (simp add: ring_at_def)
  have "in_transit n ?r j = (if j = 0 then token_bytes b else [])" if "j < n" for j
    using e [OF that] r by (auto simp: in_transit_def tok)
  then have "held_by n (token_bytes b) 0 ?r" using n by (simp add: held_by_def)
  moreover have "token_bytes b \<noteq> []" using length_token_bytes [OF b] by auto
  moreover have "length (buf0 r) = 128" using inv by (simp add: ring_at_def ring_ok_def del: position_ok.simps)
  then have "length c = 128" by (simp add: c overlay_def token_text_def)
  ultimately show ?thesis using inv tok r by (auto simp: ring_at_def ring_ok_def)
qed

lemma greet_at:
  assumes inv: "ring_at n b q r" and r: "phase_of r 0 = Registers" and step: "token0_step p now n r = Inr r'"
  shows "ring_at n b q r'"
proof -
  have q: "q = Nowhere" using inv r by (cases q) (auto simp: ring_at_def)
  let ?c = "overlay (started_text @ [0]) (buf0 r)"
  have r': "r' = now_at 0 (Greets (take 64 ?c)) (r\<lparr>registered := (registered r)(0 := True), buf0 := ?c\<rparr>)"
    using step r by (simp add: token0_step_def Let_def)
  have "in_transit n r' = in_transit n (now_at 0 (Greets (take 64 ?c)) r)" by (rule transit_cong) (simp_all add: r')
  then have "in_transit n r' = in_transit n r" using transit_now_at [of "Greets (take 64 ?c)" r 0 n] r by simp
  then have "position_ok n b q r'" using inv r by (simp add: q ring_at_def r')
  moreover have "length (buf0 r) = 128" using inv by (simp add: ring_at_def ring_ok_def del: position_ok.simps)
  then have "length ?c = 128" by (simp add: overlay_def started_text_def)
  then have "ring_ok n r'" using inv by (auto simp: ring_at_def ring_ok_def r')
  ultimately show ?thesis by (simp add: ring_at_def)
qed

lemma read0_at:
  assumes inv: "ring_at n b q r" and b: "length b = 128" and xs: "phase_of r 0 = Reads xs" and step: "token0_step p now n r = Inr r'"
  shows "\<exists>q'. pass_step n q q' \<and> ring_at n b q' r'"
proof -
  have n: "0 < n" and len: "length (buf0 r) = 128" using inv by (auto simp: ring_at_def ring_ok_def)
  obtain x r1 where r1: "receive n 0 r = Inr (x, r1)" and r': "r' = now_at 0 (if length xs = 31 then Writes (take 32 ((buf0 r1)[length xs := x]))
      else Reads (xs @ [x])) (r1\<lparr>buf0 := (buf0 r1)[length xs := x]\<rparr>)"
    using step xs by (auto simp: token0_step_def bindE_eq_Inr Let_def)
  note t = receive_at [OF inv n b xs r1]
  obtain k where k: "q = At k" using t(1) by blast
  have "take 32 ((buf0 r1)[length xs := x]) = (token_bytes b)[length xs := token_bytes b ! length xs]"
    using inv k t(2,3) by (simp add: take_update_swap ring_at_def)
  then have c: "take 32 ((buf0 r1)[length xs := x]) = token_bytes b" "length ((buf0 r1)[length xs := x]) = 128"
    using t(3) len by simp_all
  have g: "now_at 0 p (r1\<lparr>buf0 := d\<rparr>) = (now_at 0 p r1)\<lparr>buf0 := d\<rparr>" for p d by (simp add: now_at_def)
  show ?thesis
  proof (cases "length xs = 31")
    case True
    have "ring_at n b (At 0) r'" using buf0_at [OF _ c(2,1)] t(4) [OF True] True c(1) unfolding r' g by simp
    then show ?thesis using t(4) [OF True] by blast
  next
    case False
    have "ring_at n b q r'" using buf0_at [OF _ c(2,1)] t(5) [OF False] False k by (simp add: r' g)
    then show ?thesis using pass_stay by blast
  qed
qed

lemma token0_step_at:
  assumes inv: "ring_at n b q r" and b: "length b = 128" and step: "token0_step p now n r = Inr r'"
  shows "\<exists>q'. pass_step n q q' \<and> ring_at n b q' r'"
proof -
  have n: "0 < n" and ph: "phase_ok (phase_of r 0)" using inv by (auto simp: ring_at_def ring_ok_def)
  have stay: "\<exists>q'. pass_step n q q' \<and> ring_at n b q' r'" if "ring_at n b q r'" using that pass_stay by blast
  show ?thesis
  proof (cases "phase_of r 0")
    case Registers
    show ?thesis using greet_at [OF inv Registers step] by (rule stay)
  next
    case (Greets ys)
    then obtain r1 where r1: "say (hd ys) r = Inr r1" and r': "r' = now_at 0 (if tl ys = [] then Connects else Greets (tl ys)) r1"
      using step by (auto simp: token0_step_def bindE_eq_Inr)
    show ?thesis using now_at_ok [OF say_at(1) [OF inv r1] n] say_at(2) [OF inv r1] Greets by (intro stay) (auto simp: r')
  next
    case Connects
    have q: "q = Nowhere" using inv Connects by (cases q) (auto simp: ring_at_def)
    have "r' = now_at 0 (Launches (take 32 (overlay (token_text @ [0]) (buf0 r)))) (r\<lparr>start := now, buf0 := overlay (token_text @ [0]) (buf0 r)\<rparr>)"
      using step Connects by (simp add: token0_step_def Let_def split: if_splits)
    then show ?thesis using launch_at [OF inv [unfolded q] b Connects refl] pass_launch q by blast
  next
    case (Launches ys)
    then obtain r1 where r1: "send 0 (hd ys) r = Inr r1" and r': "r' = now_at 0 (if tl ys = [] then Reads [] else Launches (tl ys)) r1"
      using step by (auto simp: token0_step_def bindE_eq_Inr)
    have "ys = hd ys # tl ys" using ph Launches by simp
    then show ?thesis unfolding r' using Launches by (intro stay [unfolded r'] send_at [OF inv n r1]) auto
  next
    case (Reads xs)
    show ?thesis by (rule read0_at [OF inv b Reads step])
  next
    case (Writes ys)
    then obtain r1 where r1: "send 0 (hd ys) r = Inr r1"
        and r': "(if tl ys = [] then token0_round p now r1 else Inr (now_at 0 (Writes (tl ys)) r1)) = Inr r'"
      using step by (auto simp: token0_step_def bindE_eq_Inr)
    have "ys = hd ys # tl ys" using ph Writes by simp
    then have "ring_at n b q (now_at 0 (if tl ys = [] then Reads [] else Writes (tl ys)) r1)"
      using Writes by (intro send_at [OF inv n r1]) auto
    then show ?thesis using r' round_at [OF _ b] by (intro stay) (auto split: if_splits)
  next
    case (Reports ys)
    then obtain r1 where r1: "say (hd ys) r = Inr r1" and r': "r' = now_at 0 (if tl ys = [] then Reads [] else Reports (tl ys)) r1"
      using step by (auto simp: token0_step_def bindE_eq_Inr)
    show ?thesis using now_at_ok [OF say_at(1) [OF inv r1] n] say_at(2) [OF inv r1] Reports by (intro stay) (auto simp: r')
  qed
qed

lemma ring_step_at:
  assumes "ring_at n b q r" "length b = 128" "ring_step p n r r'"
  shows "\<exists>q'. pass_step n q q' \<and> ring_at n b q' r'"
  using assms(3)
proof (cases rule: ring_step.cases)
  case (step_screen x s)
  have "stream_ok s"
    using step_screen(2) assms(1) stream_get_none [of "to_screen r"] stream_get_ok [of "to_screen r"]
    by (cases "stream_contents (to_screen r)") (fastforce simp: ring_at_def ring_ok_def)+
  then have "ring_at n b q r'" using step_screen(1) assms(1) by (intro ring_at_cong [OF _ _ _ _ _ _ assms(1)]) (auto simp: ring_at_def ring_ok_def)
  then show ?thesis using pass_stay by blast
qed (use token0_step_at [OF assms(1,2)] token_step_at [OF assms(1) _ _ assms(2)] in blast)+

text \<open>Every reachable state is at a position that the specification reaches.\<close>

inductive pass_reach :: "nat \<Rightarrow> position \<Rightarrow> bool" for n where
  pass_init: "pass_reach n Nowhere"
| pass_next: "pass_reach n q \<Longrightarrow> pass_step n q q' \<Longrightarrow> pass_reach n q'"

lemma ring_reach_at:
  assumes "ring_reach p n b m r" "0 < n" "length b = 128" "length m = 64"
  shows "\<exists>q. pass_reach n q \<and> ring_at n b q r"
  using assms(1)
proof (induction rule: ring_reach.induct)
  case reach_init
  then show ?case using ring_at_init [OF assms(2,3,4)] pass_init by blast
next
  case (reach_step r r')
  then show ?case using ring_step_at [OF _ assms(3)] pass_next by meson
qed

section \<open>Progress\<close>

lemma send_possible:
  assumes "stream_ok (link r i)" "stored (link r i) < 1022"
  shows "\<exists>r1. send i x r = Inr r1 \<and> buf0 r1 = buf0 r \<and> msg0 r1 = msg0 r"
  using stream_put_ok [OF assms, of x] by (auto simp: send_def)

lemma receive_possible:
  assumes "stream_ok (link r (pred_node n i))" "stream_contents (link r (pred_node n i)) = x # xs"
  shows "\<exists>r1. receive n i r = Inr (x, r1)"
  using stream_get_ok [OF assms] by (auto simp: receive_def)

text \<open>A process that writes to the server can go on, or the server can.\<close>

lemma say_possible:
  assumes "stream_ok (to_screen r)" "\<And>x s. stream_get (to_screen r) \<noteq> Inr (x, s)"
  shows "\<exists>r1. say y r = Inr r1"
proof (cases "stored (to_screen r) < 1022")
  case True
  then show ?thesis using stream_put_ok [OF assms(1) True, of y] by (auto simp: say_def)
next
  case False
  then obtain x xs where "stream_contents (to_screen r) = x # xs" using length_contents [of "to_screen r"] by (cases "stream_contents (to_screen r)") auto
  then show ?thesis using stream_get_ok [OF assms(1)] assms(2) by blast
qed

lemma step_node:
  assumes "i < n" "(if i = 0 then token0_step p now n r else token_step n i r) = Inr r'"
  shows "ring_step p n r r'"
  using assms step_first [of p now n r r'] step_other [of i n r r' p] by (cases "i = 0") auto

lemma can_write:
  assumes inv: "ring_at n b q r" and b: "length b = 128" and i: "i < n" "unsent (phase_of r i) \<noteq> []" "stored (link r i) < 1022"
  shows "\<exists>r'. ring_step p n r r'"
proof -
  obtain r1 where r1: "send i (hd (unsent (phase_of r i))) r = Inr r1" "buf0 r1 = buf0 r" "msg0 r1 = msg0 r"
    using send_possible [of r i] inv i by (fastforce simp: ring_at_def ring_ok_def)
  have "common_phase (phase_of r i)" if "i \<noteq> 0" using inv i(1) that by (auto simp: ring_at_def ring_ok_def)
  then have "\<exists>r'. (if i = 0 then token0_step p 0 n r else token_step n i r) = Inr r'"
  proof (cases "phase_of r i")
    case (Writes ys)
    have "\<exists>r'. token0_round p 0 r1 = Inr r'" if 0: "i = 0"
    proof -
      obtain k where "q = At k" using inv Writes 0 by (cases q) (auto simp: ring_at_def)
      then show ?thesis using inv r1(2,3) b token0_round_eq [of r1 b p 0] by (auto simp: ring_at_def ring_ok_def Let_def)
    qed
    then show ?thesis using Writes r1(1) by (auto simp: token0_step_def token_step_def)
  qed (use i r1 in \<open>auto simp: token0_step_def\<close>)
  then show ?thesis using step_node [OF i(1)] by blast
qed

lemma can_read:
  assumes inv: "ring_at n b q r" and i: "i < n" "phase_of r i = Reads xs" "stream_contents (link r (pred_node n i)) \<noteq> []"
  shows "\<exists>r'. ring_step p n r r'"
proof -
  obtain x r1 where "receive n i r = Inr (x, r1)"
    using receive_possible [of r n i] inv i(3) node_simps(2) [OF i(1)]
    by (cases "stream_contents (link r (pred_node n i))") (fastforce simp: ring_at_def ring_ok_def)+
  then have "\<exists>r'. (if i = 0 then token0_step p 0 n r else token_step n i r) = Inr r'"
    using i(2) by (auto simp: token0_step_def token_step_def Let_def)
  then show ?thesis using step_node [OF i(1)] by blast
qed

lemma can_register:
  assumes i: "i < n" "phase_of r i = Registers"
  shows "\<exists>r'. ring_step p n r r'"
proof -
  have "\<exists>r'. (if i = 0 then token0_step p 0 n r else token_step n i r) = Inr r'"
    using i(2) by (cases "i = 0") (simp_all add: token0_step_def token_step_def Let_def)
  then show ?thesis using step_node [OF i(1)] by blast
qed

lemma can_start:
  assumes inv: "ring_at n b q r" and i: "i < n" "unsent (phase_of r i) = []" "\<forall>xs. phase_of r i \<noteq> Reads xs"
  shows "\<exists>r'. ring_step p n r r'"
proof (rule ccontr)
  assume none: "\<nexists>r'. ring_step p n r r'"
  then have scr: "stream_get (to_screen r) \<noteq> Inr (x, s)" for x s using step_screen [of r x s p n] by blast
  have ok: "stream_ok (to_screen r)" "0 < i \<longrightarrow> common_phase (phase_of r i)" "phase_ok (phase_of r i)"
    using inv i(1) by (auto simp: ring_at_def ring_ok_def)
  have reg: "registered r j" if "j < n" for j
    using that can_register [OF that, of r p] none inv by (auto simp: ring_at_def ring_ok_def)
  have no: "\<nexists>r'. (if i = 0 then token0_step p 0 n r else token_step n i r) = Inr r'" using none step_node [OF i(1), of p 0 r] by blast
  show False
  proof (cases "phase_of r i")
    case Connects
    then show False using no reg [OF node_simps(3) [OF i(1)]] by (cases "i = 0") (simp_all add: token0_step_def token_step_def Let_def)
  next
    case (Greets ys)
    then show False using no ok say_possible [OF ok(1) scr, of "hd ys"] by (auto simp: token0_step_def split: if_splits)
  next
    case (Reports ys)
    then show False using no ok say_possible [OF ok(1) scr, of "hd ys"] by (auto simp: token0_step_def split: if_splits)
  qed (use i none can_register [OF i(1)] ok in \<open>auto\<close>)
qed

text \<open>No deadlock: in every state some process or the server can take a step.\<close>

lemma ring_progress:
  assumes inv: "ring_at n b q r" and b: "length b = 128"
  shows "\<exists>r'. ring_step p n r r'"
proof (cases q)
  case Nowhere
  then have "unsent (phase_of r 0) = []" "\<forall>xs. phase_of r 0 \<noteq> Reads xs" "0 < n" using inv
    by (cases "phase_of r 0"; auto simp: ring_at_def ring_ok_def)+
  then show ?thesis using can_start [OF inv] by blast
next
  case (At k)
  let ?j = "succ_node n k"
  have h: "k < n" "in_transit n r k = token_bytes b" using inv At by (auto simp: ring_at_def held_by_def)
  have len: "length (in_transit n r k) = 32" using h(2) length_token_bytes [OF b] by simp
  then have room: "stored (link r k) < 1022" by (simp add: in_transit_def)
  have j: "?j < n" "pred_node n ?j = k" using node_simps [OF h(1)] by simp_all
  show ?thesis
  proof (cases "unsent (phase_of r k) = []")
    case False
    then show ?thesis using can_write [OF inv b h(1) _ room] by blast
  next
    case True
    have un: "unsent (phase_of r ?j) = []"
      using True inv At j h(1) by (cases "?j = k") (auto simp: ring_at_def held_by_def in_transit_def)
    have "length (received (phase_of r ?j)) < 32" using inv j(1) by (cases "phase_of r ?j") (auto simp: ring_at_def ring_ok_def)
    then have "stream_contents (link r k) \<noteq> []" using len True length_0_conv [of "stream_contents (link r k)"]
      by (auto simp: in_transit_def)
    then show ?thesis using can_read [OF inv j(1)] can_start [OF inv j(1) un] j(2) by (metis (no_types))
  qed
qed

section \<open>The token goes round\<close>

text \<open>
  Between two hand-overs the number of steps is bounded: every byte is sent once and received once, and so are
  the greeting and a report.
\<close>

fun node_work :: "phase \<Rightarrow> nat" where
  "node_work Registers = 131"
| "node_work (Greets ys) = 2 * length ys + 2"
| "node_work Connects = 1"
| "node_work (Launches ys) = 2 * length ys"
| "node_work (Reads xs) = 0"
| "node_work (Writes ys) = 2 * length ys + 129"
| "node_work (Reports ys) = 2 * length ys"

definition ring_work :: "nat \<Rightarrow> token_ring \<Rightarrow> nat" where
  "ring_work n r = (\<Sum>i<n. node_work (phase_of r i) + stored (link r i)) + stored (to_screen r)"

definition handover :: "nat \<Rightarrow> token_ring \<Rightarrow> token_ring \<Rightarrow> bool" where
  "handover n r r' \<longleftrightarrow> (\<exists>i<n. unsent (phase_of r' i) \<noteq> [] \<and> received (phase_of r i) \<noteq> []) \<or>
     (\<not> launched (phase_of r 0) \<and> launched (phase_of r' 0))"

lemma sum_less_at:
  fixes f g :: "nat \<Rightarrow> nat"
  assumes "i < n" "g i < f i" "\<And>j. j \<noteq> i \<Longrightarrow> g j = f j"
  shows "sum g {..<n} < sum f {..<n}"
proof (rule sum_strict_mono_ex1)
  show "\<forall>j\<in>{..<n}. g j \<le> f j" using assms(2,3) by (metis less_imp_le order_refl)
qed (use assms in auto)

lemma work_now_at:
  assumes "i < n" "node_work p < node_work (phase_of r i)" "link r' = link r" "to_screen r' = to_screen r" "phase_of r' = (phase_of r)(i := p)"
  shows "ring_work n r' < ring_work n r"
  unfolding ring_work_def using assms by (simp, intro sum_less_at [OF assms(1)]) auto

lemma work_send:
  assumes "i < n" "send i x r = Inr r1" "stream_ok (link r i)" "node_work p + 1 < node_work (phase_of r i)"
    "link r' = link r1" "to_screen r' = to_screen r1" "phase_of r' = (phase_of r1)(i := p)"
  shows "ring_work n r' < ring_work n r"
proof -
  obtain s where s: "r1 = r\<lparr>link := (link r)(i := s)\<rparr>" "stream_contents s = stream_contents (link r i) @ [x]"
    using send_Inr [OF assms(2,3)] by metis
  then have "stored s = Suc (stored (link r i))" using length_contents [of s] by simp
  then show ?thesis unfolding ring_work_def using assms s(1) by (simp, intro sum_less_at [OF assms(1)]) auto
qed

lemma work_receive:
  assumes "i < n" "receive n i r = Inr (x, r1)" "stream_ok (link r (pred_node n i))" "phase_of r i = Reads xs"
    "link r' = link r1" "to_screen r' = to_screen r1" "phase_of r' = (phase_of r1)(i := Reads ys)"
  shows "ring_work n r' < ring_work n r"
proof -
  obtain s where s: "r1 = r\<lparr>link := (link r)(pred_node n i := s)\<rparr>" "stream_contents (link r (pred_node n i)) = x # stream_contents s"
    using receive_Inr [OF assms(2,3)] by metis
  have "stored s < stored (link r (pred_node n i))" using arg_cong [OF s(2), of length] by simp
  then show ?thesis unfolding ring_work_def using assms s(1)
    by (simp, intro sum_less_at [OF node_simps(2) [OF assms(1)]]) auto
qed

lemma work_say:
  assumes "0 < n" "say x r = Inr r1" "stream_ok (to_screen r)" "node_work p + 1 < node_work (phase_of r 0)"
  shows "ring_work n (now_at 0 p r1) < ring_work n r"
proof -
  have "stored (to_screen r) < 1022"
    using assms(2,3) stream_put_full [of "to_screen r" x] stored_le [of "to_screen r"] by (fastforce simp: say_def)
  then obtain s where s: "r1 = r\<lparr>to_screen := s\<rparr>" "stored s = Suc (stored (to_screen r))"
    using stream_put_ok [OF assms(3), of x] assms(2) by (auto simp: say_def)
  let ?f = "\<lambda>q i. node_work (q i) + stored (link r i)"
  have "{..<n} = insert 0 {0<..<n}" using assms(1) by auto
  then have "sum (?f ((phase_of r)(0 := p))) {..<n} + node_work (phase_of r 0) = sum (?f (phase_of r)) {..<n} + node_work p" by simp
  then show ?thesis using assms(4) by (simp add: ring_work_def s)
qed

lemma token_step_work:
  assumes inv: "ring_at n b q r" and i: "0 < i" "i < n" and step: "token_step n i r = Inr r'"
  shows "ring_work n r' < ring_work n r \<or> handover n r r'"
proof -
  have ok: "stream_ok (link r i)" "stream_ok (link r (pred_node n i))" "phase_ok (phase_of r i)"
    using inv i node_simps(2) [OF i(2)] by (auto simp: ring_at_def ring_ok_def)
  show ?thesis
  proof (cases "phase_of r i")
    case Registers
    then show ?thesis using step work_now_at [OF i(2), of Connects r r'] by (auto simp: token_step_def)
  next
    case Connects
    then show ?thesis using step work_now_at [OF i(2), of "Reads []" r r'] by (auto simp: token_step_def split: if_splits)
  next
    case (Reads xs)
    then obtain x r1 where r1: "receive n i r = Inr (x, r1)"
        and r': "r' = now_at i (if length xs = 31 then Writes (xs @ [x]) else Reads (xs @ [x])) r1"
      using step by (auto simp: token_step_def bindE_eq_Inr)
    show ?thesis
    proof (cases "length xs = 31")
      case True
      then have "handover n r r'" using i Reads by (auto simp: handover_def r' intro!: exI [of _ i])
      then show ?thesis ..
    qed (use work_receive [OF i(2) r1 ok(2) Reads, of r' "xs @ [x]"] r' in simp)
  next
    case (Writes ys)
    then obtain r1 where r1: "send i (hd ys) r = Inr r1" and r': "r' = now_at i (if tl ys = [] then Reads [] else Writes (tl ys)) r1"
      using step by (auto simp: token_step_def bindE_eq_Inr)
    have "ys = hd ys # tl ys" using ok(3) Writes by simp
    then have "length ys = Suc (length (tl ys))" by (metis length_Cons)
    then have "ring_work n r' < ring_work n r" using Writes by (intro work_send [OF i(2) r1 ok(1), of _ r']) (auto simp: r')
    then show ?thesis ..
  qed (use step in \<open>simp_all add: token_step_def\<close>)
qed

lemma send_frame: "send i x r = Inr r1 \<Longrightarrow> buf0 r1 = buf0 r \<and> msg0 r1 = msg0 r \<and> phase_of r1 = phase_of r"
  by (auto simp: send_def bindE_eq_Inr)

lemma round_phase:
  assumes inv: "ring_at n b q r" and r1: "buf0 r1 = buf0 r \<and> msg0 r1 = msg0 r \<and> phase_of r1 = phase_of r" and b: "length b = 128"
    and l: "launched (phase_of r 0)" and step: "token0_round p now r1 = Inr r'"
  shows "node_work (phase_of r' 0) \<le> 128 \<and> phase_of r' = (phase_of r1)(0 := phase_of r' 0) \<and> link r' = link r1 \<and> to_screen r' = to_screen r1"
proof -
  obtain k where "q = At k" using inv l by (cases q) (auto simp: ring_at_def)
  then have ok: "take 32 (buf0 r1) = token_bytes b" "length (buf0 r1) = 128" "length (msg0 r1) = 64" using inv r1 by (auto simp: ring_at_def ring_ok_def)
  have "length (overlay (report_text i t @ [0]) (msg0 r1)) = 64" for i t using ok(3) length_report_text [of i t] by (simp add: overlay_def)
  then show ?thesis using step unfolding token0_round_eq [OF ok(1,2) b ok(3)] Let_def by (auto split: if_splits)
qed

lemma token0_step_work:
  assumes inv: "ring_at n b q r" and b: "length b = 128" and step: "token0_step p now n r = Inr r'"
  shows "ring_work n r' < ring_work n r \<or> handover n r r'"
proof -
  have n: "0 < n" and ok: "stream_ok (link r 0)" "stream_ok (link r (pred_node n 0))" "phase_ok (phase_of r 0)" "stream_ok (to_screen r)"
    using inv node_simps(2) [of 0 n] by (auto simp: ring_at_def ring_ok_def)
  show ?thesis
  proof (cases "phase_of r 0")
    case Registers
    then show ?thesis using step n
      by (intro disjI1 work_now_at [OF n, of "Greets (take 64 (buf0 r'))" r r']) (auto simp: token0_step_def Let_def)
  next
    case (Greets ys)
    then obtain r1 where r1: "say (hd ys) r = Inr r1" and r': "r' = now_at 0 (if tl ys = [] then Connects else Greets (tl ys)) r1"
      using step by (auto simp: token0_step_def bindE_eq_Inr)
    show ?thesis unfolding r' using Greets ok(3) by (intro disjI1 work_say [OF n r1 ok(4)]; cases ys) auto
  next
    case Connects
    then show ?thesis using step by (auto simp: token0_step_def Let_def handover_def split: if_splits)
  next
    case (Launches ys)
    then obtain r1 where r1: "send 0 (hd ys) r = Inr r1" and r': "r' = now_at 0 (if tl ys = [] then Reads [] else Launches (tl ys)) r1"
      using step by (auto simp: token0_step_def bindE_eq_Inr)
    show ?thesis using Launches ok(3) by (intro disjI1 work_send [OF n r1 ok(1), of "if tl ys = [] then Reads [] else Launches (tl ys)" r']; cases ys) (auto simp: r')
  next
    case (Reads xs)
    then obtain x r1 c where r1: "receive n 0 r = Inr (x, r1)"
        and r': "r' = now_at 0 (if length xs = 31 then Writes (take 32 c) else Reads (xs @ [x])) (r1\<lparr>buf0 := c\<rparr>)" "c = (buf0 r1)[length xs := x]"
      using step by (auto simp: token0_step_def bindE_eq_Inr Let_def)
    show ?thesis
    proof (cases "length xs = 31")
      case True
      have "length c = 128" using receive_at(3) [OF inv n b Reads r1] inv r'(2) by (simp add: ring_at_def ring_ok_def)
      then have "unsent (phase_of r' 0) \<noteq> []" using True by (auto simp: r'(1))
      moreover have "received (phase_of r 0) \<noteq> []" using Reads True by auto
      ultimately have "handover n r r'" using n unfolding handover_def by blast
      then show ?thesis ..
    qed (use work_receive [OF n r1 ok(2) Reads, of r' "xs @ [x]"] r' in simp)
  next
    case (Writes ys)
    then obtain r1 where r1: "send 0 (hd ys) r = Inr r1"
        and r': "(if tl ys = [] then token0_round p now r1 else Inr (now_at 0 (Writes (tl ys)) r1)) = Inr r'"
      using step by (auto simp: token0_step_def bindE_eq_Inr)
    have "\<exists>m. node_work m + 1 < node_work (phase_of r 0) \<and> phase_of r' = (phase_of r1)(0 := m) \<and> link r' = link r1 \<and> to_screen r' = to_screen r1"
    proof (cases "tl ys = []")
      case True
      have "node_work (phase_of r 0) = 131" using True Writes ok(3) by (cases ys) auto
      moreover have "launched (phase_of r 0)" "token0_round p now r1 = Inr r'" using True Writes r' by simp_all
      ultimately show ?thesis using round_phase [OF inv send_frame [OF r1] b, of p now r'] by (intro exI [of _ "phase_of r' 0"]) simp
    next
      case False
      then show ?thesis using r' Writes ok(3) by (intro exI [of _ "Writes (tl ys)"]; cases ys) auto
    qed
    then show ?thesis using work_send [OF n r1 ok(1)] by blast
  next
    case (Reports ys)
    then obtain r1 where r1: "say (hd ys) r = Inr r1" and r': "r' = now_at 0 (if tl ys = [] then Reads [] else Reports (tl ys)) r1"
      using step by (auto simp: token0_step_def bindE_eq_Inr)
    show ?thesis unfolding r' using Reports ok(3) by (intro disjI1 work_say [OF n r1 ok(4)]; cases ys) auto
  qed
qed

lemma ring_step_work:
  assumes inv: "ring_at n b q r" and b: "length b = 128" and step: "ring_step p n r r'"
  shows "ring_work n r' < ring_work n r \<or> handover n r r'"
  using step
proof (cases rule: ring_step.cases)
  case (step_screen x s)
  have "stream_ok (to_screen r)" using inv by (simp add: ring_at_def ring_ok_def)
  then have "stored s < stored (to_screen r)"
    using step_screen(2) stream_get_none [of "to_screen r"] stream_get_ok [of "to_screen r"]
    by (cases "stream_contents (to_screen r)") fastforce+
  then show ?thesis using step_screen(1) by (simp add: ring_work_def)
qed (use token0_step_work [OF inv b] token_step_work [OF inv] in blast)+

fun advance :: "nat \<Rightarrow> position \<Rightarrow> position" where
  "advance n Nowhere = At 0"
| "advance n (At k) = At (succ_node n k)"

text \<open>The bytes that a process holds tell the position.\<close>

lemma ring_at_holder:
  assumes "ring_at n b q r" "i < n"
  shows "unsent (phase_of r i) \<noteq> [] \<Longrightarrow> q = At i" "received (phase_of r i) \<noteq> [] \<Longrightarrow> q = At (pred_node n i)"
proof -
  show "q = At i" if u: "unsent (phase_of r i) \<noteq> []"
    using assms u by (cases q) (auto simp: ring_at_def held_by_def in_transit_def)
  have "in_transit n r (pred_node n i) = received (phase_of r i) @ stream_contents (link r (pred_node n i)) @ unsent (phase_of r (pred_node n i))"
    using node_simps(1) [OF assms(2)] by (simp add: in_transit_def)
  then show "q = At (pred_node n i)" if "received (phase_of r i) \<noteq> []"
    using assms(1) node_simps(2) [OF assms(2)] that by (cases q) (auto simp: ring_at_def held_by_def)
qed

lemma handover_advances:
  assumes n: "1 < n" and r: "ring_at n b q r" "ring_at n b q' r'" "pass_step n q q'" "handover n r r'"
  shows "q' = advance n q"
proof -
  have "q' \<noteq> q"
  proof (cases "\<exists>i<n. unsent (phase_of r' i) \<noteq> [] \<and> received (phase_of r i) \<noteq> []")
    case True
    then obtain i where i: "i < n" "unsent (phase_of r' i) \<noteq> []" "received (phase_of r i) \<noteq> []" by blast
    have "pred_node n i \<noteq> i" using n i(1) by (auto simp: pred_node_def)
    then show ?thesis using ring_at_holder(1) [OF r(2) i(1,2)] ring_at_holder(2) [OF r(1) i(1,3)] by simp
  next
    case False
    then show ?thesis using r by (cases q; cases q') (auto simp: handover_def ring_at_def)
  qed
  then show ?thesis using r(3) by (auto elim: pass_step.cases)
qed

text \<open>In a run of the ring, which need not be fair, the position advances again and again.\<close>

lemma run_advances:
  assumes n: "1 < n" and b: "length b = 128" and run: "\<forall>i. ring_step p n (f i) (f (Suc i))"
  shows "ring_at n b q (f i) \<Longrightarrow> \<exists>j>i. ring_at n b (advance n q) (f j)"
proof (induction "ring_work n (f i)" arbitrary: i rule: less_induct)
  case less
  obtain q' where q': "pass_step n q q'" "ring_at n b q' (f (Suc i))" using ring_step_at [OF less.prems b] run by blast
  show ?case
  proof (cases "q' = q")
    case True
    then have "q' \<noteq> advance n q \<or> ring_at n b (advance n q) (f (Suc i))" using q'(2) by simp
    then consider "ring_at n b (advance n q) (f (Suc i))" | "\<not> handover n (f i) (f (Suc i))"
      using handover_advances [OF n less.prems q'(2,1)] by blast
    then show ?thesis
    proof cases
      case 2
      then have "ring_work n (f (Suc i)) < ring_work n (f i)" using ring_step_work [OF less.prems b] run by blast
      then show ?thesis using less.hyps [of "Suc i"] q'(2) True Suc_lessD by blast
    qed blast
  next
    case False
    then have "q' = advance n q" using q'(1) by (auto elim: pass_step.cases)
    then show ?thesis using q'(2) by blast
  qed
qed

lemma run_advances_often:
  assumes n: "1 < n" and b: "length b = 128" and run: "\<forall>i. ring_step p n (f i) (f (Suc i))" and q: "ring_at n b q (f i)"
  shows "\<exists>j\<ge>i. ring_at n b ((advance n ^^ m) q) (f j)"
proof (induction m)
  case 0
  then show ?case using q by auto
next
  case (Suc m)
  then obtain j where "i \<le> j" "ring_at n b ((advance n ^^ m) q) (f j)" by blast
  then show ?case using run_advances [OF n b run, of "(advance n ^^ m) q" j] by (auto intro: less_imp_le le_less_trans)
qed

lemma advance_to: "k < n \<Longrightarrow> (advance n ^^ k) (At 0) = At k"
  by (induction k) (auto simp: succ_node_def)

lemma advance_zero: "j < n \<Longrightarrow> (advance n ^^ (n - j)) (At j) = At 0"
proof (induction "n - j" arbitrary: j)
  case (Suc m)
  show ?case
  proof (cases "Suc j = n")
    case True
    then have "n - j = 1" by simp
    then show ?thesis using True by (simp add: succ_node_def)
  next
    case False
    then have "n - j = Suc (n - Suc j)" "m = n - Suc j" using Suc.prems Suc.hyps(2) by auto
    then show ?thesis using Suc.hyps(1) [of "Suc j"] Suc.prems False by (simp add: funpow_swap1 succ_node_def)
  qed
qed simp

lemma advance_reaches:
  assumes "k < n" "\<forall>j. q = At j \<longrightarrow> j < n"
  shows "\<exists>m. (advance n ^^ m) q = At k"
proof (cases q)
  case Nowhere
  then have "(advance n ^^ Suc k) q = At k" using advance_to [OF assms(1)] by (simp add: funpow_swap1)
  then show ?thesis by blast
next
  case (At j)
  then have "(advance n ^^ (k + (n - j))) q = At k" using advance_zero [of j n] advance_to [OF assms(1)] assms(2) unfolding funpow_add o_apply by simp
  then show ?thesis by blast
qed

lemma ring_run_visits:
  assumes n: "1 < n" and b: "length b = 128" and run: "\<forall>i. ring_step p n (f i) (f (Suc i))" and q: "ring_at n b q (f i)" and k: "k < n"
  shows "\<exists>j\<ge>i. held_by n (token_bytes b) k (f j)"
proof -
  have "\<forall>j. q = At j \<longrightarrow> j < n" using q by (auto simp: ring_at_def held_by_def)
  then obtain m where "(advance n ^^ m) q = At k" using advance_reaches [OF k] by blast
  then show ?thesis using run_advances_often [OF n b run q, of m] by (auto simp: ring_at_def)
qed

end
