(* ===== verification/Low.thy ===== *)
theory Low
  imports Memory
begin

text \<open>
  What allocation leaves alone. The boot loader, the firmware and the programs lie below the heap, in frames that
  are neither free nor page tables nor part of the heap. \<open>low_kept\<close> says that such memory is readable as before:
  \<open>kmalloc\<close> may add pages and page tables, and it clears the block it returns, but it
  changes nothing below.
\<close>

section \<open>Memory below the heap\<close>

definition below_heap :: "ptr \<Rightarrow> 'a kmem_scheme \<Rightarrow> bool" where
  "below_heap v s \<longleftrightarrow> v < HEAP_START \<and>
     (\<exists>p. mmu_translate v s = Some p \<and> private_at p s \<and>
        (\<forall>w\<in>heap_region s. \<forall>q. mmu_translate w s = Some q \<longrightarrow> frame_of q \<noteq> frame_of p))"

definition low_kept :: "'a kmem_scheme \<Rightarrow> 'a kmem_scheme \<Rightarrow> bool" where
  "low_kept s s' \<longleftrightarrow> (\<forall>v. below_heap v s \<longrightarrow> below_heap v s' \<and> vread8 v s' = vread8 v s)"

lemma low_kept_refl [simp]: "low_kept s s"
  by (simp add: low_kept_def)

lemma low_kept_trans: "low_kept s s' \<Longrightarrow> low_kept s' s'' \<Longrightarrow> low_kept s s''"
  by (simp add: low_kept_def)

lemma low_kept_fields [simp]:
  "low_kept s (s'\<lparr>allocator := a\<rparr>) = low_kept s s'" "low_kept s (s'\<lparr>mem_lock := l\<rparr>) = low_kept s s'"
  "low_kept s (s'\<lparr>stats := n\<rparr>) = low_kept s s'"
  "low_kept (s\<lparr>mem_lock := l\<rparr>) s' = low_kept s s'" "low_kept (s\<lparr>stats := n\<rparr>) s' = low_kept s s'"
  by (simp_all add: low_kept_def below_heap_def)

lemma low_kept_grow:
  assumes ok: "kmem_ok s" and room: "heap s < HEAP_LIMIT" and two: "2 \<le> card (frames s)"
  shows "low_kept s (grow_heap s)"
proof -
  have start: "HEAP_START \<le> heap s" and fin: "finite (frames s)" using ok two by (auto simp: kmem_ok_def intro: card_ge_0_finite)
  have mf: "Min (frames s) \<in> frames s" using two fin by (intro Min_in) auto
  have mp: "Min (frames s) < PAGES" using mf by (simp add: frames_def)
  have "below_heap v (grow_heap s) \<and> vread8 v (grow_heap s) = vread8 v s" if v: "below_heap v s" for v
  proof -
    obtain p where p: "mmu_translate v s = Some p" "private_at p s"
        "\<And>w q. w \<in> heap_region s \<Longrightarrow> mmu_translate w s = Some q \<Longrightarrow> frame_of q \<noteq> frame_of p" "v < HEAP_START"
      using v by (auto simp: below_heap_def)
    have "v < HEAP_LIMIT" "\<not> heap s \<le> v" using p(4) start room by auto
    then have tr: "mmu_translate v (grow_heap s) = Some p" using grow_heap_translate [OF ok room two, of v] p(1) by simp
    have "frame_of q \<noteq> frame_of p" if w: "w \<in> heap_region (grow_heap s)" and q: "mmu_translate w (grow_heap s) = Some q" for w q
    proof (cases "heap s \<le> w \<and> w < heap s + PAGE_SIZE")
      case True
      then have "frame_of q = Min (frames s)"
        using q grow_heap_translate [OF ok room two, of w] heap_region_grow(2) [OF ok room w] mp by (auto simp: frame_of_frame_slot)
      then show ?thesis using mf p(2) by (auto simp: private_at_def)
    next
      case False
      then have "w \<in> heap_region s" using w heap_region_grow(1) [OF ok room] by auto
      then show ?thesis using p(3) [of w q] q False grow_heap_translate [OF ok room two, of w] heap_region_grow(2) [OF ok room w] by auto
    qed
    moreover have "phys_mem (grow_heap s) (p AND 0xFFFFFFFC) = phys_mem s (p AND 0xFFFFFFFC)"
      using map_page_keeps [OF reserve_map_ready [OF ok two] heap_dir_index [OF room] private_reserve [OF p(2)] frame_of_word]
      by (simp add: grow_heap_def Let_def)
    ultimately show ?thesis using p(1,2,4) tr grow_heap_private(1) [OF ok room two] by (auto simp: below_heap_def vread8_def)
  qed
  then show ?thesis by (simp add: low_kept_def)
qed

section \<open>Writes to the heap\<close>

lemma low_kept_vwrite8:
  assumes ok: "kmem_ok s" and h: "h \<in> heap_region s" and wr: "vwrite8 h x s = Inr s'"
  shows "low_kept s s'"
proof -
  obtain q where q: "mmu_translate h s = Some q" "private_at q s"
    using ok h unfolding kmem_ok_def heap_mapped_def by blast
  let ?a = "q AND 0xFFFFFFFC"
  define m where "m = (phys_mem s)(?a := set_byte (unat (q AND 3)) x (phys_mem s ?a))"
  have s': "s' = s\<lparr>phys_mem := m\<rparr>" using wr q(1) by (simp add: vwrite8_def Let_def m_def)
  note fr = frame_of_word [of q]
  have tr: "mmu_translate w s' = mmu_translate w s" if "w < HEAP_LIMIT" for w
    unfolding s' m_def using that by (intro translate_write_private [OF q(2) fr] heap_dir_index)
  have pr: "private_at r s' = private_at r s" for r unfolding s' m_def by (rule private_write_private [OF q(2) fr])
  have reg: "heap_region s' = heap_region s" by (simp add: s')
  have lim: "w < HEAP_LIMIT" if "w \<in> heap_region s" for w using ok that by (auto simp: kmem_ok_def heap_region_def)
  have "below_heap v s' \<and> vread8 v s' = vread8 v s" if v: "below_heap v s" for v
  proof -
    obtain p where p: "mmu_translate v s = Some p" "private_at p s" "v < HEAP_START"
        "\<And>w q. w \<in> heap_region s \<Longrightarrow> mmu_translate w s = Some q \<Longrightarrow> frame_of q \<noteq> frame_of p"
      using v by (auto simp: below_heap_def)
    have "v < HEAP_LIMIT" using p(3) by (rule less_trans) simp
    then have trv: "mmu_translate v s' = Some p" using tr p(1) by simp
    have "p AND 0xFFFFFFFC \<noteq> ?a" using p(4) [OF h q(1)] frame_of_word [of p] fr by metis
    then have "phys_mem s' (p AND 0xFFFFFFFC) = phys_mem s (p AND 0xFFFFFFFC)" by (simp add: s' m_def)
    then show ?thesis using p trv pr tr lim reg by (auto simp: below_heap_def vread8_def)
  qed
  then show ?thesis by (simp add: low_kept_def)
qed

lemma low_kept_kmemset:
  "kmem_ok s \<Longrightarrow> HEAP_START \<le> p \<Longrightarrow> unat p + n \<le> unat (heap s) \<Longrightarrow> kmemset n p x s = Inr s' \<Longrightarrow> low_kept s s'"
proof (induction n arbitrary: p s)
  case (Suc n)
  have v: "p \<in> heap_region s" using Suc.prems by (simp add: heap_region_def word_less_nat_alt)
  have u: "unat (p + 1) = unat p + 1" using Suc.prems(3) unat32_less [of "heap s"] by (simp add: unat_word_ariths)
  obtain m where m: "vwrite8 p x s = Inr (s\<lparr>phys_mem := m\<rparr>)" "kmem_ok (s\<lparr>phys_mem := m\<rparr>)"
    using vwrite8_heap [OF Suc.prems(1) v] by blast
  have "HEAP_START \<le> p + 1" using Suc.prems(2) u by (simp add: word_le_nat_alt)
  then have "low_kept (s\<lparr>phys_mem := m\<rparr>) s'"
    using Suc.prems(3,4) u m(1) by (intro Suc.IH [OF m(2)]) simp_all
  then show ?case using low_kept_vwrite8 [OF Suc.prems(1) v m(1)] by (rule low_kept_trans [rotated])
qed simp

section \<open>Allocation\<close>

lemma mem_alloc_low:
  assumes ok: "kmem_ok s" and room: "heap s < HEAP_LIMIT" and two: "2 \<le> card (frames s)"
    and nodes: "15 \<le> free_nodes (allocator s)" and sz: "unat sz \<le> 4096" and r: "mem_alloc 2 sz s = Inr (p, s')"
  shows "low_kept s s'"
proof -
  let ?l = "level_of (unat sz)"
  have lev: "alloc_level 1 (list_size 1) sz = ?l" using sz by (intro alloc_level_eq) simp
  have l: "1 \<le> ?l" "?l \<le> 9" using level_of_props(1) [of "unat sz"] small_level(1) [OF sz] sz by simp_all
  have two_steps: "mem_alloc 2 sz s = mem_alloc (Suc (Suc 0)) sz s" by (simp add: numeral_2_eq_2)
  have last: "\<exists>a. s' = t\<lparr>allocator := a\<rparr>" if "mem_alloc (Suc 0) sz t = Inr (p, s')" for t
    using that l unfolding mem_alloc_Suc [of 0] lev by (auto simp: bindE_def split: sum.splits if_splits prod.splits)
  have hok: "heap_ok (allocator s)" using ok by (simp add: kmem_ok_def)
  have enough: "15 - ?l \<le> free_nodes (allocator s) + 1" using nodes by linarith
  obtain addr a' where get: "list_get ?l (allocator s) = Inr (addr, a')"
      "if \<forall>b\<in>free_blocks (allocator s). fst b < ?l then addr = 0 \<and> a' = allocator s else addr \<noteq> 0"
    using list_get_block [OF hok l(1) enough] by (metis (mono_tags, lifting))
  show ?thesis
  proof (cases "addr = 0")
    case True
    then have a': "a' = allocator s" using get(2) by (auto split: if_splits)
    have node: "0 < free_nodes (allocator s)" using nodes by simp
    obtain a where a: "add_block 9 (heap s) (allocator s) = Inr a"
      using add_block_ok [OF _ heap_page_block(1,2) [OF ok room] node] ok by (auto simp: kmem_ok_def)
    have "mem_alloc (Suc 0) sz ((grow_heap s)\<lparr>allocator := a\<rparr>) = Inr (p, s')"
      using r l get(1) kbrk_eq [OF ok room two] a unfolding two_steps mem_alloc_Suc [of "Suc 0"] lev
      by (simp add: True a')
    then obtain b where "s' = (grow_heap s)\<lparr>allocator := b\<rparr>" using last by fastforce
    then show ?thesis using low_kept_grow [OF ok room two] by simp
  next
    case False
    then have "s' = s\<lparr>allocator := a'\<rparr>" using r l get(1) unfolding two_steps mem_alloc_Suc [of "Suc 0"] lev by simp
    then show ?thesis by simp
  qed
qed

lemma kmalloc_low:
  assumes "room_for (Suc n) s" "unat sz \<le> 4096" "kmalloc 2 sz s = Inr (p, s')"
  shows "low_kept s s'" "got_block sz s p s'"
proof -
  have rf: "kmem_ok s" "mem_lock s = 0" "can_alloc sz s" using room_for_alloc [OF assms(1,2)] by simp_all
  have "alloc_pages (level_of (unat sz)) < 2" using small_level(2) [OF assms(2)] by simp
  then show g: "got_block sz s p s'" using kmalloc_got_block [OF rf, of 2] assms(3) by auto
  let ?s0 = "s\<lparr>mem_lock := 1, stats := stats s + sz\<rparr>"
  obtain s1 s2 where s: "mem_alloc 2 sz ?s0 = Inr (p, s1)" "kmemset (unat sz) p 0 s1 = Inr s2" "s' = s2\<lparr>mem_lock := 0\<rparr>"
    using assms(3) rf(2) by (auto simp: kmalloc_def Let_def bindE_def split: sum.splits)
  have rs: "heap ?s0 < HEAP_LIMIT" "2 \<le> card (frames ?s0)" "15 \<le> free_nodes (allocator ?s0)"
    using assms(1) by (simp_all add: room_for_def word_less_nat_alt)
  have k1: "low_kept s s1" using mem_alloc_low [OF _ rs assms(2) s(1)] rf(1) by simp
  have post: "alloc_post (level_of (unat sz)) 1 ?s0 (mem_alloc 2 sz ?s0)"
    using mem_alloc_ok [of ?s0 sz 2] rf(1,3) small_level(2) [OF assms(2)] by (simp add: can_alloc_def Let_def)
  then have p1: "kmem_ok s1" "block (level_of (unat sz), unat p) \<subseteq> bytes (free_blocks (allocator ?s0)) \<union> new_bytes ?s0 s1" "heap s \<le> heap s1"
    using s(1) by (auto simp: alloc_post_def)
  have "block (level_of (unat sz), unat p) \<subseteq> unat ` heap_region s1"
  proof -
    have "bytes (free_blocks (allocator s)) \<subseteq> unat ` heap_region s" using rf(1) by (simp add: kmem_ok_def)
    moreover have "block (level_of (unat sz), unat p) \<subseteq> bytes (free_blocks (allocator s)) \<union> new_bytes s s1"
      using p1(2) by (simp add: new_bytes_def)
    ultimately show ?thesis using new_bytes_region [OF rf(1) p1(3)] by (meson Un_mono order_refl order_trans)
  qed
  moreover have "unat sz \<le> bsize (level_of (unat sz))" using assms(2) by (intro level_of_props(2)) simp
  ultimately have "low_kept s1 s2" using low_kept_kmemset [OF p1(1) _ _ s(2)] in_heap_bytes by blast
  then show "low_kept s s'" using k1 s(3) low_kept_trans by simp
qed

section \<open>Blocks in use\<close>

lemma got_blockD:
  assumes "got_block sz s p s'"
  shows "p \<noteq> 0" "unat p \<in> bytes (free_blocks (allocator s)) \<union> new_bytes s s'" "unat p \<notin> bytes (free_blocks (allocator s'))"
    "unat p \<in> unat ` heap_region s'" "kmem_ok s'"
proof -
  let ?b = "block (level_of (unat sz), unat p)"
  have b: "p \<noteq> 0" "?b \<subseteq> bytes (free_blocks (allocator s)) \<union> new_bytes s s'" "kmem_ok s'"
    "bytes (free_blocks (allocator s')) = bytes (free_blocks (allocator s)) \<union> new_bytes s s' - ?b" "?b \<subseteq> unat ` heap_region s'"
    using assms by (simp_all add: got_block_def Let_def)
  have p: "unat p \<in> ?b" by simp
  show "p \<noteq> 0" "kmem_ok s'" by (rule b)+
  show "unat p \<in> bytes (free_blocks (allocator s)) \<union> new_bytes s s'" using b(2) p by (rule subsetD)
  show "unat p \<notin> bytes (free_blocks (allocator s'))" using b(4) p by simp
  show "unat p \<in> unat ` heap_region s'" using b(5) p by (rule subsetD)
qed

text \<open>An address of the heap that is not free. It stays in use, and later blocks start elsewhere.\<close>

definition taken :: "ptr \<Rightarrow> 'a kmem_scheme \<Rightarrow> bool" where
  "taken p s \<longleftrightarrow> unat p < unat (heap s) \<and> unat p \<notin> bytes (free_blocks (allocator s))"

lemma taken_new: "got_block sz s p s' \<Longrightarrow> taken p s'"
  using got_blockD(3,4) [of sz s p s'] by (auto simp: taken_def heap_region_def word_less_nat_alt)

lemma taken_keep:
  assumes "got_block sz s p s'" "taken q s"
  shows "taken q s'" "q \<noteq> p"
proof -
  let ?b = "block (level_of (unat sz), unat p)"
  have g: "heap s \<le> heap s'" "bytes (free_blocks (allocator s')) = bytes (free_blocks (allocator s)) \<union> new_bytes s s' - ?b"
    using assms(1) by (simp_all add: got_block_def Let_def)
  have q: "unat q \<notin> bytes (free_blocks (allocator s)) \<union> new_bytes s s'" using assms(2) by (simp add: taken_def new_bytes_def)
  then show "q \<noteq> p" using got_blockD(2) [OF assms(1)] by auto
  show "taken q s'" using q g assms(2) by (auto simp: taken_def word_le_nat_alt)
qed

lemma two_blocks:
  assumes "got_block sz k p k1" "got_block sz' k2 q k3" "allocator k2 = allocator k1" "heap k2 = heap k1"
  shows "p \<noteq> q"
proof -
  have "taken p k2" using taken_new [OF assms(1)] assms(3,4) by (simp add: taken_def)
  then show ?thesis by (rule taken_keep(2) [OF assms(2)])
qed

section \<open>Fields above the memory management\<close>

lemma below_heap_cong:
  assumes "memory_map s' = memory_map s" "phys_mem s' = phys_mem s" "cr3 s' = cr3 s" "heap s' = heap s"
  shows "below_heap v s' = below_heap v s" "mmu_translate v s' = mmu_translate v s" "vread8 v s' = vread8 v s"
proof -
  have d: "pdir s' = pdir s" "pde i s' = pde i s" for i using assms by (simp_all add: pdir_def pde_def)
  then have t: "mmu_translate w s' = mmu_translate w s" for w using assms by (simp add: mmu_translate_def pte_slot_def)
  have "private_at p s' = private_at p s" for p using assms d by (simp add: private_at_def frames_def)
  moreover have "heap_region s' = heap_region s" using assms by (simp add: heap_region_def)
  ultimately show "below_heap v s' = below_heap v s" by (simp add: below_heap_def t)
  show "mmu_translate v s' = mmu_translate v s" by (rule t)
  show "vread8 v s' = vread8 v s" using assms by (simp add: vread8_def t cong: option.case_cong)
qed

end
