(* ===== verification/Gdt.thy ===== *)
theory Gdt
  imports Prelude
begin

text \<open>
  Segments, \<^verbatim>\<open>kernel/gdt.c\<close>: the global descriptor table, the task state segments, one per CPU, and
  the register that points to the table. \<open>addr_tss\<close> and \<open>addr_gdt\<close> are the addresses the linker gives to the
  arrays; a \<^verbatim>\<open>struct tss_entry\<close> has 104 bytes, a \<^verbatim>\<open>struct gdt_entry\<close> 8. \<open>gdt_flush\<close> is assembly that loads the
  register, \<open>tss_flush\<close> loads the selector it computes into the task register.
\<close>

section \<open>State and operations\<close>

record gdt_entry =
  gdt_size_low :: uint16
  gdt_base_low :: uint16
  gdt_base_middle :: uint8
  gdt_access :: uint8
  granularity :: uint8
  gdt_base_high :: uint8

record tss_entry =
  prev_tss :: uint32
  tss_esp0 :: uint32
  tss_ss0 :: uint32
  tss_esp1 :: uint32
  tss_ss1 :: uint32
  tss_esp2 :: uint32
  tss_ss2 :: uint32
  tss_cr3 :: uint32
  tss_eip :: uint32
  tss_eflags :: uint32
  tss_eax :: uint32
  tss_ecx :: uint32
  tss_edx :: uint32
  tss_ebx :: uint32
  tss_esp :: uint32
  tss_ebp :: uint32
  tss_esi :: uint32
  tss_edi :: uint32
  tss_es :: uint32
  tss_cs :: uint32
  tss_ss :: uint32
  tss_ds :: uint32
  tss_fs :: uint32
  tss_gs :: uint32
  tss_ldt :: uint32
  tss_trap :: uint16
  iomap_base :: uint16

record gdt_register =
  gdtr_size :: uint16
  gdtr_base :: uint32

record segments =
  gdt :: "nat \<Rightarrow> gdt_entry"
  gdtr :: gdt_register
  tss :: "nat \<Rightarrow> tss_entry"

abbreviation (input) GDT_ENTRIES :: nat where "GDT_ENTRIES \<equiv> 13"

definition gdt_descriptor :: "uint32 \<Rightarrow> uint32 \<Rightarrow> uint8 \<Rightarrow> uint8 \<Rightarrow> gdt_entry" where
  "gdt_descriptor base limit acc gran =
     \<lparr>gdt_size_low = ucast (limit AND 0xFFFF),
      gdt_base_low = ucast (base AND 0xFFFF),
      gdt_base_middle = ucast (drop_bit 16 base AND 0xFF),
      gdt_access = acc,
      granularity = ucast (drop_bit 16 limit AND 0x0F) OR (gran AND 0xF0),
      gdt_base_high = ucast (drop_bit 24 base AND 0xFF)\<rparr>"

definition gdt_set :: "nat \<Rightarrow> uint32 \<Rightarrow> uint32 \<Rightarrow> uint8 \<Rightarrow> uint8 \<Rightarrow> segments \<Rightarrow> segments res" where
  "gdt_set n base limit acc gran g =
     (if n < GDT_ENTRIES then Inr (g\<lparr>gdt := (gdt g)(n := gdt_descriptor base limit acc gran)\<rparr>) else Inl OutOfBounds)"

text \<open>The selector \<open>tss_flush\<close> loads.\<close>

definition tss_flush :: "uint32 \<Rightarrow> uint32" where
  "tss_flush n = (n + 5) * 8 OR 0x03"

definition tss_init :: "uint32 \<Rightarrow> nat \<Rightarrow> segments \<Rightarrow> segments res" where
  "tss_init addr_tss n g =
     bindE (gdt_set (5 + n) (addr_tss + 104 * of_nat n) (addr_tss + 104 * (of_nat n + 1)) 0xE9 0x00 g) (\<lambda>g.
     Inr (g\<lparr>tss := (tss g)(n := (tss g n)\<lparr>tss_ss0 := 0x10, tss_esp0 := 0xDEADC0DE, tss_cs := 0x0b,
        tss_ss := 0x13, tss_ds := 0x13, tss_es := 0x13, tss_fs := 0x13, tss_gs := 0x13\<rparr>)\<rparr>))"

definition zero_tss :: tss_entry where
  "zero_tss =
     \<lparr>prev_tss = 0, tss_esp0 = 0, tss_ss0 = 0, tss_esp1 = 0, tss_ss1 = 0, tss_esp2 = 0, tss_ss2 = 0, tss_cr3 = 0, tss_eip = 0,
      tss_eflags = 0, tss_eax = 0, tss_ecx = 0, tss_edx = 0, tss_ebx = 0, tss_esp = 0, tss_ebp = 0, tss_esi = 0, tss_edi = 0,
      tss_es = 0, tss_cs = 0, tss_ss = 0, tss_ds = 0, tss_fs = 0, tss_gs = 0, tss_ldt = 0, tss_trap = 0, iomap_base = 0\<rparr>"

fun tss_loop :: "nat \<Rightarrow> uint32 \<Rightarrow> segments \<Rightarrow> segments res" where
  "tss_loop 0 addr_tss g = Inr g"
| "tss_loop (Suc n) addr_tss g = bindE (tss_init addr_tss (MAX_CPU - Suc n) g) (tss_loop n addr_tss)"

definition gdt_init :: "uint32 \<Rightarrow> uint32 \<Rightarrow> segments \<Rightarrow> segments res" where
  "gdt_init addr_gdt addr_tss g =
     (let g = g\<lparr>gdtr := \<lparr>gdtr_size = 104, gdtr_base = VIRT_TO_PHYS addr_gdt\<rparr>\<rparr>;
          g = g\<lparr>tss := (\<lambda>i. if i < MAX_CPU then zero_tss else tss g i)\<rparr> in
      bindE (gdt_set 0 0 0 0 0 g) (\<lambda>g.
      bindE (gdt_set 1 0 0xFFFFFFFF 0x9A 0xCF g) (\<lambda>g.
      bindE (gdt_set 2 0 0xFFFFFFFF 0x92 0xCF g) (\<lambda>g.
      bindE (gdt_set 3 0 0xFFFFFFFF 0xFA 0xCF g) (\<lambda>g.
      bindE (gdt_set 4 0 0xFFFFFFFF 0xF2 0xCF g) (\<lambda>g.
      tss_loop MAX_CPU addr_tss g))))))"

text \<open>The index of \<open>tss_set_stack\<close> is the number of a CPU; it is below \<open>MAX_CPU\<close>.\<close>

definition tss_set_stack :: "nat \<Rightarrow> uint32 \<Rightarrow> segments \<Rightarrow> segments" where
  "tss_set_stack cpu stk g = g\<lparr>tss := (tss g)(cpu := (tss g cpu)\<lparr>tss_esp0 := stk\<rparr>)\<rparr>"

lemma tss_set_stack_simps [simp]:
  "tss_esp0 (tss (tss_set_stack cpu stk g) i) = (if i = cpu then stk else tss_esp0 (tss g i))"
  "gdt (tss_set_stack cpu stk g) = gdt g" "gdtr (tss_set_stack cpu stk g) = gdtr g"
  by (simp_all add: tss_set_stack_def)

section \<open>What the processor reads\<close>

definition segment_base :: "gdt_entry \<Rightarrow> uint32" where
  "segment_base e = ucast (gdt_base_low e) OR push_bit 16 (ucast (gdt_base_middle e)) OR push_bit 24 (ucast (gdt_base_high e))"

definition segment_limit :: "gdt_entry \<Rightarrow> uint32" where
  "segment_limit e = ucast (gdt_size_low e) OR push_bit 16 (ucast (granularity e AND 0x0F))"

definition segment_flags :: "gdt_entry \<Rightarrow> uint8" where
  "segment_flags e = granularity e AND 0xF0"

definition segment_dpl :: "gdt_entry \<Rightarrow> uint8" where
  "segment_dpl e = drop_bit 5 (gdt_access e) AND 3"

definition segment_present :: "gdt_entry \<Rightarrow> bool" where
  "segment_present e \<longleftrightarrow> bit (gdt_access e) 7"

text \<open>A code or data segment has bit 4 of the access byte set, and a code segment also bit 3.\<close>

definition code_segment :: "gdt_entry \<Rightarrow> bool" where
  "code_segment e \<longleftrightarrow> bit (gdt_access e) 4 \<and> bit (gdt_access e) 3"

definition data_segment :: "gdt_entry \<Rightarrow> bool" where
  "data_segment e \<longleftrightarrow> bit (gdt_access e) 4 \<and> \<not> bit (gdt_access e) 3 \<and> bit (gdt_access e) 1"

text \<open>A segment that covers the whole address space, in units of pages, with 32-bit operands.\<close>

definition flat :: "gdt_entry \<Rightarrow> bool" where
  "flat e \<longleftrightarrow> segment_base e = 0 \<and> segment_limit e = 0xFFFFF \<and> segment_flags e = 0xC0 \<and> segment_present e"

lemma segment_base_descriptor: "segment_base (gdt_descriptor base limit acc gran) = base"
proof -
  have m: "(0xFFFF :: uint32) = mask 16" "(0xFF :: uint32) = mask 8" by (simp_all add: mask_eq_exp_minus_1)
  show ?thesis unfolding segment_base_def
  proof (rule bit_word_eqI)
    fix n
    show "n < LENGTH(32) \<Longrightarrow> bit (ucast (gdt_base_low (gdt_descriptor base limit acc gran)) OR
        push_bit 16 (ucast (gdt_base_middle (gdt_descriptor base limit acc gran))) OR
        push_bit 24 (ucast (gdt_base_high (gdt_descriptor base limit acc gran))) :: uint32) n = bit base n"
      unfolding gdt_descriptor_def m by (cases "n < 24") (auto simp: bit_simps not_less)
  qed
qed

lemma segment_limit_descriptor: "segment_limit (gdt_descriptor base limit acc gran) = limit AND 0xFFFFF"
proof -
  have m: "(0xFFFF :: uint32) = mask 16" "(0x0F :: uint32) = mask 4" "(0xFFFFF :: uint32) = mask 20" "(0x0F :: uint8) = mask 4"
      "(0xF0 :: uint8) = push_bit 4 (mask 4)"
    by (simp_all add: mask_eq_exp_minus_1 push_bit_eq_mult)
  show ?thesis unfolding segment_limit_def gdt_descriptor_def m
    by (rule bit_word_eqI) (auto simp: bit_simps)
qed

lemma segment_flags_descriptor: "segment_flags (gdt_descriptor base limit acc gran) = gran AND 0xF0"
proof -
  have m: "(0x0F :: uint32) = mask 4" "(0xF0 :: uint8) = push_bit 4 (mask 4)"
    by (simp_all add: mask_eq_exp_minus_1 push_bit_eq_mult)
  show ?thesis unfolding segment_flags_def gdt_descriptor_def m
    by (rule bit_word_eqI) (auto simp: bit_simps)
qed

lemma gdt_access_descriptor: "gdt_access (gdt_descriptor base limit acc gran) = acc"
  by (simp add: gdt_descriptor_def)

lemmas descriptor_simps = segment_base_descriptor segment_limit_descriptor segment_flags_descriptor

section \<open>The table after its initialisation\<close>

definition tss_ready :: tss_entry where
  "tss_ready = zero_tss\<lparr>tss_ss0 := 0x10, tss_esp0 := 0xDEADC0DE, tss_cs := 0x0b,
     tss_ss := 0x13, tss_ds := 0x13, tss_es := 0x13, tss_fs := 0x13, tss_gs := 0x13\<rparr>"

text \<open>The entries that \<open>gdt_init\<close> leaves: four flat segments and one descriptor for each task state.\<close>

definition gdt_layout :: "uint32 \<Rightarrow> nat \<Rightarrow> gdt_entry" where
  "gdt_layout addr_tss n =
     (if n = 0 then gdt_descriptor 0 0 0 0
      else if n < 5 then gdt_descriptor 0 0xFFFFFFFF ([0, 0x9A, 0x92, 0xFA, 0xF2] ! n) 0xCF
      else gdt_descriptor (addr_tss + 104 * of_nat (n - 5)) (addr_tss + 104 * (of_nat (n - 5) + 1)) 0xE9 0)"

lemma tss_loop_eq:
  assumes "n \<le> MAX_CPU" "\<And>i. MAX_CPU - n \<le> i \<Longrightarrow> i < MAX_CPU \<Longrightarrow> tss g i = zero_tss"
  shows "tss_loop n addr_tss g = Inr (g\<lparr>gdt := (\<lambda>i. if 13 - n \<le> i \<and> i < 13 then gdt_layout addr_tss i else gdt g i),
    tss := (\<lambda>i. if 8 - n \<le> i \<and> i < 8 then tss_ready else tss g i)\<rparr>)"
  using assms
proof (induction n arbitrary: g)
  case (Suc n)
  let ?i = "7 - n"
  define g' where "g' = g\<lparr>gdt := (gdt g)(5 + ?i := gdt_layout addr_tss (5 + ?i)), tss := (tss g)(?i := tss_ready)\<rparr>"
  have "tss_init addr_tss ?i g = Inr g'"
    using Suc.prems by (auto simp: tss_init_def gdt_set_def g'_def gdt_layout_def tss_ready_def)
  moreover have "tss_loop n addr_tss g' = Inr (g'\<lparr>gdt := (\<lambda>i. if 13 - n \<le> i \<and> i < 13 then gdt_layout addr_tss i else gdt g' i),
      tss := (\<lambda>i. if 8 - n \<le> i \<and> i < 8 then tss_ready else tss g' i)\<rparr>)"
    using Suc.prems by (intro Suc.IH) (auto simp: g'_def)
  moreover have "g'\<lparr>gdt := (\<lambda>i. if 13 - n \<le> i \<and> i < 13 then gdt_layout addr_tss i else gdt g' i),
      tss := (\<lambda>i. if 8 - n \<le> i \<and> i < 8 then tss_ready else tss g' i)\<rparr> =
    g\<lparr>gdt := (\<lambda>i. if 13 - Suc n \<le> i \<and> i < 13 then gdt_layout addr_tss i else gdt g i),
      tss := (\<lambda>i. if 8 - Suc n \<le> i \<and> i < 8 then tss_ready else tss g i)\<rparr>"
    using Suc.prems(1) by (intro segments.equality) (auto simp: g'_def fun_eq_iff)
  ultimately show ?case by simp
qed (auto intro!: segments.equality simp: fun_eq_iff)

lemma gdt_init_eq: "gdt_init addr_gdt addr_tss g =
    Inr \<lparr>gdt = (\<lambda>i. if i < GDT_ENTRIES then gdt_layout addr_tss i else gdt g i),
      gdtr = \<lparr>gdtr_size = 104, gdtr_base = VIRT_TO_PHYS addr_gdt\<rparr>,
      tss = (\<lambda>i. if i < MAX_CPU then tss_ready else tss g i)\<rparr>"
proof -
  have "gdt_layout addr_tss i = (if i = 0 then gdt_descriptor 0 0 0 0 else if i = 1 then gdt_descriptor 0 0xFFFFFFFF 0x9A 0xCF
      else if i = 2 then gdt_descriptor 0 0xFFFFFFFF 0x92 0xCF else if i = 3 then gdt_descriptor 0 0xFFFFFFFF 0xFA 0xCF
      else gdt_descriptor 0 0xFFFFFFFF 0xF2 0xCF)" if "i < 5" for i
    using that by (auto simp: gdt_layout_def less_Suc_eq numeral_eq_Suc)
  then show ?thesis
    by (cases g) (auto simp: gdt_init_def gdt_set_def Let_def tss_loop_eq fun_eq_iff)
qed

lemma gdt_layout_flat: "n \<in> {1, 2, 3, 4} \<Longrightarrow> flat (gdt_layout addr_tss n)"
  by (auto simp: flat_def gdt_layout_def descriptor_simps segment_present_def gdt_access_descriptor bit_numeral_simps)

text \<open>The segment a selector names, in the table that \<open>gdt_init\<close> leaves, and the privilege the selector asks for.\<close>

definition selected :: "uint32 \<Rightarrow> segments \<Rightarrow> gdt_entry" where
  "selected sel g = gdt g (unat (drop_bit 3 sel))"

definition selector_rpl :: "uint32 \<Rightarrow> uint32" where
  "selector_rpl sel = sel AND 3"

text \<open>A selector for a flat segment of the same privilege, with code or with writable data.\<close>

definition code_selector :: "uint32 \<Rightarrow> segments \<Rightarrow> bool" where
  "code_selector sel g \<longleftrightarrow> flat (selected sel g) \<and> code_segment (selected sel g) \<and> ucast (segment_dpl (selected sel g)) = selector_rpl sel"

definition data_selector :: "uint32 \<Rightarrow> segments \<Rightarrow> bool" where
  "data_selector sel g \<longleftrightarrow> flat (selected sel g) \<and> data_segment (selected sel g) \<and> ucast (segment_dpl (selected sel g)) = selector_rpl sel"

lemma layout_selectors:
  assumes "\<forall>n<5. gdt g n = gdt_layout addr_tss n"
  shows "code_selector 0x08 g" "code_selector 0x1b g" "data_selector 0x10 g" "data_selector 0x23 g"
  using assms gdt_layout_flat [of 1] gdt_layout_flat [of 2] gdt_layout_flat [of 3] gdt_layout_flat [of 4]
  by (simp_all add: code_selector_def data_selector_def selected_def selector_rpl_def segment_dpl_def code_segment_def data_segment_def
      drop_bit_eq_div gdt_layout_def gdt_access_descriptor bit_numeral_simps)

end
