(* ===== verification/Idt.thy ===== *)
theory Idt
  imports Prelude
begin

text \<open>
  The interrupt descriptor table of \<^verbatim>\<open>kernel/interrupts.c\<close>, filled by \<open>isr_init\<close> of \<^verbatim>\<open>kernel/isr_impl.c\<close> from the list
  \<^verbatim>\<open>kernel/isr_list.h\<close>. The addresses of the assembly stubs are the parameter \<open>isr\<close>, \<open>addr_idt\<close> is the address
  of the table.
\<close>

section \<open>The interrupt descriptor table\<close>

record idt_entry =
  idt_base_low :: uint16
  idt_selector :: uint16
  idt_zero :: uint8
  idt_flags :: uint8
  idt_base_high :: uint16

type_synonym idt_table = "nat \<Rightarrow> idt_entry"

definition idt_set :: "nat \<Rightarrow> uint32 \<Rightarrow> uint8 \<Rightarrow> idt_table \<Rightarrow> idt_table res" where
  "idt_set n base flags t =
     (if n < 256
      then Inr (t(n := \<lparr>idt_base_low = ucast (base AND 0xFFFF), idt_selector = 8, idt_zero = 0, idt_flags = flags OR 0x60,
        idt_base_high = ucast (drop_bit 16 base AND 0xFFFF)\<rparr>))
      else Inl OutOfBounds)"

text \<open>\<^verbatim>\<open>isr_list.h\<close> lists the vectors 0 to 240, each with a stub of its own and none to be ignored.\<close>

definition isr_list :: "nat list" where
  "isr_list = [0..<241]"

fun isr_install :: "nat list \<Rightarrow> (nat \<Rightarrow> uint32) \<Rightarrow> idt_table \<Rightarrow> idt_table res" where
  "isr_install [] isr t = Inr t"
| "isr_install (n # ns) isr t = bindE (idt_set n (isr n) 0x8E t) (isr_install ns isr)"

definition isr_init :: "(nat \<Rightarrow> uint32) \<Rightarrow> idt_table \<Rightarrow> idt_table res" where
  "isr_init isr t = isr_install isr_list isr t"

text \<open>What the processor reads from an entry: the address of the gate, its privilege and its presence bit.\<close>

definition gate_target :: "idt_entry \<Rightarrow> uint32" where
  "gate_target e = push_bit 16 (ucast (idt_base_high e)) OR ucast (idt_base_low e)"

definition gate_present :: "idt_entry \<Rightarrow> bool" where
  "gate_present e \<longleftrightarrow> bit (idt_flags e) 7"

definition gate_dpl :: "idt_entry \<Rightarrow> uint8" where
  "gate_dpl e = drop_bit 5 (idt_flags e) AND 3"

lemma word_halves: "push_bit 16 (ucast (ucast (drop_bit 16 w AND 0xFFFF :: uint32) :: uint16)) OR ucast (ucast (w AND 0xFFFF) :: uint16) = (w :: uint32)"
proof -
  have m: "(0xFFFF :: uint32) = mask 16" by (simp add: mask_eq_exp_minus_1)
  show ?thesis unfolding m by (rule bit_word_eqI) (auto simp: bit_simps)
qed

definition gate_to :: "uint32 \<Rightarrow> idt_entry \<Rightarrow> bool" where
  "gate_to a e \<longleftrightarrow> gate_target e = a \<and> gate_present e \<and> gate_dpl e = 3 \<and> idt_selector e = 8"

lemma isr_install_ok:
  "\<forall>n\<in>set ns. n < 256 \<Longrightarrow> \<exists>t'. isr_install ns isr t = Inr t' \<and>
    (\<forall>n. t' n = t n \<and> n \<notin> set ns \<or> gate_to (isr n) (t' n) \<and> n \<in> set ns)"
proof (induction ns arbitrary: t)
  case (Cons n ns)
  define t1 where "t1 = t(n := \<lparr>idt_base_low = ucast (isr n AND 0xFFFF), idt_selector = 8, idt_zero = 0, idt_flags = 0x8E OR 0x60,
      idt_base_high = ucast (drop_bit 16 (isr n) AND 0xFFFF)\<rparr>)"
  have "idt_set n (isr n) 0x8E t = Inr t1" using Cons.prems by (simp add: idt_set_def t1_def)
  moreover obtain t' where t': "isr_install ns isr t1 = Inr t'"
      "\<forall>m. t' m = t1 m \<and> m \<notin> set ns \<or> gate_to (isr m) (t' m) \<and> m \<in> set ns"
    using Cons.IH [of t1] Cons.prems by auto
  moreover have "gate_to (isr n) (t1 n)"
    by (simp add: gate_to_def t1_def gate_target_def word_halves gate_present_def gate_dpl_def bit_numeral_simps)
  then have "t' m = t m \<and> m \<notin> set (n # ns) \<or> gate_to (isr m) (t' m) \<and> m \<in> set (n # ns)" for m
    using t'(2) [rule_format, of m] by (cases "m = n") (auto simp: t1_def)
  ultimately show ?case by (intro exI [of _ t']) auto
qed simp

record idt_register =
  iptr_size :: uint16
  iptr_base :: uint32

text \<open>\<open>idt_init\<close> fills the table and points the register at it.\<close>

definition idt_init :: "(nat \<Rightarrow> uint32) \<Rightarrow> uint32 \<Rightarrow> idt_table \<Rightarrow> (idt_register \<times> idt_table) res" where
  "idt_init isr addr_idt t =
     bindE (isr_init isr t) (\<lambda>t. Inr (\<lparr>iptr_size = 256 * 8 - 1, iptr_base = VIRT_TO_PHYS addr_idt\<rparr>, t))"

end
