(* ===== verification/Apic.thy ===== *)
theory Apic
  imports Prelude
begin

text \<open>
  The devices of the interrupt system, as \<^verbatim>\<open>kernel/interrupts.c\<close> drives them. The I/O APIC and the local APIC are
  memory-mapped register files. A port is reached with the instructions of \<^verbatim>\<open>kernel/ports.h\<close>: the model keeps
  the history of the accesses, and what a device answers is the parameter \<open>dev\<close>, a function of
  the accesses before and the port.
\<close>

section \<open>The I/O APIC and the local APIC\<close>

type_synonym registers = "uint32 \<Rightarrow> uint32"

abbreviation (input) IOAPIC_DISABLE :: uint32 where "IOAPIC_DISABLE \<equiv> 0x10000"
abbreviation (input) IOAPIC_REDIR_BASE :: uint32 where "IOAPIC_REDIR_BASE \<equiv> 0x10"

text \<open>\<open>ioapic_set\<close> selects a register and writes it.\<close>

definition ioapic_set :: "uint32 \<Rightarrow> uint32 \<Rightarrow> registers \<Rightarrow> registers" where
  "ioapic_set reg v r = r(reg := v)"

definition ioapic_map :: "uint32 \<Rightarrow> uint32 \<Rightarrow> registers \<Rightarrow> registers" where
  "ioapic_map irq vector r =
     (let reg_low = IOAPIC_REDIR_BASE + irq * 2;
          reg_high = reg_low + 1
      in ioapic_set reg_low vector (ioapic_set reg_high 0 (ioapic_set reg_low IOAPIC_DISABLE r)))"

definition ioapic_init :: "registers \<Rightarrow> registers" where
  "ioapic_init r =
     (let r = ioapic_map 0 219 r; r = ioapic_map 1 218 r; r = ioapic_map 3 216 r; r = ioapic_map 4 215 r;
          r = ioapic_map 5 214 r; r = ioapic_map 6 213 r; r = ioapic_map 7 212 r; r = ioapic_map 8 211 r;
          r = ioapic_map 9 210 r; r = ioapic_map 10 209 r; r = ioapic_map 11 208 r; r = ioapic_map 12 207 r;
          r = ioapic_map 13 206 r; r = ioapic_map 14 205 r
      in ioapic_map 15 204 r)"

definition lapic_set :: "uint32 \<Rightarrow> uint32 \<Rightarrow> registers \<Rightarrow> registers" where
  "lapic_set reg v r = r(LAPIC_BASE + reg := v)"

definition lapic_get :: "uint32 \<Rightarrow> registers \<Rightarrow> uint32" where
  "lapic_get reg r = r (LAPIC_BASE + reg)"

definition lapic_init :: "registers \<Rightarrow> registers" where
  "lapic_init r =
     (let r = lapic_set 0x80 0x00000 r; r = lapic_set 0x320 0x10000 r; r = lapic_set 0x340 0x10000 r;
          r = lapic_set 0x350 0x08700 r; r = lapic_set 0x360 0x00400 r; r = lapic_set 0x280 0x00370 r
      in lapic_set 0xF0 0x0010F r)"

text \<open>\<open>cpuid\<close> of \<^verbatim>\<open>kernel/cpu.c\<close>: \<open>lapic_get\<close> returns an \<^verbatim>\<open>int\<close>, so the shift is arithmetic.\<close>

definition cpuid :: "registers \<Rightarrow> uint32" where
  "cpuid r = signed_drop_bit 24 (lapic_get 0x20 r)"

lemma ioapic_map_eq:
  "ioapic_map irq v r = r(0x10 + irq * 2 := v, 0x11 + irq * 2 := 0)"
  by (auto simp: ioapic_map_def ioapic_set_def Let_def fun_eq_iff)

text \<open>Request \<open>n\<close> of a device is routed to vector \<open>219 - n\<close> of CPU 0, except request 2.\<close>

lemma ioapic_init_routes:
  assumes "n < 16" "n \<noteq> 2"
  shows "ioapic_init r (0x10 + of_nat n * 2) = 219 - of_nat n" "ioapic_init r (0x11 + of_nat n * 2) = 0"
proof -
  have "n \<in> {0, 1, 3, 4, 5, 6, 7, 8, 9, 10, 11, 12, 13, 14, 15}" using assms unfolding insert_iff empty_iff by presburger
  then show "ioapic_init r (0x10 + of_nat n * 2) = 219 - of_nat n" "ioapic_init r (0x11 + of_nat n * 2) = 0"
    by (elim insertE; simp add: ioapic_init_def ioapic_map_eq)+
qed

section \<open>Ports\<close>

datatype port_access = PortOut uint16 uint8 | PortIn uint16

type_synonym device = "port_access list \<Rightarrow> uint16 \<Rightarrow> uint8"

definition port_write :: "uint16 \<Rightarrow> uint8 \<Rightarrow> port_access list \<Rightarrow> port_access list" where
  "port_write port v io = io @ [PortOut port v]"

definition port_read_8 :: "device \<Rightarrow> uint16 \<Rightarrow> port_access list \<Rightarrow> uint8 \<times> port_access list" where
  "port_read_8 dev port io = (dev io port, io @ [PortIn port])"

end
