(* ===== verification/Kernel.thy ===== *)
theory Kernel
  imports Low Stream Gdt Idt Apic
begin

text \<open>
  The state of the kernel above the memory management: processes (\<^verbatim>\<open>struct process\<close> of
  \<^verbatim>\<open>kernel/process.h\<close>), threads (\<^verbatim>\<open>struct thread\<close> of \<^verbatim>\<open>kernel/thread.h\<close>), schedulers
  (\<^verbatim>\<open>struct scheduler\<close> of \<^verbatim>\<open>kernel/scheduler.c\<close>), streams, the tick counter of
  \<^verbatim>\<open>kernel/timer.c\<close> and the interrupt streams of \<^verbatim>\<open>kernel/drivers.c\<close>. Objects are records in
  stores indexed by their address, so that aliasing is visible: two names for one thread are
  one address.

  The theory also models the events a thread can wait for. In the code an event is a function
  pointer; the four functions that are ever stored there are the constructors of
  \<open>thread_event\<close>, and \<open>event_holds\<close> is the call through the pointer.

  A queue of a scheduler is the sequence of its targets. This is the view that \<open>KList\<close>
  justifies: a \<^verbatim>\<open>struct list\<close> of non-null pointers behaves as this sequence under \<open>list_push\<close>
  and \<open>list_pop\<close>.
\<close>

section \<open>State\<close>

record proc_section =
  virt_addr :: uint32
  phys_addr :: uint32
  sect_pages :: uint32

record process =
  pid :: pid_t
  text_section :: proc_section
  data_section :: proc_section
  bss_section :: proc_section
  rodata_section :: proc_section
  proc_pdir :: uint32
  proc_name :: "nat \<Rightarrow> uint8"
  iodescr :: iostream_descriptors

datatype thread_event = TimerEvent | SelectEvent | ReadEvent | WriteEvent

record thread =
  parent :: ptr
  priority :: int
  stack :: uint32
  kernel_stack :: uint32
  thread_esp :: uint32
  thread_eip :: uint32
  wait_timer :: uint64
  descr :: ptr
  event :: "thread_event option"

abbreviation (input) MAX_PRIORITY :: nat where "MAX_PRIORITY \<equiv> 5"
abbreviation (input) MAX_PROCESSES :: nat where "MAX_PROCESSES \<equiv> 65536"

record scheduler =
  prio_queues :: "nat \<Rightarrow> ptr list"
  idle_thread :: ptr
  current_thread :: ptr
  next_thread :: ptr
  waiting_threads :: "ptr list"
  load :: int
  started :: uint8

text \<open>The functions that are ever registered as interrupt handlers.\<close>

datatype int_handler = Unhandled | Ignored | Keyboard | Tick | SchedTick | Syscall | DriverNotify

text \<open>The variables of \<^verbatim>\<open>kernel/cpu.c\<close>.\<close>

record cpus =
  num_of_cpu :: int
  maximum_cpu :: uint8
  cpu_stack :: "nat \<Rightarrow> uint32"
  cpu_mapping :: "nat \<Rightarrow> uint8"

record kernel = kmem +
  ticks :: uint64
  int_handlers :: "nat \<Rightarrow> int_handler"
  streams :: "ptr \<Rightarrow> stream"
  handlers :: "nat \<Rightarrow> ptr"
  processes :: "nat \<Rightarrow> ptr"
  proc_lock :: lock_t
  procs :: "ptr \<Rightarrow> process"
  threads :: "ptr \<Rightarrow> thread"
  schedulers :: "nat \<Rightarrow> scheduler"
  segs :: segments
  idt_entries :: idt_table
  iptr :: idt_register
  lapics :: "nat \<Rightarrow> registers"
  ioapic :: registers
  apic_msr :: "nat \<Rightarrow> uint32"
  task_register :: "nat \<Rightarrow> uint32"
  io_log :: "port_access list"
  cpu_info :: cpus

abbreviation tss_stack :: "kernel \<Rightarrow> nat \<Rightarrow> uint32" where
  "tss_stack k i \<equiv> tss_esp0 (tss (segs k) i)"

section \<open>Events\<close>

text \<open>\<open>thread_timer_event\<close> of \<^verbatim>\<open>kernel/timer.c\<close>.\<close>

definition thread_timer_event :: "ptr \<Rightarrow> kernel \<Rightarrow> bool" where
  "thread_timer_event this k \<longleftrightarrow> wait_timer (threads k this) < ticks k"

text \<open>The three events of \<^verbatim>\<open>kernel/stream.c\<close>.\<close>

definition stream_select_event :: "ptr \<Rightarrow> kernel \<Rightarrow> bool" where
  "stream_select_event this k \<longleftrightarrow> iostream_select (iodescr (procs k (parent (threads k this)))) (streams k) \<noteq> - 1"

definition stream_read_event :: "ptr \<Rightarrow> kernel \<Rightarrow> bool" where
  "stream_read_event this k \<longleftrightarrow>
     (let d = descr (threads k this) in if d = 0 then False else 0 < stream_read_length (streams k d))"

definition stream_write_event :: "ptr \<Rightarrow> kernel \<Rightarrow> bool" where
  "stream_write_event this k \<longleftrightarrow>
     (let d = descr (threads k this) in if d = 0 then False else 0 < stream_write_length (streams k d))"

fun event_holds :: "thread_event \<Rightarrow> ptr \<Rightarrow> kernel \<Rightarrow> bool" where
  "event_holds TimerEvent th k = thread_timer_event th k"
| "event_holds SelectEvent th k = stream_select_event th k"
| "event_holds ReadEvent th k = stream_read_event th k"
| "event_holds WriteEvent th k = stream_write_event th k"

definition set_thread :: "ptr \<Rightarrow> (thread \<Rightarrow> thread) \<Rightarrow> kernel \<Rightarrow> kernel" where
  "set_thread th f k = k\<lparr>threads := (threads k)(th := f (threads k th))\<rparr>"

definition set_sched :: "nat \<Rightarrow> (scheduler \<Rightarrow> scheduler) \<Rightarrow> kernel \<Rightarrow> kernel" where
  "set_sched i f k = k\<lparr>schedulers := (schedulers k)(i := f (schedulers k i))\<rparr>"

definition set_proc :: "ptr \<Rightarrow> (process \<Rightarrow> process) \<Rightarrow> kernel \<Rightarrow> kernel" where
  "set_proc p f k = k\<lparr>procs := (procs k)(p := f (procs k p))\<rparr>"

lemma set_sched_simps [simp]:
  "threads (set_sched i f k) = threads k" "procs (set_sched i f k) = procs k" "streams (set_sched i f k) = streams k"
  "ticks (set_sched i f k) = ticks k" "schedulers (set_sched i f k) i = f (schedulers k i)"
  "j \<noteq> i \<Longrightarrow> schedulers (set_sched i f k) j = schedulers k j"
  by (simp_all add: set_sched_def)

lemma event_holds_set_sched [simp]: "event_holds e th (set_sched i f k) = event_holds e th k"
  by (cases e) (simp_all add: thread_timer_event_def stream_select_event_def stream_read_event_def stream_write_event_def)

text \<open>Allocation in the kernel heap leaves the state above it alone.\<close>

lemma kernel_more:
  assumes "kmem.more k' = kmem.more k"
  shows "ticks k' = ticks k" "int_handlers k' = int_handlers k" "streams k' = streams k" "handlers k' = handlers k"
    "processes k' = processes k" "proc_lock k' = proc_lock k" "procs k' = procs k" "threads k' = threads k"
    "schedulers k' = schedulers k" "segs k' = segs k" "lapics k' = lapics k" "io_log k' = io_log k" "cpu_info k' = cpu_info k"
    "idt_entries k' = idt_entries k" "iptr k' = iptr k" "ioapic k' = ioapic k" "apic_msr k' = apic_msr k" "task_register k' = task_register k"
  using assms by (cases k; cases k'; simp)+

lemma kernel_more_upd:
  assumes "kmem.more k' = kmem.more k"
  shows "kmem.more (k'\<lparr>threads := t\<rparr>) = kmem.more (k\<lparr>threads := t\<rparr>)" "kmem.more (k'\<lparr>schedulers := s\<rparr>) = kmem.more (k\<lparr>schedulers := s\<rparr>)"
  using assms by (cases k; cases k'; simp)+

lemma kmem_more_phys [simp]:
  "kmem.more (k\<lparr>phys_mem := m\<rparr>) = kmem.more k" "kmem.more (k\<lparr>phys_mem := m, threads := t\<rparr>) = kmem.more (k\<lparr>threads := t\<rparr>)"
  by (cases k, simp)+

end
