(* ===== verification/Scheduler.thy ===== *)
theory Scheduler
  imports Kernel "HOL-Library.Multiset"
begin

text \<open>
  The scheduler of one CPU and the choice among the CPUs, \<^verbatim>\<open>kernel/scheduler.c\<close>. The state of
  CPU \<open>i\<close> is \<open>schedulers k i\<close>; \<open>cpu\<close> stands for the result of \<open>cpuid()\<close>. The switch of the
  stack and of the instruction pointer at the end of \<open>scheduler_switch\<close> is assembly and not
  modelled; its effect on the page directory, on the kernel stack of the TSS and on the
  scheduler is. Code under \<^verbatim>\<open>#ifdef CONF_PREEMPTIBLE\<close> is included, as \<^verbatim>\<open>config.h\<close> defines it.

  The loop of \<open>sched_tick\<close> runs until it finds a thread that can run, so it carries fuel:
  \<open>tick_loop_picks\<close> shows how much is enough, and \<open>tick_loop_blocked\<close> that without a thread
  that can run in the first non-empty queue no fuel is enough: the loop waits for an interrupt
  to make an event hold.
\<close>

section \<open>Operations\<close>

definition push_queue :: "nat \<Rightarrow> int \<Rightarrow> ptr \<Rightarrow> kernel \<Rightarrow> kernel res" where
  "push_queue i p th k =
     (if 0 \<le> p \<and> p < int MAX_PRIORITY
      then Inr (set_sched i (\<lambda>s. s\<lparr>prio_queues := (prio_queues s)(nat p := prio_queues s (nat p) @ [th])\<rparr>) k)
      else Inl OutOfBounds)"

definition scheduler_put_back :: "nat \<Rightarrow> ptr \<Rightarrow> kernel \<Rightarrow> kernel res" where
  "scheduler_put_back i th k =
     (if th = 0 then Inr k
      else if th = idle_thread (schedulers k i) then Inr k
      else push_queue i (priority (threads k th)) th k)"

function pick_from :: "nat \<Rightarrow> (nat \<Rightarrow> ptr list) \<Rightarrow> ptr \<times> (nat \<Rightarrow> ptr list)" where
  "pick_from p q =
     (if p < MAX_PRIORITY
      then case q p of [] \<Rightarrow> pick_from (Suc p) q | t # ts \<Rightarrow> (t, q(p := ts))
      else (0, q))"
  by pat_completeness auto
termination by (relation "measure (\<lambda>(p, _). MAX_PRIORITY - p)") auto

declare pick_from.simps [simp del]

definition scheduler_pick :: "nat \<Rightarrow> kernel \<Rightarrow> ptr \<times> kernel" where
  "scheduler_pick i k =
     (case pick_from 0 (prio_queues (schedulers k i)) of (t, q) \<Rightarrow> (t, set_sched i (\<lambda>s. s\<lparr>prio_queues := q\<rparr>) k))"

definition sched_can_run :: "nat \<Rightarrow> kernel \<Rightarrow> bool \<times> kernel" where
  "sched_can_run i k =
     (let th = next_thread (schedulers k i) in
      case event (threads k th) of
        None \<Rightarrow> (True, k)
      | Some e \<Rightarrow> if event_holds e th k then (True, set_thread th (\<lambda>t. t\<lparr>event := None\<rparr>) k) else (False, k))"

fun wake_loop :: "nat \<Rightarrow> ptr list \<Rightarrow> kernel \<Rightarrow> kernel res" where
  "wake_loop i [] k = Inr k"
| "wake_loop i (th # ths) k = bindE (scheduler_put_back i th k) (wake_loop i ths)"

definition scheduler_wake_all :: "nat \<Rightarrow> kernel \<Rightarrow> kernel res" where
  "scheduler_wake_all i k =
     (let ths = waiting_threads (schedulers k i)
      in wake_loop i ths (set_sched i (\<lambda>s. s\<lparr>waiting_threads := []\<rparr>) k))"

definition scheduler_switch :: "nat \<Rightarrow> kernel \<Rightarrow> kernel" where
  "scheduler_switch i k =
     (let from_thread = current_thread (schedulers k i);
          to_thread = next_thread (schedulers k i) in
      if to_thread = 0 then k
      else if from_thread = to_thread then k
      else
        let from_dir = proc_pdir (procs k (parent (threads k from_thread)));
            to_dir = proc_pdir (procs k (parent (threads k to_thread)));
            k = (if from_dir \<noteq> to_dir then page_dir_switch to_dir k else k);
            k = k\<lparr>segs := tss_set_stack i (kernel_stack (threads k to_thread)) (segs k)\<rparr>
        in set_sched i (\<lambda>s. s\<lparr>current_thread := to_thread, next_thread := 0\<rparr>) k)"

fun tick_loop :: "nat \<Rightarrow> nat \<Rightarrow> kernel \<Rightarrow> kernel res" where
  "tick_loop 0 i k = Inl Diverges"
| "tick_loop (Suc fuel) i k =
     (case scheduler_pick i k of (t, k) \<Rightarrow>
      let k = set_sched i (\<lambda>s. s\<lparr>next_thread := t\<rparr>) k;
          k = (if next_thread (schedulers k i) = 0
               then set_sched i (\<lambda>s. s\<lparr>next_thread := idle_thread s\<rparr>) k else k) in
      case sched_can_run i k of (ok, k) \<Rightarrow>
      if ok then Inr k
      else bindE (scheduler_put_back i (next_thread (schedulers k i)) k) (tick_loop fuel i))"

definition sched_tick :: "nat \<Rightarrow> nat \<Rightarrow> kernel \<Rightarrow> kernel res" where
  "sched_tick fuel cpu k =
     bindE (scheduler_put_back cpu (current_thread (schedulers k cpu)) k) (\<lambda>k.
     bindE (scheduler_wake_all cpu k) (\<lambda>k.
     bindE (tick_loop fuel cpu k) (\<lambda>k.
     Inr (scheduler_switch cpu k))))"

text \<open>The loop of \<open>scheduler_find\<close>: \<open>sched\<close> is the index of the best scheduler so far.\<close>

function find_from :: "nat \<Rightarrow> nat \<Rightarrow> int \<Rightarrow> kernel \<Rightarrow> nat" where
  "find_from i sched lowest k =
     (if i < MAX_CPU
      then if started (schedulers k i) = 0 then find_from (Suc i) sched lowest k
        else if load (schedulers k i) < lowest then find_from (Suc i) i (load (schedulers k i)) k
        else find_from (Suc i) sched lowest k
      else sched)"
  by pat_completeness auto
termination by (relation "measure (\<lambda>(i, _). MAX_CPU - i)") auto

declare find_from.simps [simp del]

definition scheduler_find :: "kernel \<Rightarrow> nat" where
  "scheduler_find k = find_from 1 0 (load (schedulers k 0)) k"

definition sched_thread_ready :: "ptr \<Rightarrow> kernel \<Rightarrow> kernel res" where
  "sched_thread_ready th k =
     (let i = scheduler_find k in
      bindE (push_queue i (priority (threads k th)) th k) (\<lambda>k.
      Inr (set_sched i (\<lambda>s. s\<lparr>load := load s + 1\<rparr>) k)))"

definition sched_cur_thread :: "nat \<Rightarrow> kernel \<Rightarrow> ptr" where
  "sched_cur_thread cpu k = current_thread (schedulers k cpu)"

definition sched_cur_proc :: "nat \<Rightarrow> kernel \<Rightarrow> ptr" where
  "sched_cur_proc cpu k = parent (threads k (sched_cur_thread cpu k))"

definition sched_ready :: "nat \<Rightarrow> kernel \<Rightarrow> kernel" where
  "sched_ready cpu k = set_sched cpu (\<lambda>s. s\<lparr>started := 1\<rparr>) k"

definition sched_start_timer :: "nat \<Rightarrow> kernel \<Rightarrow> kernel" where
  "sched_start_timer cpu k =
     (let r = lapics k cpu;
          r = lapic_set 0x320 0x00020080 r;
          r = lapic_set 0x3E0 0xB r;
          r = lapic_set 0x380 0x00100000 r
      in k\<lparr>lapics := (lapics k)(cpu := r)\<rparr>)"

text \<open>\<open>sched_yield\<close> raises the task priority to the vector of the scheduler's interrupt, 128.\<close>

definition sched_yield :: "nat \<Rightarrow> nat \<Rightarrow> kernel \<Rightarrow> kernel res" where
  "sched_yield fuel cpu k =
     sched_tick fuel cpu (k\<lparr>lapics := (lapics k)(cpu := lapic_set 0x80 128 (lapics k cpu))\<rparr>)"

text \<open>
  \<open>sched_thread_wait\<close> sets the event and gives the CPU away until the event holds. Its model
  is the part before the first \<open>sched_yield\<close>: the thread goes on, or it waits, and then it is
  the loop of \<open>sched_tick\<close> that clears the event and lets the thread return.
\<close>

definition sched_thread_wait :: "ptr \<Rightarrow> thread_event \<Rightarrow> kernel \<Rightarrow> bool \<times> kernel" where
  "sched_thread_wait th e k =
     (let k = set_thread th (\<lambda>t. t\<lparr>event := Some e\<rparr>) k
      in if event_holds e th k then (True, set_thread th (\<lambda>t. t\<lparr>event := None\<rparr>) k) else (False, k))"

definition sched_thread_sleep :: "nat \<Rightarrow> uint64 \<Rightarrow> kernel \<Rightarrow> bool \<times> kernel" where
  "sched_thread_sleep cpu n k =
     (let cur = sched_cur_thread cpu k;
          k = set_thread cur (\<lambda>t. t\<lparr>wait_timer := ticks k + n\<rparr>) k
      in sched_thread_wait cur TimerEvent k)"

section \<open>Picking a thread\<close>

lemma pick_from_empty: "\<forall>p<MAX_PRIORITY. q p = [] \<Longrightarrow> pick_from i q = (0, q)"
proof (induction i q rule: pick_from.induct)
  case (1 p q)
  then show ?case by (cases "p < MAX_PRIORITY") (simp_all add: pick_from.simps [of p])
qed

lemma pick_from_first:
  "i \<le> p \<Longrightarrow> p < MAX_PRIORITY \<Longrightarrow> \<forall>j. i \<le> j \<longrightarrow> j < p \<longrightarrow> q j = [] \<Longrightarrow> q p = t # ts \<Longrightarrow>
   pick_from i q = (t, q(p := ts))"
proof (induction i q rule: pick_from.induct)
  case (1 i q)
  show ?case
  proof (cases "i = p")
    case True
    then show ?thesis using "1.prems" by (simp add: pick_from.simps [of p] fun_upd_def)
  next
    case False
    then have "q i = []" "Suc i \<le> p" "i < MAX_PRIORITY" using 1 by auto
    then show ?thesis using "1.IH" "1.prems" by (simp add: pick_from.simps [of i])
  qed
qed

lemma pick_from_cases:
  obtains "\<forall>p<MAX_PRIORITY. q p = []" "pick_from 0 q = (0, q)"
  | p t ts where "p < MAX_PRIORITY" "\<forall>j<p. q j = []" "q p = t # ts" "pick_from 0 q = (t, q(p := ts))"
proof (cases "\<forall>p<MAX_PRIORITY. q p = []")
  case True
  then show ?thesis using that(1) pick_from_empty by blast
next
  case False
  define p where "p = (LEAST p. p < MAX_PRIORITY \<and> q p \<noteq> [])"
  have "\<exists>p. p < MAX_PRIORITY \<and> q p \<noteq> []" using False by simp
  then have p: "p < MAX_PRIORITY \<and> q p \<noteq> []" unfolding p_def by (rule LeastI_ex)
  have "q j = []" if "j < p" for j
    using not_less_Least [of j "\<lambda>p. p < MAX_PRIORITY \<and> q p \<noteq> []"] that p by (auto simp: p_def)
  moreover have "q p = hd (q p) # tl (q p)" using p by simp
  ultimately show ?thesis using that(2) [of p "hd (q p)" "tl (q p)"] pick_from_first [of 0 p q "hd (q p)" "tl (q p)"] p by simp
qed

section \<open>The loop of a tick\<close>

definition blocked :: "ptr \<Rightarrow> kernel \<Rightarrow> bool" where
  "blocked th k \<longleftrightarrow> (\<exists>e. event (threads k th) = Some e \<and> \<not> event_holds e th k)"

lemma blocked_set_sched [simp]: "blocked th (set_sched i f k) = blocked th k"
  by (simp add: blocked_def)

lemma set_sched_set_sched [simp]: "set_sched i f (set_sched i g k) = set_sched i (\<lambda>s. f (g s)) k"
  by (simp add: set_sched_def)

text \<open>The state after the pick: thread \<open>t\<close> is the next one and queue \<open>p\<close> is \<open>ts\<close>.\<close>

definition picked :: "nat \<Rightarrow> ptr \<Rightarrow> (nat \<Rightarrow> ptr list) \<Rightarrow> kernel \<Rightarrow> kernel" where
  "picked i t q k = set_sched i (\<lambda>s. s\<lparr>prio_queues := q, next_thread := t\<rparr>) k"

definition run_thread :: "ptr \<Rightarrow> kernel \<Rightarrow> kernel" where
  "run_thread t k = (if event (threads k t) = None then k else set_thread t (\<lambda>x. x\<lparr>event := None\<rparr>) k)"

lemma tick_loop_step:
  assumes q: "prio_queues (schedulers k i) p = t # ts" "p < MAX_PRIORITY" "\<forall>j<p. prio_queues (schedulers k i) j = []"
    and t: "t \<noteq> 0"
  defines "k1 \<equiv> picked i t ((prio_queues (schedulers k i))(p := ts)) k"
  shows "tick_loop (Suc fuel) i k =
    (if blocked t k then bindE (scheduler_put_back i t k1) (tick_loop fuel i) else Inr (run_thread t k1))"
proof -
  have "pick_from 0 (prio_queues (schedulers k i)) = (t, (prio_queues (schedulers k i))(p := ts))"
    using q by (intro pick_from_first) simp_all
  then show ?thesis
    using t by (auto simp: scheduler_pick_def k1_def picked_def sched_can_run_def Let_def blocked_def run_thread_def
        split: option.splits)
qed

lemma tick_loop_idle:
  assumes "\<forall>p<MAX_PRIORITY. prio_queues (schedulers k i) p = []" "\<not> blocked (idle_thread (schedulers k i)) k"
  shows "tick_loop (Suc fuel) i k =
    Inr (run_thread (idle_thread (schedulers k i)) (set_sched i (\<lambda>s. s\<lparr>next_thread := idle_thread s\<rparr>) k))"
proof -
  have "scheduler_pick i k = (0, k)"
    using pick_from_empty [OF assms(1), of 0] by (simp add: scheduler_pick_def set_sched_def)
  moreover have "set_sched i (\<lambda>s. s\<lparr>next_thread := idle_thread s\<rparr>) k =
      set_sched i (\<lambda>s. s\<lparr>next_thread := idle_thread (schedulers k i)\<rparr>) k" by (simp add: set_sched_def)
  ultimately show ?thesis using assms(2)
    by (auto simp: sched_can_run_def Let_def blocked_def run_thread_def split: option.splits)
qed

text \<open>
  A queue turns: the blocked threads in front go to its back, the first thread that can run is
  taken. One more iteration than there are blocked threads in front is enough.
\<close>

definition has_priority :: "nat \<Rightarrow> nat \<Rightarrow> ptr \<Rightarrow> kernel \<Rightarrow> bool" where
  "has_priority i p th k \<longleftrightarrow> th \<noteq> 0 \<and> th \<noteq> idle_thread (schedulers k i) \<and> priority (threads k th) = int p"

lemma put_back_eq:
  assumes "has_priority i p th k" "p < MAX_PRIORITY"
  shows "scheduler_put_back i th k =
    Inr (set_sched i (\<lambda>s. s\<lparr>prio_queues := (prio_queues s)(p := prio_queues s p @ [th])\<rparr>) k)"
  using assms by (simp add: scheduler_put_back_def push_queue_def has_priority_def)

lemma set_sched_cong: "f (schedulers k i) = g (schedulers k i) \<Longrightarrow> set_sched i f k = set_sched i g k"
  by (simp add: set_sched_def)

lemma tick_loop_turn:
  assumes q: "prio_queues (schedulers k i) p = b # ts" "p < MAX_PRIORITY" "\<forall>j<p. prio_queues (schedulers k i) j = []"
    and b: "has_priority i p b k" "blocked b k"
  shows "tick_loop (Suc fuel) i k = tick_loop fuel i (picked i b ((prio_queues (schedulers k i))(p := ts @ [b])) k)"
proof -
  let ?k = "picked i b ((prio_queues (schedulers k i))(p := ts)) k"
  have "has_priority i p b ?k" using b(1) by (simp add: has_priority_def picked_def)
  from put_back_eq [OF this q(2)] have "scheduler_put_back i b ?k = Inr (picked i b ((prio_queues (schedulers k i))(p := ts @ [b])) k)"
    by (auto simp: picked_def intro!: set_sched_cong)
  then show ?thesis using tick_loop_step [OF q, of fuel] b by (simp add: has_priority_def)
qed

lemma picked_simps [simp]:
  "prio_queues (schedulers (picked i t q k) i) = q" "threads (picked i t q k) = threads k"
  "idle_thread (schedulers (picked i t q k) i) = idle_thread (schedulers k i)" "blocked th (picked i t q k) = blocked th k"
  "has_priority i p th (picked i t q k) = has_priority i p th k" "picked i t q (picked i t' q' k) = picked i t q k"
  by (simp_all add: picked_def has_priority_def)

lemma tick_loop_picks:
  assumes "prio_queues (schedulers k i) p = bs @ t # cs" "p < MAX_PRIORITY" "\<forall>j<p. prio_queues (schedulers k i) j = []"
    and "\<forall>b\<in>set bs. has_priority i p b k \<and> blocked b k" "t \<noteq> 0" "\<not> blocked t k" "length bs < fuel"
  shows "tick_loop fuel i k = Inr (run_thread t (picked i t ((prio_queues (schedulers k i))(p := cs @ bs)) k))"
  using assms
proof (induction bs arbitrary: k cs fuel)
  case Nil
  then show ?case using tick_loop_step [of k i p t cs "fuel - 1"] by (cases fuel) (auto simp: fun_upd_def simp del: tick_loop.simps)
next
  case (Cons b bs)
  let ?k = "picked i b ((prio_queues (schedulers k i))(p := (bs @ t # cs) @ [b])) k"
  obtain n where n: "fuel = Suc n" "length bs < n" using Cons.prems(7) by (cases fuel) auto
  have "tick_loop fuel i k = tick_loop n i ?k"
    using tick_loop_turn [of k i p b "bs @ t # cs" n] Cons.prems n(1) by simp
  also have "\<dots> = Inr (run_thread t (picked i t ((prio_queues (schedulers ?k i))(p := (cs @ [b]) @ bs)) ?k))"
    using Cons.prems n(2) by (intro Cons.IH) auto
  finally show ?case by (simp only: picked_simps fun_upd_upd append.simps append_assoc)
qed

text \<open>Without a thread that can run in the first queue that is not empty the loop goes on.\<close>

lemma tick_loop_blocked:
  assumes "prio_queues (schedulers k i) p = bs" "bs \<noteq> []" "p < MAX_PRIORITY" "\<forall>j<p. prio_queues (schedulers k i) j = []"
    and "\<forall>b\<in>set bs. has_priority i p b k \<and> blocked b k"
  shows "tick_loop fuel i k = Inl Diverges"
  using assms
proof (induction fuel arbitrary: k bs)
  case (Suc n)
  then obtain b ts where b: "bs = b # ts" by (cases bs) auto
  let ?k = "picked i b ((prio_queues (schedulers k i))(p := ts @ [b])) k"
  have "tick_loop (Suc n) i k = tick_loop n i ?k" using Suc.prems b by (intro tick_loop_turn) auto
  also have "\<dots> = Inl Diverges" using Suc.prems b by (intro Suc.IH [of _ "ts @ [b]"]) auto
  finally show ?case .
qed simp

section \<open>A whole tick\<close>

text \<open>
  \<open>enqueue\<close> appends threads to the queues of their priorities, in order. A scheduler is in good
  order when every thread it queues has the priority of its queue, and every other thread it
  knows has a valid one.
\<close>

definition enqueue :: "(ptr \<Rightarrow> thread) \<Rightarrow> ptr list \<Rightarrow> (nat \<Rightarrow> ptr list) \<Rightarrow> nat \<Rightarrow> ptr list" where
  "enqueue ths ts q p = q p @ filter (\<lambda>t. priority (ths t) = int p) ts"

definition valid_thread :: "nat \<Rightarrow> ptr \<Rightarrow> kernel \<Rightarrow> bool" where
  "valid_thread i th k \<longleftrightarrow> (\<exists>p<MAX_PRIORITY. has_priority i p th k)"

definition sched_ok :: "nat \<Rightarrow> kernel \<Rightarrow> bool" where
  "sched_ok i k \<longleftrightarrow>
     (\<forall>p<MAX_PRIORITY. \<forall>t\<in>set (prio_queues (schedulers k i) p). has_priority i p t k) \<and>
     (\<forall>t\<in>set (waiting_threads (schedulers k i)). valid_thread i t k) \<and>
     (current_thread (schedulers k i) = idle_thread (schedulers k i) \<or> valid_thread i (current_thread (schedulers k i)) k) \<and>
     idle_thread (schedulers k i) \<noteq> 0 \<and> event (threads k (idle_thread (schedulers k i))) = None"

lemma has_priority_set_sched:
  "idle_thread (f (schedulers k i)) = idle_thread (schedulers k i) \<Longrightarrow> has_priority i p th (set_sched i f k) = has_priority i p th k"
  by (simp add: has_priority_def)

lemma put_back_enqueue:
  assumes "valid_thread i th k"
  shows "scheduler_put_back i th k = Inr (set_sched i (\<lambda>s. s\<lparr>prio_queues := enqueue (threads k) [th] (prio_queues s)\<rparr>) k)"
proof -
  obtain p where p: "p < MAX_PRIORITY" "has_priority i p th k" using assms by (auto simp: valid_thread_def)
  have "q(p := q p @ [th]) = enqueue (threads k) [th] q" for q
    using p(2) by (auto simp: enqueue_def has_priority_def fun_eq_iff)
  then show ?thesis using put_back_eq [OF p(2,1)] by simp
qed

lemma enqueue_append: "enqueue ths us (enqueue ths ts q) = enqueue ths (ts @ us) q"
  by (auto simp: enqueue_def fun_eq_iff)

lemma enqueue_Nil [simp]: "enqueue ths [] q = q"
  by (auto simp: enqueue_def fun_eq_iff)

lemma wake_loop_eq:
  "\<forall>t\<in>set ts. valid_thread i t k \<Longrightarrow>
   wake_loop i ts k = Inr (set_sched i (\<lambda>s. s\<lparr>prio_queues := enqueue (threads k) ts (prio_queues s)\<rparr>) k)"
proof (induction ts arbitrary: k)
  case Nil
  then show ?case by (simp add: set_sched_def)
next
  case (Cons t ts)
  let ?k = "set_sched i (\<lambda>s. s\<lparr>prio_queues := enqueue (threads k) [t] (prio_queues s)\<rparr>) k"
  have "\<forall>t\<in>set ts. valid_thread i t ?k" using Cons.prems by (simp add: valid_thread_def has_priority_set_sched)
  then show ?case
    using put_back_enqueue [of i t k] Cons.IH [of ?k] Cons.prems by (simp add: enqueue_append)
qed

text \<open>The threads that go back to the queues at the start of a tick, and the queues then.\<close>

definition returning :: "nat \<Rightarrow> kernel \<Rightarrow> ptr list" where
  "returning i k =
     (let s = schedulers k i in
      (if current_thread s = idle_thread s then [] else [current_thread s]) @ waiting_threads s)"

definition queues_after :: "nat \<Rightarrow> kernel \<Rightarrow> nat \<Rightarrow> ptr list" where
  "queues_after i k = enqueue (threads k) (returning i k) (prio_queues (schedulers k i))"

definition requeued :: "nat \<Rightarrow> kernel \<Rightarrow> kernel" where
  "requeued i k = set_sched i (\<lambda>s. s\<lparr>waiting_threads := [], prio_queues := queues_after i k\<rparr>) k"

lemma requeue_eq:
  assumes ok: "sched_ok i k"
  shows "bindE (scheduler_put_back i (current_thread (schedulers k i)) k) (\<lambda>k. scheduler_wake_all i k) = Inr (requeued i k)"
proof -
  let ?s = "schedulers k i" and ?c = "current_thread (schedulers k i)"
  let ?r = "if ?c = idle_thread ?s then [] else [?c]"
  let ?k = "set_sched i (\<lambda>s. s\<lparr>prio_queues := enqueue (threads k) ?r (prio_queues s)\<rparr>) k"
  have "scheduler_put_back i ?c k = Inr ?k"
  proof (cases "?c = idle_thread ?s")
    case True
    then show ?thesis by (simp add: scheduler_put_back_def set_sched_def)
  next
    case False
    then show ?thesis using ok put_back_enqueue [of i ?c k] by (simp add: sched_ok_def)
  qed
  moreover have "\<forall>t\<in>set (waiting_threads ?s). valid_thread i t (set_sched i (\<lambda>s. s\<lparr>prio_queues := enqueue (threads k) ?r (prio_queues s), waiting_threads := []\<rparr>) k)"
    using ok by (simp add: sched_ok_def valid_thread_def has_priority_set_sched)
  ultimately show ?thesis
    using wake_loop_eq [of "waiting_threads ?s" i "set_sched i (\<lambda>s. s\<lparr>prio_queues := enqueue (threads k) ?r (prio_queues s), waiting_threads := []\<rparr>) k"]
    by (simp add: scheduler_wake_all_def requeued_def queues_after_def returning_def enqueue_append Let_def cong: if_cong)
      (simp add: set_sched_def)
qed

lemma requeued_simps [simp]:
  "prio_queues (schedulers (requeued i k) i) = queues_after i k" "threads (requeued i k) = threads k"
  "idle_thread (schedulers (requeued i k) i) = idle_thread (schedulers k i)" "blocked th (requeued i k) = blocked th k"
  "has_priority i p th (requeued i k) = has_priority i p th k"
  "current_thread (schedulers (requeued i k) i) = current_thread (schedulers k i)"
  "waiting_threads (schedulers (requeued i k) i) = []" "procs (requeued i k) = procs k"
  "cr3 (requeued i k) = cr3 k" "segs (requeued i k) = segs k"
  by (simp_all add: requeued_def has_priority_set_sched) (simp_all add: set_sched_def)

lemma returning_valid: "sched_ok i k \<Longrightarrow> t \<in> set (returning i k) \<Longrightarrow> valid_thread i t k"
  by (auto simp: sched_ok_def returning_def Let_def split: if_splits)

lemma queues_after_priority:
  assumes "sched_ok i k" "p < MAX_PRIORITY" "t \<in> set (queues_after i k p)"
  shows "has_priority i p t k"
proof (cases "t \<in> set (prio_queues (schedulers k i) p)")
  case True
  then show ?thesis using assms(1,2) by (simp add: sched_ok_def)
next
  case False
  then have "t \<in> set (returning i k)" "priority (threads k t) = int p"
    using assms(3) by (auto simp: queues_after_def enqueue_def)
  then show ?thesis using returning_valid [OF assms(1)] by (auto simp: valid_thread_def has_priority_def)
qed

lemma sched_tick_loop: "sched_ok i k \<Longrightarrow> sched_tick fuel i k = bindE (tick_loop fuel i (requeued i k)) (\<lambda>k. Inr (scheduler_switch i k))"
  using requeue_eq [of i k] by (auto simp: sched_tick_def bindE_def split: sum.splits)

text \<open>The state after a tick that gives the CPU to \<open>t\<close> and leaves the queues \<open>q\<close>.\<close>

definition switched :: "nat \<Rightarrow> ptr \<Rightarrow> (nat \<Rightarrow> ptr list) \<Rightarrow> kernel \<Rightarrow> kernel" where
  "switched i t q k = scheduler_switch i (run_thread t (picked i t q (requeued i k)))"

lemma sched_tick_picks:
  assumes ok: "sched_ok i k" and q: "queues_after i k p = bs @ t # cs" "p < MAX_PRIORITY" "\<forall>j<p. queues_after i k j = []"
    and bs: "\<forall>b\<in>set bs. blocked b k" and t: "\<not> blocked t k" and fuel: "length bs < fuel"
  shows "sched_tick fuel i k = Inr (switched i t ((queues_after i k)(p := cs @ bs)) k)"
proof -
  have prio: "has_priority i p x k" if "x \<in> set (bs @ t # cs)" for x
    using queues_after_priority [OF ok q(2)] that q(1) by auto
  then have "t \<noteq> 0" by (auto simp: has_priority_def)
  then have "tick_loop fuel i (requeued i k) =
      Inr (run_thread t (picked i t ((prio_queues (schedulers (requeued i k) i))(p := cs @ bs)) (requeued i k)))"
    using q bs t fuel prio by (intro tick_loop_picks) auto
  then show ?thesis using sched_tick_loop [OF ok] by (simp add: switched_def)
qed

lemma sched_tick_idle:
  assumes ok: "sched_ok i k" and q: "\<forall>p<MAX_PRIORITY. queues_after i k p = []" and fuel: "0 < fuel"
  shows "sched_tick fuel i k = Inr (switched i (idle_thread (schedulers k i)) (queues_after i k) k)"
proof -
  let ?t = "idle_thread (schedulers k i)"
  obtain n where "fuel = Suc n" using fuel by (cases fuel) auto
  moreover have "\<not> blocked ?t k" using ok by (simp add: sched_ok_def blocked_def)
  moreover have "set_sched i (\<lambda>s. s\<lparr>next_thread := idle_thread s\<rparr>) (requeued i k) = picked i ?t (queues_after i k) (requeued i k)"
    using requeued_simps(1,3) [of i k] unfolding picked_def by (intro set_sched_cong) (metis (full_types) scheduler.surjective scheduler.update_convs(1))
  ultimately show ?thesis
    using tick_loop_idle [of "requeued i k" i n] q sched_tick_loop [OF ok] by (simp add: switched_def)
qed

lemma sched_tick_blocked:
  assumes ok: "sched_ok i k" and q: "queues_after i k p \<noteq> []" "p < MAX_PRIORITY" "\<forall>j<p. queues_after i k j = []"
    and bs: "\<forall>b\<in>set (queues_after i k p). blocked b k"
  shows "sched_tick fuel i k = Inl Diverges"
  using sched_tick_loop [OF ok] tick_loop_blocked [of "requeued i k" i p _ fuel] queues_after_priority [OF ok q(2)] assms by simp

section \<open>What a tick keeps\<close>

text \<open>The page directory and the kernel stack of the CPU are those of its current thread.\<close>

definition space_ok :: "nat \<Rightarrow> kernel \<Rightarrow> bool" where
  "space_ok i k \<longleftrightarrow>
     (let t = threads k (current_thread (schedulers k i))
      in cr3 k = proc_pdir (procs k (parent t)) \<and> tss_stack k i = kernel_stack t)"

lemma run_thread_simps [simp]:
  "schedulers (run_thread t k) = schedulers k" "procs (run_thread t k) = procs k"
  "cr3 (run_thread t k) = cr3 k" "segs (run_thread t k) = segs k"
  "parent (threads (run_thread t k) th) = parent (threads k th)"
  "priority (threads (run_thread t k) th) = priority (threads k th)"
  "kernel_stack (threads (run_thread t k) th) = kernel_stack (threads k th)"
  "event (threads (run_thread t k) th) = (if th = t then None else event (threads k th))"
  by (simp_all add: run_thread_def set_thread_def)

lemma switched_thread:
  assumes "t \<noteq> 0"
  shows "current_thread (schedulers (switched i t q k) i) = t" "prio_queues (schedulers (switched i t q k) i) = q"
    "waiting_threads (schedulers (switched i t q k) i) = []"
    "idle_thread (schedulers (switched i t q k) i) = idle_thread (schedulers k i)"
    "priority (threads (switched i t q k) th) = priority (threads k th)"
    "event (threads (switched i t q k) th) = (if th = t then None else event (threads k th))"
    "j \<noteq> i \<Longrightarrow> schedulers (switched i t q k) j = schedulers k j"
  using assms
  by (auto simp: switched_def scheduler_switch_def Let_def picked_def set_sched_def page_dir_switch_def requeued_def)

lemma switched_space: "t \<noteq> 0 \<Longrightarrow> space_ok i k \<Longrightarrow> space_ok i (switched i t q k)"
  by (auto simp: space_ok_def switched_def scheduler_switch_def Let_def picked_def set_sched_def page_dir_switch_def requeued_def)

lemma switched_ok:
  assumes ok: "sched_ok i k" and t: "t = idle_thread (schedulers k i) \<or> valid_thread i t k"
    and q: "\<forall>p<MAX_PRIORITY. \<forall>x\<in>set (q p). has_priority i p x k"
  shows "sched_ok i (switched i t q k)"
proof -
  have "t \<noteq> 0" using ok t by (auto simp: sched_ok_def valid_thread_def has_priority_def)
  note s = switched_thread [OF this]
  have "has_priority i p x (switched i t q k) = has_priority i p x k" for p x by (simp add: has_priority_def s)
  then show ?thesis using ok t q by (auto simp: sched_ok_def s valid_thread_def)
qed

text \<open>The threads of a scheduler, each as often as it occurs: current, waiting or queued.\<close>

definition owned :: "nat \<Rightarrow> kernel \<Rightarrow> ptr multiset" where
  "owned i k = (\<Sum>p<MAX_PRIORITY. mset (prio_queues (schedulers k i) p)) + mset (returning i k)"

lemma sum_by_priority:
  "\<forall>t\<in>set ts. \<exists>p<n. pr t = int p \<Longrightarrow> (\<Sum>p<n. mset (filter (\<lambda>t. pr t = int p) ts)) = mset ts"
proof (induction ts)
  case (Cons t ts)
  obtain p0 where p0: "p0 < n" "pr t = int p0" using Cons.prems by auto
  have "(\<Sum>p<n. mset (filter (\<lambda>t. pr t = int p) (t # ts))) =
      (\<Sum>p<n. (if p = p0 then {#t#} else {#}) + mset (filter (\<lambda>t. pr t = int p) ts))"
    using p0 by (intro sum.cong) auto
  also have "\<dots> = {#t#} + mset ts" using Cons p0 by (simp add: sum.distrib)
  finally show ?case by simp
qed simp

lemma owned_queues_after:
  assumes "sched_ok i k"
  shows "owned i k = (\<Sum>p<MAX_PRIORITY. mset (queues_after i k p))"
proof -
  have "\<forall>t\<in>set (returning i k). \<exists>p<MAX_PRIORITY. priority (threads k t) = int p"
    using returning_valid [OF assms] by (auto simp: valid_thread_def has_priority_def)
  then show ?thesis
    unfolding owned_def queues_after_def enqueue_def mset_append sum.distrib by (simp only: sum_by_priority)
qed

lemma sum_take_one:
  assumes "(p :: nat) < n" "q p = bs @ t # cs"
  shows "(\<Sum>j<n. mset (q j)) = (\<Sum>j<n. mset ((q(p := cs @ bs)) j)) + {#t#}"
proof -
  have "(\<Sum>j<n. mset (q j)) = (\<Sum>j<n. mset ((q(p := cs @ bs)) j) + (if j = p then {#t#} else {#}))"
    using assms(2) by (intro sum.cong) auto
  also have "\<dots> = (\<Sum>j<n. mset ((q(p := cs @ bs)) j)) + (\<Sum>j<n. if j = p then {#t#} else {#})"
    by (rule sum.distrib)
  also have "(\<Sum>j<n. if j = p then {#t#} else {#}) = {#t#}" using sum.delta [of "{..<n}" p "\<lambda>_. {#t#}"] assms(1) by simp
  finally show ?thesis .
qed

text \<open>With too little fuel the loop does not return, so a tick that returns is one of the two above.\<close>

lemma tick_loop_short:
  assumes "prio_queues (schedulers k i) p = bs @ cs" "p < MAX_PRIORITY" "\<forall>j<p. prio_queues (schedulers k i) j = []"
    and "\<forall>b\<in>set bs. has_priority i p b k \<and> blocked b k" "fuel \<le> length bs"
  shows "tick_loop fuel i k = Inl Diverges"
  using assms
proof (induction fuel arbitrary: k bs cs)
  case (Suc n)
  then obtain b ts where b: "bs = b # ts" by (cases bs) auto
  let ?k = "picked i b ((prio_queues (schedulers k i))(p := (ts @ cs) @ [b])) k"
  have "tick_loop (Suc n) i k = tick_loop n i ?k" using Suc.prems b by (intro tick_loop_turn) auto
  also have "\<dots> = Inl Diverges" using Suc.prems b by (intro Suc.IH [of _ ts "cs @ [b]"]) auto
  finally show ?case .
qed simp

lemma first_runnable:
  assumes "\<not> (\<forall>b\<in>set xs. blocked b k)"
  obtains bs t cs where "xs = bs @ t # cs" "\<forall>b\<in>set bs. blocked b k" "\<not> blocked t k"
  using split_list_first_prop [of xs "\<lambda>b. \<not> blocked b k"] assms by blast

lemma sched_tick_cases:
  assumes ok: "sched_ok i k" and ret: "sched_tick fuel i k = Inr k'"
  obtains "\<forall>p<MAX_PRIORITY. queues_after i k p = []"
      "k' = switched i (idle_thread (schedulers k i)) (queues_after i k) k"
  | p bs t cs where "queues_after i k p = bs @ t # cs" "p < MAX_PRIORITY" "\<forall>j<p. queues_after i k j = []"
      "\<forall>b\<in>set bs. blocked b k" "\<not> blocked t k" "k' = switched i t ((queues_after i k)(p := cs @ bs)) k"
proof (rule pick_from_cases [of "queues_after i k"])
  assume e: "\<forall>p<MAX_PRIORITY. queues_after i k p = []"
  have "0 < fuel" using ret sched_tick_loop [OF ok] by (cases fuel) auto
  then show ?thesis using that(1) e ret sched_tick_idle [OF ok e] by simp
next
  fix p t0 ts0 assume p: "p < MAX_PRIORITY" "\<forall>j<p. queues_after i k j = []" "queues_after i k p = t0 # ts0"
  then have "\<not> (\<forall>b\<in>set (queues_after i k p). blocked b k)" using sched_tick_blocked [OF ok _ p(1,2)] ret by force
  then obtain bs t cs where t: "queues_after i k p = bs @ t # cs" "\<forall>b\<in>set bs. blocked b k" "\<not> blocked t k"
    by (rule first_runnable)
  have "\<not> fuel \<le> length bs"
  proof
    have prio: "has_priority i p b k" if "b \<in> set bs" for b using queues_after_priority [OF ok p(1)] t(1) that by simp
    assume "fuel \<le> length bs"
    then have "tick_loop fuel i (requeued i k) = Inl Diverges"
      using p(1,2) t prio by (intro tick_loop_short [of _ _ p bs "t # cs"]) simp_all
    then show False using ret sched_tick_loop [OF ok] by simp
  qed
  then show ?thesis using that(2) [OF t(1) p(1,2) t(2,3)] sched_tick_picks [OF ok t(1) p(1,2) t(2,3)] ret by simp
qed

lemma sched_tick_keeps:
  assumes ok: "sched_ok i k" and ret: "sched_tick fuel i k = Inr k'"
  shows "sched_ok i k'" "owned i k' = owned i k" "space_ok i k \<Longrightarrow> space_ok i k'"
proof -
  have idle: "idle_thread (schedulers k i) \<noteq> 0" using ok by (simp add: sched_ok_def)
  have "sched_ok i k' \<and> owned i k' = owned i k \<and> (space_ok i k \<longrightarrow> space_ok i k')"
    using ok ret
  proof (cases rule: sched_tick_cases)
    case 1
    then show ?thesis
      using switched_ok [OF ok, of _ "queues_after i k"] switched_space [OF idle] switched_thread [OF idle]
      unfolding owned_queues_after [OF ok] owned_def [of i k'] by (simp add: returning_def Let_def)
  next
    case (2 p bs t cs)
    have prio: "has_priority i j x k" if "j < MAX_PRIORITY" "x \<in> set (queues_after i k j)" for j x
      using queues_after_priority [OF ok that] .
    then have t: "has_priority i p t k" using 2 by simp
    then have t0: "t \<noteq> 0" "t \<noteq> idle_thread (schedulers k i)" by (simp_all add: has_priority_def)
    have "sched_ok i k'" unfolding 2(6)
      using prio 2(1,2) t by (intro switched_ok [OF ok]) (auto simp: valid_thread_def)
    moreover have "owned i k' = owned i k"
      using sum_take_one [of p MAX_PRIORITY "queues_after i k", OF 2(2,1)] t0
      unfolding owned_queues_after [OF ok] unfolding owned_def [of i k'] unfolding 2(6) by (simp add: switched_thread returning_def Let_def)
    ultimately show ?thesis using switched_space [OF t0(1)] 2(6) by simp
  qed
  then show "sched_ok i k'" "owned i k' = owned i k" "space_ok i k \<Longrightarrow> space_ok i k'" by blast+
qed

section \<open>Choosing a CPU\<close>

text \<open>\<open>scheduler_find\<close> returns the first CPU with the least load among the boot CPU and the started ones.\<close>

definition eligible :: "nat \<Rightarrow> kernel \<Rightarrow> bool" where
  "eligible i k \<longleftrightarrow> i = 0 \<or> (i < MAX_CPU \<and> started (schedulers k i) \<noteq> 0)"

lemma find_from_least:
  "i \<le> MAX_CPU \<Longrightarrow> sched < MAX_CPU \<Longrightarrow> eligible sched k \<Longrightarrow> lowest = load (schedulers k sched) \<Longrightarrow>
   \<forall>j<i. eligible j k \<longrightarrow> lowest \<le> load (schedulers k j) \<Longrightarrow> 0 < i \<Longrightarrow>
   (let r = find_from i sched lowest k in r < MAX_CPU \<and> eligible r k \<and>
      (\<forall>j<MAX_CPU. eligible j k \<longrightarrow> load (schedulers k r) \<le> load (schedulers k j)))"
proof (induction i sched lowest k rule: find_from.induct)
  case (1 i sched lowest k)
  show ?case
  proof (cases "i < MAX_CPU")
    case False
    then have "find_from i sched lowest k = sched" by (simp add: find_from.simps)
    then show ?thesis using False "1.prems" by (auto simp: Let_def)
  next
    case i: True
    consider "started (schedulers k i) = 0" | "started (schedulers k i) \<noteq> 0" "load (schedulers k i) < lowest"
      | "started (schedulers k i) \<noteq> 0" "\<not> load (schedulers k i) < lowest" by blast
    then show ?thesis
    proof cases
      case 1
      then have "\<not> eligible i k" using "1.prems"(6) by (simp add: eligible_def)
      then show ?thesis using 1 i "1.IH"(1) [OF i 1] "1.prems" by (simp add: find_from.simps [of i] less_Suc_eq)
    next
      case 2
      then have "eligible i k" using i by (simp add: eligible_def)
      then show ?thesis using 2 i "1.IH"(2) [OF i 2] "1.prems" by (fastforce simp: find_from.simps [of i] less_Suc_eq)
    next
      case 3
      then show ?thesis using i "1.IH"(3) [OF i 3] "1.prems" by (simp add: find_from.simps [of i] less_Suc_eq)
    qed
  qed
qed

lemma scheduler_find_least:
  "scheduler_find k < MAX_CPU" "eligible (scheduler_find k) k"
  "j < MAX_CPU \<Longrightarrow> eligible j k \<Longrightarrow> load (schedulers k (scheduler_find k)) \<le> load (schedulers k j)"
  using find_from_least [of 1 0 k "load (schedulers k 0)"]
  by (auto simp: scheduler_find_def Let_def eligible_def less_Suc_eq)

end
