(* ===== verification/Process.thy ===== *)
theory Process
  imports Kernel Util
begin

text \<open>
  Processes, \<^verbatim>\<open>kernel/process.c\<close>. The table is \<open>processes\<close> of the kernel state, its entries are addresses
  of objects in \<open>procs\<close>. \<open>kpdir\<close> is \<^verbatim>\<open>KERNEL_PAGE_DIR_PHYS\<close>, the address of a table that
  \<^verbatim>\<open>entry.s\<close> defines. A \<^verbatim>\<open>struct process\<close> has 376 bytes: the name is followed by the descriptors, so the
  byte after the name is the low byte of the first input pointer.
\<close>

section \<open>Operations\<close>

abbreviation (input) PROC_MAX_NAME_LEN :: nat where "PROC_MAX_NAME_LEN \<equiv> 64"

function free_pid_from :: "nat \<Rightarrow> (nat \<Rightarrow> ptr) \<Rightarrow> nat" where
  "free_pid_from i ps = (if i < MAX_PROCESSES then if ps i = 0 then i else free_pid_from (Suc i) ps else 0)"
  by pat_completeness auto
termination by (relation "measure (\<lambda>(i, _). MAX_PROCESSES - i)") auto

declare free_pid_from.simps [simp del]

definition find_next_pid :: "kernel \<Rightarrow> (pid_t \<times> kernel) res" where
  "find_next_pid k =
     bindE (section_enter (proc_lock k)) (\<lambda>l.
     let k = k\<lparr>proc_lock := l\<rparr>;
         i = free_pid_from 0 (processes k)
     in Inr (of_nat i, k\<lparr>proc_lock := section_leave (proc_lock k)\<rparr>))"

definition zero_section :: proc_section where
  "zero_section = \<lparr>virt_addr = 0, phys_addr = 0, sect_pages = 0\<rparr>"

text \<open>The object that \<^verbatim>\<open>NEW(struct process)\<close> leaves.\<close>

definition zero_process :: process where
  "zero_process =
     \<lparr>pid = 0, text_section = zero_section, data_section = zero_section, bss_section = zero_section,
      rodata_section = zero_section, proc_pdir = 0, proc_name = (\<lambda>_. 0), iodescr = (\<lambda>_. \<lparr>io_input = 0, io_output = 0\<rparr>)\<rparr>"

definition new_process :: "kernel \<Rightarrow> (ptr \<times> kernel) res" where
  "new_process k = bindE (new_object 2 376 k) (\<lambda>(p, k). Inr (p, k\<lparr>procs := (procs k)(p := zero_process)\<rparr>))"

definition proc_create ::
  "uint32 \<Rightarrow> proc_section \<Rightarrow> proc_section \<Rightarrow> proc_section \<Rightarrow> proc_section \<Rightarrow> kernel \<Rightarrow> (ptr \<times> kernel) res" where
  "proc_create kpdir txt dat bss rodata k =
     bindE (find_next_pid k) (\<lambda>(n, k).
     bindE (page_dir_clone kpdir k) (\<lambda>(new_dir_phys, k).
     bindE (new_process k) (\<lambda>(p, k).
     let k = k\<lparr>processes := (processes k)(unat n := p)\<rparr>;
         k = set_proc p (\<lambda>x. x\<lparr>pid := n\<rparr>) k;
         k = set_proc p (\<lambda>x. x\<lparr>text_section := txt, data_section := dat, bss_section := bss, rodata_section := rodata\<rparr>) k;
         k = set_proc p (\<lambda>x. x\<lparr>proc_pdir := new_dir_phys\<rparr>) k;
         k = page_dir_switch new_dir_phys k in
     bindE (paging_map (page_align (virt_addr txt)) (phys_addr txt) (PAGE_PRESENT OR PAGE_USERMODE) k) (\<lambda>k.
     bindE (paging_map (page_align (virt_addr dat)) (phys_addr dat) (PAGE_PRESENT OR PAGE_USERMODE OR PAGE_WRITABLE) k) (\<lambda>k.
     bindE (paging_map (page_align (virt_addr bss)) (phys_addr bss) (PAGE_PRESENT OR PAGE_USERMODE OR PAGE_WRITABLE) k) (\<lambda>k.
     bindE (paging_map (page_align (virt_addr rodata)) (phys_addr rodata) (PAGE_PRESENT OR PAGE_USERMODE) k) (\<lambda>k.
     Inr (p, page_dir_switch kpdir k))))))))"

definition proc_get_by_pid :: "pid_t \<Rightarrow> kernel \<Rightarrow> ptr res" where
  "proc_get_by_pid n k = (if unat n < MAX_PROCESSES then Inr (processes k (unat n)) else Inl OutOfBounds)"

text \<open>The bytes of a name, and beyond its end those of the first descriptor.\<close>

definition name_bytes :: "process \<Rightarrow> nat \<Rightarrow> uint8" where
  "name_bytes p i = (if i < PROC_MAX_NAME_LEN then proc_name p i else get_byte (i - PROC_MAX_NAME_LEN) (io_input (iodescr p 0)))"

definition name_reader :: "process \<Rightarrow> reader" where
  "name_reader p i = (if i < PROC_MAX_NAME_LEN + 4 then Inr (name_bytes p i) else Inl OutOfBounds)"

function by_name_from :: "nat \<Rightarrow> reader \<Rightarrow> nat \<Rightarrow> kernel \<Rightarrow> ptr res" where
  "by_name_from fuel name i k =
     (if i < MAX_PROCESSES
      then if processes k i \<noteq> 0
        then bindE (kstrcmp fuel name (name_reader (procs k (processes k i)))) (\<lambda>r.
             if r = 0 then Inr (processes k i) else by_name_from fuel name (Suc i) k)
        else by_name_from fuel name (Suc i) k
      else Inr 0)"
  by pat_completeness auto
termination by (relation "measure (\<lambda>(_, _, i, _). MAX_PROCESSES - i)") auto

declare by_name_from.simps [simp del]

definition proc_get_by_name :: "nat \<Rightarrow> reader \<Rightarrow> kernel \<Rightarrow> ptr res" where
  "proc_get_by_name fuel name k = by_name_from fuel name 1 k"

text \<open>
  \<open>proc_register\<close> copies up to 65 bytes over the 64 bytes of the name; the last one lands in the
  descriptors.
\<close>

definition proc_register :: "ptr \<Rightarrow> reader \<Rightarrow> kernel \<Rightarrow> (int \<times> kernel) res" where
  "proc_register p name k =
     bindE (kstrncpy PROC_MAX_NAME_LEN name (name_bytes (procs k p))) (\<lambda>d.
     Inr (0, set_proc p (\<lambda>x. x\<lparr>proc_name := (\<lambda>i. if i < PROC_MAX_NAME_LEN then d i else proc_name x i),
        iodescr := (iodescr x)(0 := (iodescr x 0)\<lparr>io_input := set_byte 0 (d PROC_MAX_NAME_LEN) (io_input (iodescr x 0))\<rparr>)\<rparr>) k))"

definition proc_create_kernel_proc :: "uint32 \<Rightarrow> kernel \<Rightarrow> (ptr \<times> kernel) res" where
  "proc_create_kernel_proc kpdir k =
     bindE (find_next_pid k) (\<lambda>(n, k).
     bindE (new_process k) (\<lambda>(p, k).
     let k = k\<lparr>processes := (processes k)(unat n := p)\<rparr>
     in Inr (p, set_proc p (\<lambda>x. x\<lparr>pid := n, proc_pdir := kpdir\<rparr>) k)))"

section \<open>Process numbers\<close>

lemma free_pid_from_first:
  "(\<exists>j. i \<le> j \<and> j < MAX_PROCESSES \<and> ps j = 0) \<Longrightarrow> free_pid_from i ps = (LEAST j. i \<le> j \<and> j < MAX_PROCESSES \<and> ps j = 0)"
proof (induction i ps rule: free_pid_from.induct)
  case (1 i ps)
  then have i: "i < MAX_PROCESSES" by auto
  show ?case
  proof (cases "ps i = 0")
    case True
    then have "(LEAST j. i \<le> j \<and> j < MAX_PROCESSES \<and> ps j = 0) = i" using i by (intro Least_equality) auto
    then show ?thesis using True i by (simp add: free_pid_from.simps [of i])
  next
    case False
    then have "(i \<le> j \<and> j < MAX_PROCESSES \<and> ps j = 0) = (Suc i \<le> j \<and> j < MAX_PROCESSES \<and> ps j = 0)" for j
      by (metis Suc_leD Suc_leI order_le_less)
    then show ?thesis using "1.IH" [OF i False] "1.prems" False i by (simp add: free_pid_from.simps [of i])
  qed
qed

lemma free_pid_from_full: "\<forall>j. i \<le> j \<and> j < MAX_PROCESSES \<longrightarrow> ps j \<noteq> 0 \<Longrightarrow> free_pid_from i ps = 0"
proof (induction i ps rule: free_pid_from.induct)
  case (1 i ps)
  then show ?case by (cases "i < MAX_PROCESSES") (simp_all add: free_pid_from.simps [of i])
qed

definition next_pid :: "(nat \<Rightarrow> ptr) \<Rightarrow> nat" where
  "next_pid ps = (if \<exists>j<MAX_PROCESSES. ps j = 0 then LEAST j. j < MAX_PROCESSES \<and> ps j = 0 else 0)"

lemma next_pid_less: "next_pid ps < MAX_PROCESSES"
  using LeastI_ex [of "\<lambda>j. j < MAX_PROCESSES \<and> ps j = 0"] by (auto simp: next_pid_def)

lemma find_next_pid_eq:
  assumes "proc_lock k = 0"
  shows "find_next_pid k = Inr (of_nat (next_pid (processes k)), k)"
proof -
  have "free_pid_from 0 (processes k) = next_pid (processes k)"
    using free_pid_from_first [of 0 "processes k"] free_pid_from_full [of 0 "processes k"] by (auto simp: next_pid_def)
  then show ?thesis using assms by (simp add: find_next_pid_def Let_def section_enter_def section_leave_def)
qed

section \<open>The kernel's own process\<close>

lemma unat_of_next_pid: "unat (of_nat (next_pid ps) :: uint32) = next_pid ps"
  using next_pid_less [of ps] by (simp add: unat_of_nat)

lemma new_process_ok:
  assumes "kmem_ok k" "mem_lock k = 0" "can_alloc 376 k"
  shows "\<exists>p k1. new_object 2 376 k = Inr (p, k1) \<and> got_block 376 k p k1 \<and> kmem.more k1 = kmem.more k \<and>
    new_process k = Inr (p, k1\<lparr>procs := (procs k)(p := zero_process)\<rparr>)"
proof -
  obtain p k1 where p: "new_object 2 376 k = Inr (p, k1)" "got_block 376 k p k1"
    using new_object_ok [OF assms, of 2] small_level(2) [of 376] by auto
  have more: "kmem.more k1 = kmem.more k" using p(1) by (rule new_object_more)
  then show ?thesis using p kernel_more(7) [OF more] by (auto simp: new_process_def)
qed

lemma proc_create_kernel_proc_ok:
  assumes k: "kmem_ok k" "mem_lock k = 0" "can_alloc 376 k" and lock: "proc_lock k = 0"
  defines "n \<equiv> next_pid (processes k)"
  shows "\<exists>p k'. proc_create_kernel_proc kpdir k = Inr (p, k') \<and> kmem_ok k' \<and> p \<noteq> 0 \<and>
    block (level_of 376, unat p) \<inter> bytes (free_blocks (allocator k')) = {} \<and>
    processes k' = (processes k)(n := p) \<and> procs k' = (procs k)(p := zero_process\<lparr>pid := of_nat n, proc_pdir := kpdir\<rparr>)"
proof -
  obtain p k1 where p: "got_block 376 k p k1" "kmem.more k1 = kmem.more k"
      "new_process k = Inr (p, k1\<lparr>procs := (procs k)(p := zero_process)\<rparr>)"
    using new_process_ok [OF k] by blast
  let ?k = "k1\<lparr>procs := (procs k)(p := zero_process\<lparr>pid := of_nat n, proc_pdir := kpdir\<rparr>), processes := (processes k)(n := p)\<rparr>"
  have "proc_create_kernel_proc kpdir k = Inr (p, ?k)"
    using p(3) kernel_more(5) [OF p(2)] unat_of_next_pid [of "processes k"]
    by (simp add: proc_create_kernel_proc_def find_next_pid_eq [OF lock] set_proc_def n_def)
  moreover have "kmem_ok ?k = kmem_ok k1" by (rule kmem_ok_cong) simp_all
  ultimately show ?thesis using p(1) by (auto simp: got_block_def Let_def)
qed

section \<open>Names\<close>

text \<open>The name of a process, up to its final zero.\<close>

definition named :: "process \<Rightarrow> uint8 list \<Rightarrow> bool" where
  "named p xs \<longleftrightarrow> length xs < PROC_MAX_NAME_LEN \<and> cstring (name_reader p) xs"

lemma proc_register_ok:
  assumes name: "cstring f xs" and len: "length xs < PROC_MAX_NAME_LEN"
  shows "\<exists>k'. proc_register p f k = Inr (0, k') \<and> named (procs k' p) xs \<and> iodescr (procs k' p) = iodescr (procs k p) \<and>
    (\<forall>q. q \<noteq> p \<longrightarrow> procs k' q = procs k q) \<and> processes k' = processes k"
proof -
  let ?d = "\<lambda>j. if j \<le> length xs then (if j < length xs then xs ! j else 0) else name_bytes (procs k p) j"
  have "kstrncpy PROC_MAX_NAME_LEN f (name_bytes (procs k p)) = Inr ?d"
    using kstrncpy_eq [OF name, of PROC_MAX_NAME_LEN] len by (auto simp: fun_eq_iff)
  moreover have "?d PROC_MAX_NAME_LEN = get_byte 0 (io_input (iodescr (procs k p) 0))" using len by (simp add: name_bytes_def)
  moreover have "set_byte 0 (get_byte 0 w) w = w" for w by (simp add: set_get_byte)
  ultimately show ?thesis using len name
    by (auto simp: proc_register_def set_proc_def named_def cstring_def name_reader_def name_bytes_def fun_upd_idem)
qed

lemma proc_register_overflow:
  assumes name: "cstring f xs" and len: "PROC_MAX_NAME_LEN \<le> length xs"
  shows "\<exists>k'. proc_register p f k = Inr (0, k') \<and>
    io_input (iodescr (procs k' p) 0) =
      set_byte 0 (if PROC_MAX_NAME_LEN < length xs then xs ! PROC_MAX_NAME_LEN else 0) (io_input (iodescr (procs k p) 0))"
  using kstrncpy_eq [OF name, of PROC_MAX_NAME_LEN "name_bytes (procs k p)"] len
  by (simp add: proc_register_def set_proc_def)

lemma by_name_from_first:
  assumes name: "cstring f xs" and fuel: "length xs < fuel"
    and names: "\<forall>j. 1 \<le> j \<and> j < MAX_PROCESSES \<and> processes k j \<noteq> 0 \<longrightarrow> (\<exists>ys. named (procs k (processes k j)) ys)"
  shows "1 \<le> i \<Longrightarrow> i \<le> n \<Longrightarrow> n < MAX_PROCESSES \<Longrightarrow> processes k n \<noteq> 0 \<Longrightarrow> named (procs k (processes k n)) xs \<Longrightarrow>
    \<forall>j. i \<le> j \<and> j < n \<and> processes k j \<noteq> 0 \<longrightarrow> \<not> named (procs k (processes k j)) xs \<Longrightarrow>
    by_name_from fuel f i k = Inr (processes k n)"
proof (induction "n - i" arbitrary: i)
  case 0
  then show ?case
    using kstrcmp_eq [OF name, of "name_reader (procs k (processes k n))" xs fuel] fuel
    by (simp add: by_name_from.simps [of _ _ i] named_def compare_0)
next
  case (Suc d)
  then have i: "i < n" "i < MAX_PROCESSES" "d = n - Suc i" by auto
  have rest: "by_name_from fuel f (Suc i) k = Inr (processes k n)" using Suc.prems i by (intro Suc.hyps(1)) auto
  show ?case
  proof (cases "processes k i = 0")
    case True
    then show ?thesis using rest i by (simp add: by_name_from.simps [of _ _ i])
  next
    case False
    then obtain ys where ys: "named (procs k (processes k i)) ys" using names Suc.prems(1) i(2) by blast
    then have "ys \<noteq> xs" using Suc.prems(6) False i(1) by auto
    then show ?thesis
      using kstrcmp_eq [OF name, of "name_reader (procs k (processes k i))" ys fuel] fuel ys False rest i compare_0 [of xs ys]
      by (simp add: by_name_from.simps [of _ _ i] named_def)
  qed
qed

end
