(* ===== verification/Thread.thy ===== *)
theory Thread
  imports Process
begin

text \<open>
  Threads, \<^verbatim>\<open>kernel/thread.c\<close>, and the registers a new thread starts with, \<open>regs_init\<close> of
  \<^verbatim>\<open>kernel/interrupts.c\<close>. A \<^verbatim>\<open>struct thread\<close> has 36 bytes, a \<^verbatim>\<open>struct thread_state\<close> has 17 words, which
  the model writes word by word at their offsets. \<open>leave_kernel\<close> is the address of the assembly
  routine that pops this frame: three words, the task priority, the data segment, the eight
  general registers, two words it skips, and the five words of the interrupt return.
\<close>

section \<open>Operations\<close>

datatype thread_flags = THREAD_KERNEL | THREAD_USERSPACE

record thread_state =
  st_tpr :: uint32
  st_ds :: uint32
  st_edi :: uint32
  st_esi :: uint32
  st_ebp :: uint32
  st_esp :: uint32
  st_ebx :: uint32
  st_edx :: uint32
  st_ecx :: uint32
  st_eax :: uint32
  st_int_id :: uint32
  st_err :: uint32
  st_eip :: uint32
  st_cs :: uint32
  st_eflags :: uint32
  st_useresp :: uint32
  st_ss :: uint32

abbreviation (input) FLAGS_INT_ENABLE :: uint32 where "FLAGS_INT_ENABLE \<equiv> 0x200"

text \<open>The registers are cleared first, then eight of them are set.\<close>

definition regs_init :: "ptr \<Rightarrow> uint32 \<Rightarrow> uint32 \<Rightarrow> thread_flags \<Rightarrow> 'a machine_scheme \<Rightarrow> 'a machine_scheme res" where
  "regs_init regs stk entry flags s =
     bindE (kmemset 68 regs 0 s) (\<lambda>s.
     let ds = (if flags = THREAD_USERSPACE then 0x23 else 0x10);
         cs = (if flags = THREAD_USERSPACE then 0x1b else 0x08)
     in write_words [(regs + 48, entry), (regs + 4, ds), (regs + 52, cs), (regs + 64, ds), (regs + 56, FLAGS_INT_ENABLE),
          (regs + 16, stk), (regs + 60, stk), (regs + 20, stk)] s)"

definition alloc_stack :: "uint32 \<Rightarrow> uint32 \<Rightarrow> uint32" where
  "alloc_stack stk sz = stk - sz"

definition push_stack :: "uint32 \<Rightarrow> uint32 \<Rightarrow> 'a machine_scheme \<Rightarrow> (uint32 \<times> 'a machine_scheme) res" where
  "push_stack stk v s = (let stk = stk - 4 in bindE (vwrite stk v s) (\<lambda>s. Inr (stk, s)))"

definition zero_thread :: thread where
  "zero_thread = \<lparr>parent = 0, priority = 0, stack = 0, kernel_stack = 0, thread_esp = 0, thread_eip = 0, wait_timer = 0,
     descr = 0, event = None\<rparr>"

text \<open>The frame at the top of the kernel stack, lines 45 to 52 of \<open>thread_create\<close>.\<close>

definition thread_frame :: "uint32 \<Rightarrow> uint32 \<Rightarrow> uint32 \<Rightarrow> thread_flags \<Rightarrow> 'a machine_scheme \<Rightarrow> (uint32 \<times> 'a machine_scheme) res" where
  "thread_frame kstack stk entry flags s =
     (let sp = alloc_stack kstack 68 in
      bindE (regs_init sp stk entry flags s) (\<lambda>s.
      bindE (push_stack sp 0 s) (\<lambda>(sp, s).
      bindE (push_stack sp 0 s) (\<lambda>(sp, s).
      push_stack sp kstack s))))"

definition thread_create ::
  "uint32 \<Rightarrow> uint32 \<Rightarrow> ptr \<Rightarrow> uint32 \<Rightarrow> thread_flags \<Rightarrow> kernel \<Rightarrow> (ptr \<times> kernel) res" where
  "thread_create kpdir leave_kernel par entry flags k =
     bindE (new_object 2 36 k) (\<lambda>(new, k).
     let k = k\<lparr>threads := (threads k)(new := zero_thread\<lparr>parent := par\<rparr>)\<rparr> in
     bindE (kmalloc 2 PAGE_SIZE k) (\<lambda>(ks, k).
     let kstack = ks + PAGE_SIZE - 16;
         k = set_thread new (\<lambda>t. t\<lparr>kernel_stack := kstack\<rparr>) k in
     bindE (if flags = THREAD_USERSPACE
            then let k = page_dir_switch (proc_pdir (procs k par)) k in
                 bindE (mem_phys_alloc k) (\<lambda>(f, k).
                 bindE (paging_map 0xa00000 f (PAGE_USERMODE OR PAGE_PRESENT OR PAGE_WRITABLE) k) (\<lambda>k.
                 Inr (0xa00000, page_dir_switch kpdir k)))
            else kmalloc 2 PAGE_SIZE k) (\<lambda>(stk, k).
     let k = set_thread new (\<lambda>t. t\<lparr>thread_eip := leave_kernel\<rparr>) k in
     bindE (thread_frame kstack (stk + PAGE_SIZE - 16) entry flags k) (\<lambda>(sp, k).
     Inr (new, set_thread new (\<lambda>t. t\<lparr>thread_esp := sp, stack := stk\<rparr>) k)))))"

section \<open>The first frame of a kernel thread\<close>

text \<open>The words that are written below the top of the kernel stack, in the order of the code.\<close>

definition frame_writes :: "uint32 \<Rightarrow> uint32 \<Rightarrow> uint32 \<Rightarrow> (ptr \<times> uint32) list" where
  "frame_writes tp stk entry =
     [(tp - 20, entry), (tp - 64, 0x10), (tp - 16, 0x08), (tp - 4, 0x10), (tp - 12, 0x200),
      (tp - 52, stk), (tp - 8, stk), (tp - 48, stk), (tp - 72, 0), (tp - 76, 0), (tp - 80, tp)]"

lemma thread_frame_eq:
  "thread_frame tp stk entry THREAD_KERNEL k =
   bindE (kmemset 68 (tp - 68) 0 k) (\<lambda>k. bindE (write_words (frame_writes tp stk entry) k) (\<lambda>k. Inr (tp - 80, k)))"
proof -
  have o: "tp - 68 + 48 = tp - 20" "tp - 68 + 4 = tp - 64" "tp - 68 + 52 = tp - 16" "tp - 68 + 64 = tp - 4"
    "tp - 68 + 56 = tp - 12" "tp - 68 + 16 = tp - 52" "tp - 68 + 60 = tp - 8" "tp - 68 + 20 = tp - 48"
    "tp - 68 - 4 = tp - 72" "tp - 68 - 4 - 4 = tp - 76" "tp - 68 - 4 - 4 - 4 = tp - 80"
    by simp_all
  show ?thesis unfolding thread_frame_def alloc_stack_def regs_init_def push_stack_def frame_writes_def Let_def
    by (simp add: bindE_assoc o)
qed

lemma frame_writes_distinct: "distinct (map fst (frame_writes tp stk entry))"
  by (simp add: frame_writes_def)

lemma top_offset:
  assumes "unat p + 4096 \<le> 2 ^ 32" "unat n \<le> 80"
  shows "unat (p + 4080 - n :: uint32) = unat p + 4080 - unat n"
proof -
  have "unat (p + 4080) = unat p + 4080" using assms(1) by (simp add: unat_word_ariths)
  then show ?thesis using assms(2) by (subst unat_sub) (simp_all add: word_le_nat_alt)
qed

text \<open>Writing the frame at the top of an allocated page.\<close>

lemma frame_written:
  assumes ok: "kmem_ok k" and lo: "HEAP_START \<le> p" and hi: "unat p + 4096 \<le> unat (heap k)"
  defines "tp \<equiv> p + 4080"
  shows "\<exists>m. bindE (kmemset 68 (tp - 68) 0 k) (write_words (frame_writes tp stk entry)) = Inr (k\<lparr>phys_mem := m\<rparr>) \<and>
    kmem_ok (k\<lparr>phys_mem := m\<rparr>) \<and>
    (\<forall>(a, x)\<in>set (frame_writes tp stk entry). vread a (k\<lparr>phys_mem := m\<rparr>) = Inr x)"
proof -
  have P: "unat p + 4096 \<le> 2 ^ 32" using hi unat32_less [of "heap k"] by simp
  have sub: "unat (tp - n) = unat p + 4080 - unat n" if "unat n \<le> 80" for n using top_offset [OF P that] by (simp add: tp_def)
  have reg: "tp - n \<in> heap_region k" if "unat n \<le> 80" "4 \<le> unat n" for n
    using sub [OF that(1)] that lo hi by (auto simp: heap_region_def word_le_nat_alt word_less_nat_alt)
  have "HEAP_START \<le> tp - 68" "unat (tp - 68) + 68 \<le> unat (heap k)"
    using sub [of 68] lo hi by (simp_all add: word_le_nat_alt)
  then obtain m1 where m1: "kmemset 68 (tp - 68) 0 k = Inr (k\<lparr>phys_mem := m1\<rparr>)" "kmem_ok (k\<lparr>phys_mem := m1\<rparr>)"
    using kmemset_heap [OF ok, of "tp - 68" 68 0] by auto
  let ?k = "k\<lparr>phys_mem := m1\<rparr>" and ?ws = "frame_writes tp stk entry"
  have "heap_region ?k = heap_region k" by (simp add: heap_region_def)
  then have ws: "fst ` set ?ws \<subseteq> heap_region ?k" using reg by (simp add: frame_writes_def)
  from write_words_heap [OF m1(2) ws frame_writes_distinct] obtain m where m:
      "write_words ?ws ?k = Inr (k\<lparr>phys_mem := m\<rparr>)" "kmem_ok (k\<lparr>phys_mem := m\<rparr>)"
      "\<forall>w\<in>heap_region ?k. vread w (k\<lparr>phys_mem := m\<rparr>) = (case map_of ?ws w of Some x \<Rightarrow> Inr x | None \<Rightarrow> vread w ?k)"
    by auto
  have "vread a (k\<lparr>phys_mem := m\<rparr>) = Inr x" if "(a, x) \<in> set ?ws" for a x
  proof -
    have "map_of ?ws a = Some x" using that frame_writes_distinct by (rule map_of_is_SomeI [rotated])
    moreover have "a \<in> heap_region ?k" using ws that by force
    ultimately show ?thesis using m(3) by simp
  qed
  then show ?thesis using m1(1) m(1,2) by (intro exI [of _ m]) auto
qed

lemma room_for_cong:
  assumes "memory_map s' = memory_map s" "palloc_lock s' = palloc_lock s" "phys_mem s' = phys_mem s" "cr3 s' = cr3 s"
    "heap s' = heap s" "allocator s' = allocator s" "mem_lock s' = mem_lock s"
  shows "room_for n s' = room_for n s"
  using kmem_ok_cong(1,2) [OF assms(1-6)] assms by (simp add: room_for_def)

lemma set_thread_kmem [simp]:
  "memory_map (set_thread t f k) = memory_map k" "palloc_lock (set_thread t f k) = palloc_lock k"
  "phys_mem (set_thread t f k) = phys_mem k" "cr3 (set_thread t f k) = cr3 k" "heap (set_thread t f k) = heap k"
  "allocator (set_thread t f k) = allocator k" "mem_lock (set_thread t f k) = mem_lock k"
  by (simp_all add: set_thread_def)

lemma room_for_set_thread [simp]: "room_for n (set_thread t f k) = room_for n k"
  by (rule room_for_cong) simp_all

lemma kmem_ok_set_thread [simp]: "kmem_ok (set_thread t f k) = kmem_ok k"
  by (rule kmem_ok_cong) simp_all

text \<open>A page for a stack: it lies in the heap, and the rest of the kernel state is as before.\<close>

lemma stack_page:
  assumes "room_for (Suc n) k"
  obtains p k1 where "kmalloc 2 PAGE_SIZE k = Inr (p, k1)" "room_for n k1" "kmem_ok k1" "kmem.more k1 = kmem.more k"
    "heap k \<le> heap k1" "HEAP_START \<le> p" "unat p + 4096 \<le> unat (heap k1)" "got_block PAGE_SIZE k p k1"
proof -
  have sz: "unat PAGE_SIZE = 4096" by simp
  have "kmem_ok k" "mem_lock k = 0" "can_alloc PAGE_SIZE k" using room_for_alloc [OF assms, of PAGE_SIZE] by simp_all
  then obtain p k1 where p: "kmalloc 2 PAGE_SIZE k = Inr (p, k1)" "got_block PAGE_SIZE k p k1"
    using kmalloc_got_block [of k PAGE_SIZE 2] small_level(2) [of 4096] by auto
  have "room_for n k1" using room_for_next [OF assms _ p(2)] by simp
  moreover have "kmem_ok k1" "block (level_of 4096, unat p) \<subseteq> unat ` heap_region k1" "heap k \<le> heap k1"
    using p(2) by (simp_all add: got_block_def Let_def)
  moreover have "4096 \<le> bsize (level_of 4096)" by (rule level_of_props(2)) simp
  moreover have "kmem.more k1 = kmem.more k" using p(1) by (rule kmalloc_more)
  ultimately show ?thesis using that [OF p(1)] p(2) in_heap_bytes [of "level_of 4096" p k1 4096] by blast
qed

lemma thread_create_kernel:
  assumes "room_for (n + 3) k"
  shows "\<exists>t k' tp stk. thread_create kpdir lk par entry THREAD_KERNEL k = Inr (t, k') \<and> room_for n k' \<and> kmem_ok k' \<and> t \<noteq> 0 \<and>
    taken t k' \<and> (\<forall>b. taken b k \<longrightarrow> taken b k' \<and> b \<noteq> t) \<and> kmem.more k' = kmem.more (k\<lparr>threads := threads k'\<rparr>) \<and>
    threads k' = (threads k)(t := zero_thread\<lparr>parent := par, kernel_stack := tp, thread_eip := lk, thread_esp := tp - 80, stack := stk\<rparr>) \<and>
    (\<forall>(a, x)\<in>set (frame_writes tp (stk + 4080) entry). vread a k' = Inr x)"
proof -
  have r3: "room_for (Suc (Suc (Suc n))) k" using assms by (simp add: eval_nat_numeral)
  obtain t k1 where t: "new_object 2 36 k = Inr (t, k1)" "got_block 36 k t k1"
    using new_object_ok [of k 36 2] room_for_alloc [OF r3, of 36] small_level(2) [of 36] by auto
  have more1: "kmem.more k1 = kmem.more k" using t(1) by (rule new_object_more)
  let ?t1 = "(threads k)(t := zero_thread\<lparr>parent := par\<rparr>)"
  let ?k1 = "k1\<lparr>threads := ?t1\<rparr>"
  have "room_for (Suc (Suc n)) k1" using room_for_next [OF r3 _ t(2)] by simp
  moreover have "room_for (Suc (Suc n)) ?k1 = room_for (Suc (Suc n)) k1" by (rule room_for_cong) simp_all
  ultimately have "room_for (Suc (Suc n)) ?k1" by simp
  then obtain p k2 where p: "kmalloc 2 PAGE_SIZE ?k1 = Inr (p, k2)" "room_for (Suc n) k2" "kmem_ok k2"
      "kmem.more k2 = kmem.more ?k1" "HEAP_START \<le> p" "unat p + 4096 \<le> unat (heap k2)" "got_block PAGE_SIZE ?k1 p k2"
    by (rule stack_page)
  define tp where "tp = p + 4080"
  let ?k2 = "set_thread t (\<lambda>x. x\<lparr>kernel_stack := tp\<rparr>) k2"
  have "room_for (Suc n) ?k2" using p(2) by simp
  then obtain stk k3 where s: "kmalloc 2 PAGE_SIZE ?k2 = Inr (stk, k3)" "kmem_ok k3" "kmem.more k3 = kmem.more ?k2" "heap ?k2 \<le> heap k3"
      "room_for n k3" "got_block PAGE_SIZE ?k2 stk k3"
    by (rule stack_page)
  let ?k3 = "set_thread t (\<lambda>x. x\<lparr>thread_eip := lk\<rparr>) k3"
  have "unat p + 4096 \<le> unat (heap ?k3)" using p(6) s(4) by (simp add: word_le_nat_alt)
  then obtain m where m: "bindE (kmemset 68 (tp - 68) 0 ?k3) (write_words (frame_writes tp (stk + 4080) entry)) = Inr (?k3\<lparr>phys_mem := m\<rparr>)"
      "kmem_ok (?k3\<lparr>phys_mem := m\<rparr>)" "\<forall>(a, x)\<in>set (frame_writes tp (stk + 4080) entry). vread a (?k3\<lparr>phys_mem := m\<rparr>) = Inr x"
    using frame_written [of ?k3 p "stk + 4080" entry] s(2) p(5) by (auto simp: tp_def)
  let ?k' = "set_thread t (\<lambda>x. x\<lparr>thread_esp := tp - 80, stack := stk\<rparr>) (?k3\<lparr>phys_mem := m\<rparr>)"
  have th: "threads k1 = threads k" "threads k2 = ?t1" "threads k3 = threads ?k2"
    using kernel_more [OF more1] kernel_more [OF p(4)] kernel_more [OF s(3)] by (simp_all add: set_thread_def)
  have f: "thread_frame tp (stk + 4080) entry THREAD_KERNEL ?k3 = Inr (tp - 80, ?k3\<lparr>phys_mem := m\<rparr>)"
    using m(1) unfolding thread_frame_eq by (auto simp: bindE_eq_Inr)
  have e: "p + PAGE_SIZE - 16 = tp" "stk + PAGE_SIZE - 16 = stk + 4080" "(THREAD_KERNEL = THREAD_USERSPACE) = False"
    by (simp_all add: tp_def)
  have "thread_create kpdir lk par entry THREAD_KERNEL k = Inr (t, ?k')"
    unfolding thread_create_def t(1) bindE_Inr prod.case Let_def th(1) p(1) e if_False s(1) f ..
  moreover have "kmem_ok ?k'" using m(2) by simp
  moreover have "room_for n ?k'"
  proof -
    have "room_for n ?k3" using s(5) by simp
    then have "room_for n (?k3\<lparr>phys_mem := m\<rparr>)" using m(2) by (simp only: room_for_def frames_def kmem.simps) simp
    then show ?thesis by simp
  qed
  moreover have tk: "taken b k3 \<and> b \<noteq> p" if "taken b k1" for b
  proof -
    have "taken b ?k1" using that by (simp add: taken_def)
    from taken_keep [OF p(7) this] have "taken b ?k2" "b \<noteq> p" by (simp_all add: taken_def set_thread_def)
    then show ?thesis using taken_keep(1) [OF s(6)] by simp
  qed
  have "taken t ?k'" "\<forall>b. taken b k \<longrightarrow> taken b ?k' \<and> b \<noteq> t"
    using tk taken_new [OF t(2)] taken_keep [OF t(2)] by (auto simp: taken_def set_thread_def)
  moreover have "threads ?k' = (threads k)(t := zero_thread\<lparr>parent := par, kernel_stack := tp, thread_eip := lk, thread_esp := tp - 80, stack := stk\<rparr>)"
    using th by (simp add: set_thread_def)
  moreover have "vread a ?k' = Inr x" if "(a, x) \<in> set (frame_writes tp (stk + 4080) entry)" for a x
  proof -
    have "mmu_translate a ?k' = mmu_translate a (?k3\<lparr>phys_mem := m\<rparr>)" by (rule kmem_ok_cong) simp_all
    then have "vread a ?k' = vread a (?k3\<lparr>phys_mem := m\<rparr>)" unfolding vread_def by (simp cong: option.case_cong)
    then show ?thesis using m(3) that by auto
  qed
  moreover have "kmem.more ?k' = kmem.more (k\<lparr>threads := threads ?k'\<rparr>)"
    using kernel_more_upd(1) [OF more1] kernel_more_upd(1) [OF p(4)] kernel_more_upd(1) [OF s(3)] by (simp add: set_thread_def)
  moreover have "t \<noteq> 0" using t(2) by (simp add: got_block_def Let_def)
  ultimately show ?thesis by (intro exI [of _ t] exI [of _ ?k'] exI [of _ tp] exI [of _ stk]) (auto simp: set_thread_def)
qed

end
