(* ===== verification/Interrupts.thy ===== *)
theory Interrupts
  imports Kernel Util
begin

text \<open>
  Interrupts, \<^verbatim>\<open>kernel/interrupts.c\<close>: the initialisation of the APICs and of the table of handlers. The descriptor
  table is in \<open>Idt\<close>, the devices are in \<open>Apic\<close>, the registers of a new thread in \<open>Thread\<close>, the
  dispatch in \<open>Syscall\<close>. The model register of a CPU that enables its APIC, number \<^verbatim>\<open>0x1B\<close>, is \<open>apic_msr\<close> (its low
  word; the high word is written back as it was). The interrupt flag is not part of the
  state, and \<open>regs_print\<close> and the messages of the handlers are output only.
\<close>

section \<open>The APICs\<close>

definition apic_enable :: "nat \<Rightarrow> kernel \<Rightarrow> kernel" where
  "apic_enable cpu k =
     (let k = k\<lparr>io_log := port_write 0x21 0xFF (port_write 0xA1 0xFF (io_log k))\<rparr>;
          lo = apic_msr k cpu;
          lo = lo AND 0xFFFFF000;
          lo = lo OR 0x800
      in k\<lparr>apic_msr := (apic_msr k)(cpu := lo)\<rparr>)"

definition apic_init :: "nat \<Rightarrow> kernel \<Rightarrow> kernel" where
  "apic_init cpu k =
     (let k = apic_enable cpu k;
          k = k\<lparr>ioapic := ioapic_init (ioapic k)\<rparr>
      in k\<lparr>lapics := (lapics k)(cpu := lapic_init (lapics k cpu))\<rparr>)"

section \<open>Handlers\<close>

definition interrupts_register_handler :: "uint8 \<Rightarrow> int_handler \<Rightarrow> kernel \<Rightarrow> kernel" where
  "interrupts_register_handler int_id h k = k\<lparr>int_handlers := (int_handlers k)(unat int_id := h)\<rparr>"

definition register_range :: "nat \<Rightarrow> kernel \<Rightarrow> kernel" where
  "register_range n k = fold (\<lambda>i. interrupts_register_handler (of_nat i) Unhandled) [0..<n] k"

definition interrupts_init :: "(nat \<Rightarrow> uint32) \<Rightarrow> uint32 \<Rightarrow> nat \<Rightarrow> kernel \<Rightarrow> kernel res" where
  "interrupts_init isr addr_idt cpu k =
     bindE (idt_init isr addr_idt (idt_entries k)) (\<lambda>(p, t).
     let k = k\<lparr>iptr := p, idt_entries := t\<rparr>;
         k = apic_init cpu k;
         k = register_range 256 k;
         k = interrupts_register_handler 218 Keyboard k
     in Inr (interrupts_register_handler 15 Ignored k))"

text \<open>\<open>interrupts_start\<close>: the CPU gets a stack for its interrupts and its task register.\<close>

definition interrupts_start :: "nat \<Rightarrow> kernel \<Rightarrow> kernel res" where
  "interrupts_start cpu k =
     bindE (kmalloc 2 PAGE_SIZE k) (\<lambda>(p, k).
     let k = k\<lparr>segs := tss_set_stack cpu p (segs k)\<rparr>
     in Inr (k\<lparr>task_register := (task_register k)(cpu := tss_flush (of_nat cpu))\<rparr>))"

section \<open>After the initialisation\<close>

lemma register_range_eq: "n \<le> 256 \<Longrightarrow> register_range n k =
    k\<lparr>int_handlers := (\<lambda>i. if i < n then Unhandled else int_handlers k i)\<rparr>"
proof (induction n)
  case (Suc n)
  then show ?case
    by (auto simp: register_range_def interrupts_register_handler_def unat_of_nat intro!: kernel.equality)
qed (simp add: register_range_def)

lemma interrupts_init_ok: "\<exists>k'. interrupts_init isr addr_idt cpu k = Inr k' \<and>
    (\<forall>n. n < 241 \<and> gate_to (isr n) (idt_entries k' n) \<or> 241 \<le> n \<and> idt_entries k' n = idt_entries k n) \<and>
    int_handlers k' = (\<lambda>n. if n = 15 then Ignored else if n = 218 then Keyboard else if n < 256 then Unhandled else int_handlers k n) \<and>
    ioapic k' = ioapic_init (ioapic k) \<and> lapics k' = (lapics k)(cpu := lapic_init (lapics k cpu)) \<and>
    iptr k' = \<lparr>iptr_size = 2047, iptr_base = VIRT_TO_PHYS addr_idt\<rparr> \<and>
    k' = k\<lparr>iptr := iptr k', idt_entries := idt_entries k', io_log := io_log k', apic_msr := apic_msr k', ioapic := ioapic k',
      lapics := lapics k', int_handlers := int_handlers k'\<rparr>"
proof -
  obtain t where t: "isr_install isr_list isr (idt_entries k) = Inr t"
      "\<forall>n. t n = idt_entries k n \<and> n \<notin> set isr_list \<or> gate_to (isr n) (t n) \<and> n \<in> set isr_list"
    using isr_install_ok [of isr_list isr "idt_entries k"] by (auto simp: isr_list_def)
  have "n < 241 \<and> gate_to (isr n) (t n) \<or> 241 \<le> n \<and> t n = idt_entries k n" for n
    using t(2) [rule_format, of n] by (auto simp: isr_list_def)
  then show ?thesis
    using t(1) by (simp add: interrupts_init_def idt_init_def isr_init_def Let_def register_range_eq
      interrupts_register_handler_def apic_init_def apic_enable_def fun_eq_iff)
qed

end
