(* ===== verification/Timer.thy ===== *)
theory Timer
  imports Interrupts
begin

text \<open>
  The clock, \<^verbatim>\<open>kernel/timer.c\<close>. The tick counter is \<open>ticks\<close> of the kernel state. Its type \<open>uint64\<close> is
  \<^verbatim>\<open>unsigned long\<close>, 32 bits wide on the target, so sums and products wrap at 32 bits. \<open>dev\<close>
  is what the real-time clock answers on its ports.
\<close>

section \<open>State and operations\<close>

record time_t =
  milisec :: uint16
  sec :: uint8
  minutes :: uint8
  hours :: uint8
  days :: uint32

abbreviation (input) TIMER_HZ :: uint32 where "TIMER_HZ \<equiv> 1024"

text \<open>The interrupt handler \<open>_tick\<close>.\<close>

definition tick_handler :: "device \<Rightarrow> kernel \<Rightarrow> kernel" where
  "tick_handler dev k =
     (let k = k\<lparr>ticks := ticks k + 1\<rparr>;
          io = port_write 0x70 0x0C (io_log k);
          (_, io) = port_read_8 dev 0x71 io
      in k\<lparr>io_log := io\<rparr>)"

definition timer_init :: "device \<Rightarrow> kernel \<Rightarrow> kernel" where
  "timer_init dev k =
     (let rate = 6;
          k = k\<lparr>ticks := 0\<rparr>;
          k = interrupts_register_handler 211 Tick k;
          io = port_write 0x70 0x8A (io_log k);
          (prev, io) = port_read_8 dev 0x71 io;
          io = port_write 0x70 0x8A io;
          io = port_write 0x71 (prev AND 0xF0 OR rate) io;
          io = port_write 0x70 0x8B io;
          (prev, io) = port_read_8 dev 0x71 io;
          io = port_write 0x70 0x8B io;
          io = port_write 0x71 (prev OR 0x40) io;
          io = port_write 0x70 0x0C io;
          (_, io) = port_read_8 dev 0x71 io
      in k\<lparr>io_log := io\<rparr>)"

text \<open>
  \<open>_time_to_ticks\<close>: the first four products have type \<^verbatim>\<open>int\<close> and stay below \<open>2 ^ 31\<close>, so they are
  the products of the unsigned values.
\<close>

definition time_to_ticks :: "time_t \<Rightarrow> uint64" where
  "time_to_ticks time =
     ucast (milisec time) * TIMER_HZ div 1000 + ucast (sec time) * TIMER_HZ + ucast (minutes time) * TIMER_HZ * 60 +
     ucast (hours time) * TIMER_HZ * 60 * 60 + days time * TIMER_HZ * 60 * 60 * 24"

definition ticks_to_time :: "uint32 \<Rightarrow> time_t" where
  "ticks_to_time cur_ticks =
     (let d = cur_ticks div (TIMER_HZ * 60 * 60 * 24);
          cur_ticks = cur_ticks mod (TIMER_HZ * 60 * 60 * 24);
          h = ucast (cur_ticks div (TIMER_HZ * 60 * 60));
          cur_ticks = cur_ticks mod (TIMER_HZ * 60 * 60);
          m = ucast (cur_ticks div (TIMER_HZ * 60));
          cur_ticks = cur_ticks mod (TIMER_HZ * 60);
          s = ucast (cur_ticks div TIMER_HZ);
          cur_ticks = cur_ticks mod TIMER_HZ;
          ms = ucast (cur_ticks * 1000 div TIMER_HZ)
      in \<lparr>milisec = ms, sec = s, minutes = m, hours = h, days = d\<rparr>)"

definition timer_uptime :: "kernel \<Rightarrow> time_t" where
  "timer_uptime k = ticks_to_time (ticks k)"

definition timer_get_ticks :: "kernel \<Rightarrow> uint64" where
  "timer_get_ticks k = ticks k"

text \<open>
  \<open>timer_active_wait\<close> spins on the counter that the interrupt handler advances: one unit of fuel is
  one tick of the clock.
\<close>

fun wait_loop :: "device \<Rightarrow> nat \<Rightarrow> uint32 \<Rightarrow> kernel \<Rightarrow> kernel res" where
  "wait_loop dev 0 wtime k = (if ticks k < wtime then Inl Diverges else Inr k)"
| "wait_loop dev (Suc fuel) wtime k = (if ticks k < wtime then wait_loop dev fuel wtime (tick_handler dev k) else Inr k)"

definition timer_active_wait :: "device \<Rightarrow> nat \<Rightarrow> uint32 \<Rightarrow> kernel \<Rightarrow> kernel res" where
  "timer_active_wait dev fuel wtime k = wait_loop dev fuel (wtime + ticks k) k"

section \<open>Conversions\<close>

text \<open>The fields of the time of a tick count, as numbers.\<close>

lemma ticks_to_time_fields:
  fixes t :: uint32
  defines "n \<equiv> unat t"
  shows "unat (days (ticks_to_time t)) = n div 88473600" "unat (hours (ticks_to_time t)) = n mod 88473600 div 3686400"
    "unat (minutes (ticks_to_time t)) = n mod 3686400 div 61440" "unat (sec (ticks_to_time t)) = n mod 61440 div 1024"
    "unat (milisec (ticks_to_time t)) = n mod 1024 * 1000 div 1024"
proof -
  have m1: "n mod 88473600 mod 3686400 = n mod 3686400" by (rule mod_mod_cancel) (simp add: dvd_def)
  have m2: "n mod 3686400 mod 61440 = n mod 61440" by (rule mod_mod_cancel) (simp add: dvd_def)
  have m3: "n mod 61440 mod 1024 = n mod 1024" by (rule mod_mod_cancel) (simp add: dvd_def)
  have b: "n mod 88473600 div 3686400 < 24" "n mod 3686400 div 61440 < 60" "n mod 61440 div 1024 < 60"
    by (rule less_mult_imp_div_less; simp)+
  have c: "n mod 1024 * 1000 div 1024 < 1000" by (rule less_mult_imp_div_less) simp
  show "unat (days (ticks_to_time t)) = n div 88473600"
    by (simp add: ticks_to_time_def Let_def unat_div n_def)
  show "unat (hours (ticks_to_time t)) = n mod 88473600 div 3686400"
    using b(1) by (simp add: ticks_to_time_def Let_def unat_div unat_mod unsigned_ucast_eq take_bit_nat_eq_self n_def)
  show "unat (minutes (ticks_to_time t)) = n mod 3686400 div 61440"
    using b(2) m1 by (simp add: ticks_to_time_def Let_def unat_div unat_mod unsigned_ucast_eq take_bit_nat_eq_self n_def)
  show "unat (sec (ticks_to_time t)) = n mod 61440 div 1024"
    using b(3) m1 m2 by (simp add: ticks_to_time_def Let_def unat_div unat_mod unsigned_ucast_eq take_bit_nat_eq_self n_def)
  have "n mod 1024 * 1000 < 2 ^ 32" using mod_less_divisor [of 1024 n] by simp
  then show "unat (milisec (ticks_to_time t)) = n mod 1024 * 1000 div 1024"
    using c m1 m2 m3
    by (simp add: ticks_to_time_def Let_def unat_div unat_mod unat_word_ariths unsigned_ucast_eq take_bit_nat_eq_self n_def)
qed

lemma ticks_to_time_range:
  "unat (milisec (ticks_to_time t)) < 1000" "unat (sec (ticks_to_time t)) < 60" "unat (minutes (ticks_to_time t)) < 60"
  "unat (hours (ticks_to_time t)) < 24" "unat (days (ticks_to_time t)) \<le> 48"
proof -
  have "unat t div 88473600 < 49" using unat32_less [of t] by (intro less_mult_imp_div_less) simp
  then show "unat (days (ticks_to_time t)) \<le> 48" by (simp add: ticks_to_time_fields)
qed (unfold ticks_to_time_fields, (rule less_mult_imp_div_less; simp)+)

lemma unat_time_to_ticks:
  "unat (time_to_ticks tm) =
    (unat (milisec tm) * 1024 div 1000 + unat (sec tm) * 1024 + unat (minutes tm) * 61440 + unat (hours tm) * 3686400 +
     unat (days tm) * 88473600) mod 2 ^ 32"
proof -
  have "unat (milisec tm) < 65536" using unsigned_less [where 'a = nat, of "milisec tm"] by simp
  then have "unat (ucast (milisec tm) * TIMER_HZ div 1000) = unat (milisec tm) * 1024 div 1000"
    by (simp add: unat_div unat_word_ariths unsigned_ucast_eq take_bit_nat_eq_self)
  moreover have "unat (ucast (w :: uint8) :: uint32) = unat w" for w
    using unsigned_less [where 'a = nat, of w] by (simp add: unsigned_ucast_eq take_bit_nat_eq_self)
  ultimately show ?thesis by (simp add: time_to_ticks_def unat_word_ariths mod_simps mult.assoc)
qed

text \<open>The milliseconds lose at most two ticks, everything else is exact.\<close>

lemma milisec_error:
  fixes r :: nat
  assumes "r < 1024"
  defines "q \<equiv> r * 1000 div 1024"
  shows "q * 1024 div 1000 \<le> r" "r \<le> q * 1024 div 1000 + 2"
proof -
  have q: "1024 * q \<le> r * 1000" "r * 1000 < 1024 * q + 1024"
    using div_mult_mod_eq [of "r * 1000" 1024] mod_less_divisor [of 1024 "r * 1000"] by (simp_all add: q_def)
  define p where "p = q * 1024 div 1000"
  have p: "1000 * p \<le> q * 1024" "q * 1024 < 1000 * p + 1000"
    using div_mult_mod_eq [of "q * 1024" 1000] mod_less_divisor [of 1000 "q * 1024"] by (simp_all add: p_def)
  have "p \<le> r" "r \<le> p + 2" using p q by linarith+
  then show "q * 1024 div 1000 \<le> r" "r \<le> q * 1024 div 1000 + 2" by (simp_all add: p_def)
qed

lemma split_ticks:
  fixes n :: nat
  shows "n = n mod 1024 + n mod 61440 div 1024 * 1024 + n mod 3686400 div 61440 * 61440 +
    n mod 88473600 div 3686400 * 3686400 + n div 88473600 * 88473600"
proof -
  have m1: "n mod 88473600 mod 3686400 = n mod 3686400" by (rule mod_mod_cancel) (simp add: dvd_def)
  have m2: "n mod 3686400 mod 61440 = n mod 61440" by (rule mod_mod_cancel) (simp add: dvd_def)
  have m3: "n mod 61440 mod 1024 = n mod 1024" by (rule mod_mod_cancel) (simp add: dvd_def)
  show ?thesis
    using div_mult_mod_eq [of n 88473600] div_mult_mod_eq [of "n mod 88473600" 3686400]
      div_mult_mod_eq [of "n mod 3686400" 61440] div_mult_mod_eq [of "n mod 61440" 1024] m1 m2 m3 by linarith
qed

lemma ticks_round_trip:
  "unat (time_to_ticks (ticks_to_time t)) \<le> unat t" "unat t \<le> unat (time_to_ticks (ticks_to_time t)) + 2"
proof -
  define n where "n = unat t"
  define e where "e = n mod 1024 * 1000 div 1024 * 1024 div 1000"
  define r where "r = n mod 61440 div 1024 * 1024 + n mod 3686400 div 61440 * 61440 +
    n mod 88473600 div 3686400 * 3686400 + n div 88473600 * 88473600"
  have e: "e \<le> n mod 1024" "n mod 1024 \<le> e + 2" using milisec_error [of "n mod 1024"] by (simp_all add: e_def)
  have n: "n = n mod 1024 + r" using split_ticks [of n] by (simp add: r_def)
  have "unat (time_to_ticks (ticks_to_time t)) = (e + r) mod 2 ^ 32"
    unfolding unat_time_to_ticks ticks_to_time_fields n_def [symmetric] e_def r_def by (simp add: add.assoc)
  also have "\<dots> = e + r" using e(1) n unat32_less [of t] by (simp add: n_def)
  finally show "unat (time_to_ticks (ticks_to_time t)) \<le> unat t" "unat t \<le> unat (time_to_ticks (ticks_to_time t)) + 2"
    using e n unfolding n_def by linarith+
qed

section \<open>Waiting\<close>

lemma tick_handler_eq: "\<exists>io. tick_handler dev k = k\<lparr>ticks := ticks k + 1, io_log := io\<rparr>"
  by (auto simp: tick_handler_def port_read_8_def Let_def)

lemma wait_loop_returns:
  "unat w - unat (ticks k) \<le> fuel \<Longrightarrow>
   \<exists>io. wait_loop dev fuel w k = Inr (if ticks k < w then k\<lparr>ticks := w, io_log := io\<rparr> else k)"
proof (induction fuel arbitrary: k)
  case 0
  then show ?case by (simp add: word_less_nat_alt)
next
  case (Suc n)
  show ?case
  proof (cases "ticks k < w")
    case True
    then have u: "unat (ticks k + 1) = unat (ticks k) + 1"
      using unat32_less [of w] by (simp add: word_less_nat_alt unat_word_ariths)
    obtain io where k': "tick_handler dev k = k\<lparr>ticks := ticks k + 1, io_log := io\<rparr>" using tick_handler_eq by blast
    have le: "unat w - Suc (unat (ticks k)) \<le> n" using Suc.prems by linarith
    obtain io' where "wait_loop dev n w (tick_handler dev k) =
        Inr (if ticks k + 1 < w then k\<lparr>ticks := w, io_log := io'\<rparr> else tick_handler dev k)"
      using Suc.IH [of "k\<lparr>ticks := ticks k + 1, io_log := io\<rparr>"] le u unfolding k' by (auto cong: if_cong)
    moreover have "ticks k + 1 = w" if "\<not> ticks k + 1 < w"
      using that True u by (simp add: word_less_nat_alt word_unat_eq_iff)
    ultimately show ?thesis using True by (auto simp: k')
  qed simp
qed

end
