(* ===== verification/Syscall.thy ===== *)
theory Syscall
  imports Scheduler Thread Timer Interrupts
begin

text \<open>
  The system calls, \<^verbatim>\<open>kernel/syscall.c\<close>, with the interrupt streams of \<^verbatim>\<open>kernel/drivers.c\<close> and the dispatch of
  interrupts, \<open>irq_handler\<close> of \<^verbatim>\<open>kernel/interrupts.c\<close>. A call returns with the registers it leaves, or
  it waits: the current thread has an event set and gives the CPU away. What is left of the call is then a value
  of type \<open>pending\<close>, and \<open>syscall_resume\<close> goes on with it when the scheduler picks the thread again. \<open>cpu\<close> is the number of the CPU. User memory is read and
  written through the page tables.
\<close>

section \<open>Streams of a process\<close>

text \<open>\<open>stream_new\<close> of \<^verbatim>\<open>kernel/stream.c\<close>: a \<^verbatim>\<open>struct stream\<close> has 1028 bytes.\<close>

definition stream_alloc :: "kernel \<Rightarrow> (ptr \<times> kernel) res" where
  "stream_alloc k = bindE (new_object 2 1028 k) (\<lambda>(p, k). Inr (p, k\<lparr>streams := (streams k)(p := stream_new)\<rparr>))"

definition attach :: "ptr \<Rightarrow> ptr \<Rightarrow> ptr \<Rightarrow> kernel \<Rightarrow> int \<times> kernel" where
  "attach p inp outp k =
     (case iostream_attach inp outp (iodescr (procs k p)) of (r, d) \<Rightarrow> (r, set_proc p (\<lambda>x. x\<lparr>iodescr := d\<rparr>) k))"

definition descriptor :: "uint32 \<Rightarrow> ptr \<Rightarrow> kernel \<Rightarrow> iostream res" where
  "descriptor i p k = (if unat i < MAX_DESCRIPTORS then Inr (iodescr (procs k p) (unat i)) else Inl OutOfBounds)"

definition stream_at :: "ptr \<Rightarrow> kernel \<Rightarrow> stream res" where
  "stream_at d k = (if d = 0 then Inl NullPointer else Inr (streams k d))"

text \<open>
  The loops of \<open>stream_write\<close> and \<open>stream_read\<close> over user memory; they stop with the number of bytes
  that are left when the stream is full or empty.
\<close>

fun write_loop :: "nat \<Rightarrow> ptr \<Rightarrow> ptr \<Rightarrow> kernel \<Rightarrow> (nat \<times> kernel) res" where
  "write_loop 0 b d k = Inr (0, k)"
| "write_loop (Suc n) b d k =
     bindE (stream_at d k) (\<lambda>s.
     if stream_write_length s = 0 then Inr (Suc n, k)
     else bindE (vread8 b k) (\<lambda>c. bindE (stream_put c s) (\<lambda>s.
       write_loop n (b + 1) d (k\<lparr>streams := (streams k)(d := s)\<rparr>))))"

fun read_loop :: "nat \<Rightarrow> ptr \<Rightarrow> ptr \<Rightarrow> kernel \<Rightarrow> (nat \<times> kernel) res" where
  "read_loop 0 b d k = Inr (0, k)"
| "read_loop (Suc n) b d k =
     bindE (stream_at d k) (\<lambda>s.
     if stream_read_length s = 0 then Inr (Suc n, k)
     else bindE (stream_get s) (\<lambda>(c, s). bindE (vwrite8 b c (k\<lparr>streams := (streams k)(d := s)\<rparr>)) (read_loop n (b + 1) d)))"

definition set_wait :: "ptr \<Rightarrow> ptr \<Rightarrow> thread_event \<Rightarrow> kernel \<Rightarrow> kernel" where
  "set_wait th d e k = set_thread th (\<lambda>t. t\<lparr>descr := d, event := Some e\<rparr>) k"

text \<open>
  A call in the middle of a wait: a sleep, a select, the bytes that are left of a transfer with the address of the
  next one and the stream, or the byte for a driver.
\<close>

datatype pending = Sleeping | Selecting | Reading nat ptr ptr | Writing nat ptr ptr | Notifying ptr

datatype sys_result = Returns thread_state kernel | Waits pending kernel

definition ret :: "int \<Rightarrow> thread_state \<Rightarrow> kernel \<Rightarrow> sys_result" where
  "ret r st k = Returns (st\<lparr>st_eax := of_int r\<rparr>) k"

definition read_on :: "nat \<Rightarrow> nat \<Rightarrow> ptr \<Rightarrow> ptr \<Rightarrow> thread_state \<Rightarrow> kernel \<Rightarrow> sys_result res" where
  "read_on cpu n b d st k =
     bindE (read_loop n b d k) (\<lambda>(rest, k).
     Inr (if rest = 0 then ret 0 st k
          else Waits (Reading rest (b + of_nat (n - rest)) d) (set_wait (sched_cur_thread cpu k) d ReadEvent k)))"

definition write_on :: "nat \<Rightarrow> nat \<Rightarrow> ptr \<Rightarrow> ptr \<Rightarrow> thread_state \<Rightarrow> kernel \<Rightarrow> sys_result res" where
  "write_on cpu n b d st k =
     bindE (write_loop n b d k) (\<lambda>(rest, k).
     Inr (if rest = 0 then ret 0 st k
          else Waits (Writing rest (b + of_nat (n - rest)) d) (set_wait (sched_cur_thread cpu k) d WriteEvent k)))"

definition select_on :: "nat \<Rightarrow> thread_state \<Rightarrow> kernel \<Rightarrow> sys_result" where
  "select_on cpu st k =
     (let r = iostream_select (iodescr (procs k (sched_cur_proc cpu k))) (streams k)
      in if r \<noteq> - 1 then ret r st k else Waits Selecting (set_wait (sched_cur_thread cpu k) 0 SelectEvent k))"

section \<open>Drivers\<close>

definition drivers_init :: "kernel \<Rightarrow> kernel" where
  "drivers_init k = k\<lparr>handlers := (\<lambda>i. if i < 256 then 0 else handlers k i)\<rparr>"

text \<open>
  \<open>driver_irq_notify\<close> writes one byte, the first of \<^verbatim>\<open>"int"\<close>. With a full stream it is the interrupted
  thread that has to wait.
\<close>

datatype notify_result = INT_OK | INT_ERROR | INT_WAITS ptr

definition notify_on :: "nat \<Rightarrow> ptr \<Rightarrow> kernel \<Rightarrow> (notify_result \<times> kernel) res" where
  "notify_on cpu d k =
     (if stream_write_length (streams k d) = 0 then Inr (INT_WAITS d, set_wait (sched_cur_thread cpu k) d WriteEvent k)
      else bindE (stream_put 105 (streams k d)) (\<lambda>s. Inr (INT_OK, k\<lparr>streams := (streams k)(d := s)\<rparr>)))"

definition driver_irq_notify :: "nat \<Rightarrow> nat \<Rightarrow> kernel \<Rightarrow> (notify_result \<times> kernel) res" where
  "driver_irq_notify cpu irq k =
     (if \<not> irq < 256 then Inl OutOfBounds
      else let d = handlers k irq in
      if d = 0 then Inr (INT_ERROR, k) else notify_on cpu d k)"

definition driver_register :: "ptr \<Rightarrow> uint32 \<Rightarrow> kernel \<Rightarrow> (int \<times> kernel) res" where
  "driver_register p irq k =
     (if unat irq < 256
      then bindE (stream_alloc k) (\<lambda>(d, k).
        let k = k\<lparr>handlers := (handlers k)(unat irq := d)\<rparr> in
        case attach p d d k of (r, k) \<Rightarrow> Inr (r, interrupts_register_handler (ucast irq) DriverNotify k))
      else Inl OutOfBounds)"

section \<open>The calls\<close>

abbreviation (input) SYSCALL_EXIT :: uint32 where "SYSCALL_EXIT \<equiv> 0"
abbreviation (input) SYSCALL_WAIT :: uint32 where "SYSCALL_WAIT \<equiv> 1"
abbreviation (input) SYSCALL_CONNECT :: uint32 where "SYSCALL_CONNECT \<equiv> 2"
abbreviation (input) SYSCALL_SELECT :: uint32 where "SYSCALL_SELECT \<equiv> 3"
abbreviation (input) SYSCALL_REGISTER :: uint32 where "SYSCALL_REGISTER \<equiv> 4"
abbreviation (input) SYSCALL_READ :: uint32 where "SYSCALL_READ \<equiv> 5"
abbreviation (input) SYSCALL_WRITE :: uint32 where "SYSCALL_WRITE \<equiv> 6"
abbreviation (input) SYSCALL_MMAP :: uint32 where "SYSCALL_MMAP \<equiv> 7"
abbreviation (input) SYSCALL_HANDLE :: uint32 where "SYSCALL_HANDLE \<equiv> 8"
abbreviation (input) SYSCALL_PEEK :: uint32 where "SYSCALL_PEEK \<equiv> 9"
abbreviation (input) SYSCALL_TIME :: uint32 where "SYSCALL_TIME \<equiv> 10"

definition user_string :: "ptr \<Rightarrow> kernel \<Rightarrow> reader" where
  "user_string p k i = vread8 (p + of_nat i) k"

definition sys_connect :: "nat \<Rightarrow> ptr \<Rightarrow> ptr \<Rightarrow> kernel \<Rightarrow> (int \<times> kernel) res" where
  "sys_connect fuel cur_proc name k =
     bindE (proc_get_by_name fuel (user_string name k) k) (\<lambda>target_proc.
     if target_proc \<noteq> 0
     then bindE (stream_alloc k) (\<lambda>(inp, k).
          bindE (stream_alloc k) (\<lambda>(outp, k).
          case attach target_proc outp inp k of (_, k) \<Rightarrow> Inr (attach cur_proc inp outp k)))
     else Inr (- 1, k))"

definition syscall :: "nat \<Rightarrow> nat \<Rightarrow> thread_state \<Rightarrow> kernel \<Rightarrow> sys_result res" where
  "syscall fuel cpu st k =
     (let n = st_eax st;
          cur_proc = sched_cur_proc cpu k in
      if n = SYSCALL_EXIT then Inr (ret (- 1) st k)
      else if n = SYSCALL_WAIT then
        (if 0 < st_ebx st
         then case sched_thread_sleep cpu (st_ebx st) k of (ok, k) \<Rightarrow> Inr (if ok then ret (- 1) st k else Waits Sleeping k)
         else Inr (ret (- 1) st k))
      else if n = SYSCALL_REGISTER then
        bindE (proc_register cur_proc (user_string (st_ebx st) k) k) (\<lambda>(r, k). Inr (ret r st k))
      else if n = SYSCALL_CONNECT then
        bindE (sys_connect fuel cur_proc (st_ebx st) k) (\<lambda>(r, k). Inr (ret r st k))
      else if n = SYSCALL_SELECT then
        Inr (select_on cpu st k)
      else if n = SYSCALL_READ then
        bindE (descriptor (st_ebx st) cur_proc k) (\<lambda>io. read_on cpu (unat (st_edx st)) (st_ecx st) (io_input io) st k)
      else if n = SYSCALL_WRITE then
        bindE (descriptor (st_ebx st) cur_proc k) (\<lambda>io. write_on cpu (unat (st_edx st)) (st_ecx st) (io_output io) st k)
      else if n = SYSCALL_MMAP then
        bindE (paging_map (st_ebx st) (st_ecx st) (PAGE_USERMODE OR PAGE_WRITABLE OR PAGE_PRESENT) k) (\<lambda>k.
        Inr (ret (- 1) st k))
      else if n = SYSCALL_HANDLE then
        bindE (driver_register cur_proc (st_ebx st) k) (\<lambda>(r, k). Inr (ret r st k))
      else if n = SYSCALL_PEEK then
        bindE (descriptor (st_ebx st) cur_proc k) (\<lambda>io.
        bindE (stream_at (io_input io) k) (\<lambda>s. Inr (ret (uint (stream_read_length s)) st k)))
      else if n = SYSCALL_TIME then Inr (ret (uint (timer_get_ticks k)) st k)
      else Inr (ret (- 1) st k))"

definition syscalls_init :: "kernel \<Rightarrow> kernel" where
  "syscalls_init k = interrupts_register_handler 80 Syscall k"

text \<open>
  The thread has the CPU again: the loop of \<open>sched_thread_wait\<close> gives it away once more while the event
  does not hold, then the call goes on. The loop of \<open>SELECT\<close> asks for its streams at once.
\<close>

definition notified :: "thread_state \<Rightarrow> notify_result \<times> kernel \<Rightarrow> sys_result" where
  "notified st x = (case x of (INT_WAITS d, k) \<Rightarrow> Waits (Notifying d) k | (_, k) \<Rightarrow> Returns st k)"

fun resume_call :: "nat \<Rightarrow> pending \<Rightarrow> thread_state \<Rightarrow> kernel \<Rightarrow> sys_result res" where
  "resume_call cpu Sleeping st k = Inr (ret (- 1) st k)"
| "resume_call cpu Selecting st k = Inr (select_on cpu st k)"
| "resume_call cpu (Reading n b d) st k = read_on cpu n b d st k"
| "resume_call cpu (Writing n b d) st k = write_on cpu n b d st k"
| "resume_call cpu (Notifying d) st k = bindE (notify_on cpu d k) (\<lambda>x. Inr (notified st x))"

definition still_waits :: "ptr \<Rightarrow> kernel \<Rightarrow> bool" where
  "still_waits th k = (case event (threads k th) of None \<Rightarrow> False | Some e \<Rightarrow> \<not> event_holds e th k)"

definition syscall_resume :: "nat \<Rightarrow> pending \<Rightarrow> thread_state \<Rightarrow> kernel \<Rightarrow> sys_result res" where
  "syscall_resume cpu w st k =
     (let th = sched_cur_thread cpu k in
      if w = Selecting then resume_call cpu w st k
      else if still_waits th k then Inr (Waits w k)
      else resume_call cpu w st (set_thread th (\<lambda>t. t\<lparr>event := None\<rparr>) k))"

section \<open>Dispatch\<close>

text \<open>
  \<open>irq_handler\<close> sets the task priority, acknowledges an interrupt of a device and calls the registered
  handler; the handler for unexpected interrupts prints a message and halts
  the CPU.
\<close>

definition irq_handler :: "device \<Rightarrow> nat \<Rightarrow> nat \<Rightarrow> thread_state \<Rightarrow> kernel \<Rightarrow> sys_result res" where
  "irq_handler dev fuel cpu st k =
     (let r = lapic_set 0x80 (st_int_id st) (lapics k cpu);
          r = (if 0x20 < st_int_id st then lapic_set 0xB0 0 r else r);
          k = k\<lparr>lapics := (lapics k)(cpu := r)\<rparr>;
          n = unat (st_int_id st) in
      if \<not> n < 256 then Inl OutOfBounds
      else case int_handlers k n of
        Unhandled \<Rightarrow> Inl Diverges
      | Ignored \<Rightarrow> Inr (Returns st k)
      | Keyboard \<Rightarrow> Inr (Returns st (k\<lparr>io_log := snd (port_read_8 dev 0x60 (io_log k))\<rparr>))
      | Tick \<Rightarrow> Inr (Returns st (tick_handler dev k))
      | SchedTick \<Rightarrow> bindE (sched_tick fuel cpu k) (\<lambda>k. Inr (Returns st k))
      | Syscall \<Rightarrow> syscall fuel cpu st k
      | DriverNotify \<Rightarrow> bindE (driver_irq_notify cpu n k) (\<lambda>x. Inr (notified st x)))"

text \<open>\<open>scheduler_init\<close> and \<open>scheduling_init\<close> of \<^verbatim>\<open>kernel/scheduler.c\<close>; \<open>idle\<close> is the address of \<open>sched_idle_loop\<close>.\<close>

definition scheduler_init :: "uint32 \<Rightarrow> uint32 \<Rightarrow> uint32 \<Rightarrow> nat \<Rightarrow> kernel \<Rightarrow> kernel res" where
  "scheduler_init kpdir leave_kernel idle i k =
     (let k = set_sched i (\<lambda>_. \<lparr>prio_queues = (\<lambda>_. []), idle_thread = 0, current_thread = 0, next_thread = 0,
            waiting_threads = [], load = 0, started = 0\<rparr>) k in
      bindE (proc_get_by_pid 0 k) (\<lambda>p.
      bindE (thread_create kpdir leave_kernel p idle THREAD_KERNEL k) (\<lambda>(t, k).
      Inr (set_sched i (\<lambda>s. s\<lparr>idle_thread := t, current_thread := t, started := 0\<rparr>) k))))"

fun scheduling_loop :: "nat \<Rightarrow> uint32 \<Rightarrow> uint32 \<Rightarrow> uint32 \<Rightarrow> kernel \<Rightarrow> kernel res" where
  "scheduling_loop 0 kpdir leave_kernel idle k = Inr k"
| "scheduling_loop (Suc n) kpdir leave_kernel idle k =
     bindE (scheduler_init kpdir leave_kernel idle (MAX_CPU - Suc n) k) (scheduling_loop n kpdir leave_kernel idle)"

definition scheduling_init :: "uint32 \<Rightarrow> uint32 \<Rightarrow> uint32 \<Rightarrow> kernel \<Rightarrow> kernel res" where
  "scheduling_init kpdir leave_kernel idle k =
     scheduling_loop MAX_CPU kpdir leave_kernel idle (interrupts_register_handler 128 SchedTick k)"

section \<open>Writing and reading\<close>

lemma vread8_streams [simp]: "vread8 v (k\<lparr>streams := s\<rparr>) = vread8 v k"
  by (rule kmem_ok_cong) simp_all

lemma write_loop_eq:
  assumes "d \<noteq> 0" "stream_ok (streams k d)" "length bs = n" "\<forall>i<n. vread8 (b + of_nat i) k = Inr (bs ! i)"
  shows "\<exists>s. write_loop n b d k = Inr (n - (1022 - stored (streams k d)), k\<lparr>streams := (streams k)(d := s)\<rparr>) \<and> stream_ok s \<and>
    stream_contents s = stream_contents (streams k d) @ take (1022 - stored (streams k d)) bs"
  using assms
proof (induction n arbitrary: b k bs)
  case 0
  then show ?case by (intro exI [of _ "streams k d"]) simp
next
  case (Suc n)
  let ?s = "streams k d"
  obtain c cs where bs: "bs = c # cs" using Suc.prems(3) by (cases bs) auto
  show ?case
  proof (cases "stored ?s = 1022")
    case True
    then show ?thesis using Suc.prems lengths_zero(2) [OF Suc.prems(2)]
      by (intro exI [of _ ?s]) (simp add: stream_at_def)
  next
    case False
    then have room: "stored ?s < 1022" using stored_le [OF Suc.prems(2)] by simp
    obtain s1 where s1: "stream_put c ?s = Inr s1" "stream_ok s1" "stream_contents s1 = stream_contents ?s @ [c]" "stored s1 = Suc (stored ?s)"
      using stream_put_ok [OF Suc.prems(2) room] by blast
    let ?k = "k\<lparr>streams := (streams k)(d := s1)\<rparr>"
    have "vread8 b k = Inr c" using Suc.prems(4) [rule_format, of 0] bs by simp
    then have step: "write_loop (Suc n) b d k = write_loop n (b + 1) d ?k"
      using Suc.prems(1) False lengths_zero(2) [OF Suc.prems(2)] s1(1) by (simp add: stream_at_def)
    have "\<forall>i<n. vread8 (b + 1 + of_nat i) ?k = Inr (cs ! i)"
    proof (intro allI impI)
      fix i assume "i < n"
      then show "vread8 (b + 1 + of_nat i) ?k = Inr (cs ! i)" using Suc.prems(4) [rule_format, of "Suc i"] bs by (simp add: add.assoc)
    qed
    then have "\<exists>s. write_loop n (b + 1) d ?k = Inr (n - (1022 - stored (streams ?k d)), ?k\<lparr>streams := (streams ?k)(d := s)\<rparr>) \<and> stream_ok s \<and>
        stream_contents s = stream_contents (streams ?k d) @ take (1022 - stored (streams ?k d)) cs"
      using Suc.prems(1,3) s1(2) bs by (intro Suc.IH) simp_all
    then obtain s where s: "write_loop n (b + 1) d ?k = Inr (n - (1022 - stored (streams ?k d)), ?k\<lparr>streams := (streams ?k)(d := s)\<rparr>)"
        "stream_ok s" "stream_contents s = stream_contents (streams ?k d) @ take (1022 - stored (streams ?k d)) cs"
      by blast
    have "1022 - stored ?s = Suc (1022 - stored s1)" using room s1(4) by simp
    then show ?thesis using step s s1(3) bs by (intro exI [of _ s]) (simp add: fun_upd_def cong: if_cong)
  qed
qed

text \<open>
  A write and its continuation: what fits is appended to the stream, in order, and with more than that the thread
  waits for the stream with exactly the rest.
\<close>

definition wrote :: "nat \<Rightarrow> ptr \<Rightarrow> ptr \<Rightarrow> uint8 list \<Rightarrow> thread_state \<Rightarrow> kernel \<Rightarrow> sys_result res \<Rightarrow> bool" where
  "wrote cpu b d bs st k r \<longleftrightarrow>
     (\<exists>s. let n = length bs; m = min n (1022 - stored (streams k d)); k' = k\<lparr>streams := (streams k)(d := s)\<rparr> in
      stream_ok s \<and> stream_contents s = stream_contents (streams k d) @ take m bs \<and>
      r = Inr (if m = n then ret 0 st k'
        else Waits (Writing (n - m) (b + of_nat m) d) (set_wait (sched_cur_thread cpu k) d WriteEvent k')))"

lemma write_on_ok:
  assumes d: "d \<noteq> 0" "stream_ok (streams k d)" and bs: "length bs = n" "\<forall>i<n. vread8 (b + of_nat i) k = Inr (bs ! i)"
  shows "wrote cpu b d bs st k (write_on cpu n b d st k)"
proof -
  define m where "m = min n (1022 - stored (streams k d))"
  obtain s where s: "write_loop n b d k = Inr (n - (1022 - stored (streams k d)), k\<lparr>streams := (streams k)(d := s)\<rparr>)" "stream_ok s"
      "stream_contents s = stream_contents (streams k d) @ take (1022 - stored (streams k d)) bs"
    using write_loop_eq [OF d bs] by blast
  have m: "n - (1022 - stored (streams k d)) = n - m" "n - (n - m) = m" "(n - m = 0) = (m = n)" "take (1022 - stored (streams k d)) bs = take m bs"
    using bs(1) by (auto simp: m_def min_def)
  show ?thesis unfolding wrote_def Let_def bs(1) m_def [symmetric]
    using s m by (intro exI [of _ s]) (simp add: write_on_def sched_cur_thread_def)
qed

text \<open>
  A buffer of a process: its bytes are mapped, to places that are all different and neither free frames
  nor page tables.
\<close>

definition buffer_at :: "ptr \<Rightarrow> nat \<Rightarrow> kernel \<Rightarrow> bool" where
  "buffer_at b n k \<longleftrightarrow>
     (\<forall>i<n. b + of_nat i < HEAP_LIMIT \<and> (\<exists>p. mmu_translate (b + of_nat i) k = Some p \<and> private_at p k)) \<and>
     (\<forall>i<n. \<forall>j<n. mmu_translate (b + of_nat i) k = mmu_translate (b + of_nat j) k \<longrightarrow> i = j)"

lemma kmem_streams [simp]:
  "kmem_ok (k\<lparr>streams := s\<rparr>) = kmem_ok k" "mmu_translate v (k\<lparr>streams := s\<rparr>) = mmu_translate v k"
  "private_at p (k\<lparr>streams := s\<rparr>) = private_at p k" "buffer_at b n (k\<lparr>streams := s\<rparr>) = buffer_at b n k"
proof -
  show "kmem_ok (k\<lparr>streams := s\<rparr>) = kmem_ok k" by (rule kmem_ok_cong) simp_all
  show t: "mmu_translate v (k\<lparr>streams := s\<rparr>) = mmu_translate v k" for v by (rule kmem_ok_cong) simp_all
  show p: "private_at p (k\<lparr>streams := s\<rparr>) = private_at p k" for p by (simp add: private_at_def frames_def pdir_def pde_def)
  show "buffer_at b n (k\<lparr>streams := s\<rparr>) = buffer_at b n k" by (simp add: buffer_at_def t p)
qed

lemma buffer_at_first:
  assumes "buffer_at b (Suc n) k"
  shows "b < HEAP_LIMIT" "\<exists>p. mmu_translate b k = Some p \<and> private_at p k"
    "i < n \<Longrightarrow> b + of_nat (Suc i) < HEAP_LIMIT" "i < n \<Longrightarrow> mmu_translate (b + of_nat (Suc i)) k \<noteq> mmu_translate b k"
proof -
  have a: "i < Suc n \<Longrightarrow> b + of_nat i < HEAP_LIMIT \<and> (\<exists>p. mmu_translate (b + of_nat i) k = Some p \<and> private_at p k)"
    and inj: "i < Suc n \<Longrightarrow> j < Suc n \<Longrightarrow> mmu_translate (b + of_nat i) k = mmu_translate (b + of_nat j) k \<Longrightarrow> i = j" for i j
    using assms unfolding buffer_at_def by blast+
  show "b < HEAP_LIMIT" "\<exists>p. mmu_translate b k = Some p \<and> private_at p k" using a [of 0] by simp_all
  show "i < n \<Longrightarrow> b + of_nat (Suc i) < HEAP_LIMIT" using a [of "Suc i"] by simp
  show "i < n \<Longrightarrow> mmu_translate (b + of_nat (Suc i)) k \<noteq> mmu_translate b k" using inj [of "Suc i" 0] by (auto simp del: of_nat_Suc)
qed

lemma buffer_at_next:
  assumes "buffer_at b (Suc n) k" "\<forall>q. private_at q k' = private_at q k" "\<forall>w. w < HEAP_LIMIT \<longrightarrow> mmu_translate w k' = mmu_translate w k"
  shows "buffer_at (b + 1) n k'"
proof -
  have b: "b + 1 + of_nat i = b + of_nat (Suc i)" for i by (simp add: add.assoc)
  have tr: "mmu_translate (b + of_nat i) k' = mmu_translate (b + of_nat i) k" "b + of_nat i < HEAP_LIMIT"
      "\<exists>p. mmu_translate (b + of_nat i) k = Some p \<and> private_at p k" if "i < Suc n" for i
    using assms that by (auto simp: buffer_at_def)
  have inj: "mmu_translate (b + of_nat i) k = mmu_translate (b + of_nat j) k \<Longrightarrow> i = j" if "i < Suc n" "j < Suc n" for i j
    using assms(1) that unfolding buffer_at_def by blast
  show ?thesis unfolding buffer_at_def b using assms(2) tr inj [of "Suc _" "Suc _"] by (metis Suc_mono nat.inject)
qed

lemma read_loop_eq:
  assumes "d \<noteq> 0" "stream_ok (streams k d)" "kmem_ok k" "buffer_at b n k"
  shows "\<exists>s m. let k' = k\<lparr>streams := (streams k)(d := s), phys_mem := m\<rparr>; xs = stream_contents (streams k d) in
    read_loop n b d k = Inr (n - length xs, k') \<and> stream_ok s \<and> stream_contents s = drop n xs \<and> kmem_ok k' \<and>
    (\<forall>i<min n (length xs). vread8 (b + of_nat i) k' = Inr (xs ! i)) \<and>
    (\<forall>w q. w < HEAP_LIMIT \<longrightarrow> mmu_translate w k = Some q \<longrightarrow> (\<forall>i<n. mmu_translate (b + of_nat i) k \<noteq> Some q) \<longrightarrow>
       vread8 w k' = vread8 w k)"
  using assms
proof (induction n arbitrary: b k)
  case 0
  then show ?case by (intro exI [of _ "streams k d"] exI [of _ "phys_mem k"]) (simp add: Let_def)
next
  case (Suc n)
  let ?xs = "stream_contents (streams k d)"
  show ?case
  proof (cases ?xs)
    case Nil
    then have "stream_read_length (streams k d) = 0" using lengths_zero(1) [OF Suc.prems(2)] length_contents [of "streams k d"] by simp
    then show ?thesis using Suc.prems Nil
      by (intro exI [of _ "streams k d"] exI [of _ "phys_mem k"]) (simp add: stream_at_def Let_def)
  next
    case (Cons x xs)
    obtain s1 where s1: "stream_get (streams k d) = Inr (x, s1)" "stream_ok s1" "stream_contents s1 = xs"
      using stream_get_ok [OF Suc.prems(2) Cons] by blast
    obtain p where p: "mmu_translate b k = Some p" "private_at p k" "b < HEAP_LIMIT"
      using buffer_at_first(1,2) [OF Suc.prems(4)] by blast
    let ?k = "k\<lparr>streams := (streams k)(d := s1)\<rparr>"
    obtain m where m: "vwrite8 b x ?k = Inr (?k\<lparr>phys_mem := m\<rparr>)" "kmem_ok (?k\<lparr>phys_mem := m\<rparr>)"
        "\<forall>q. private_at q (?k\<lparr>phys_mem := m\<rparr>) = private_at q ?k"
        "\<forall>w. w < HEAP_LIMIT \<longrightarrow> mmu_translate w (?k\<lparr>phys_mem := m\<rparr>) = mmu_translate w ?k"
        "\<forall>w q. w < HEAP_LIMIT \<longrightarrow> mmu_translate w ?k = Some q \<longrightarrow> vread8 w (?k\<lparr>phys_mem := m\<rparr>) = (if q = p then Inr x else vread8 w ?k)"
      using vwrite8_private [of ?k b p x] p Suc.prems(3) by auto
    define k1 where "k1 = ?k\<lparr>phys_mem := m\<rparr>"
    note m = m [folded k1_def]
    have k1: "streams k1 = (streams k)(d := s1)" by (simp add: k1_def)
    have tr: "mmu_translate w k1 = mmu_translate w k" if "w < HEAP_LIMIT" for w using m(4) that by simp
    have buf: "buffer_at (b + 1) n k1" using buffer_at_next [OF Suc.prems(4)] m(3,4) by simp
    have "stream_read_length (streams k d) \<noteq> 0" using lengths_zero(1) [OF Suc.prems(2)] length_contents [of "streams k d"] Cons by simp
    then have step: "read_loop (Suc n) b d k = read_loop n (b + 1) d k1" using Suc.prems(1) s1(1) m(1) by (simp add: stream_at_def)
    have sk: "stream_ok (streams k1 d)" "stream_contents (streams k1 d) = xs" using s1(2,3) k1 by simp_all
    from Suc.IH [OF Suc.prems(1) sk(1) m(2) buf, unfolded Let_def sk(2)] obtain s m' where IH:
        "read_loop n (b + 1) d k1 = Inr (n - length xs, k1\<lparr>streams := (streams k1)(d := s), phys_mem := m'\<rparr>)" "stream_ok s"
        "stream_contents s = drop n xs" "kmem_ok (k1\<lparr>streams := (streams k1)(d := s), phys_mem := m'\<rparr>)"
        "\<And>i. i < min n (length xs) \<Longrightarrow> vread8 (b + 1 + of_nat i) (k1\<lparr>streams := (streams k1)(d := s), phys_mem := m'\<rparr>) = Inr (xs ! i)"
        "\<And>w q. w < HEAP_LIMIT \<Longrightarrow> mmu_translate w k1 = Some q \<Longrightarrow> \<forall>i<n. mmu_translate (b + 1 + of_nat i) k1 \<noteq> Some q \<Longrightarrow>
          vread8 w (k1\<lparr>streams := (streams k1)(d := s), phys_mem := m'\<rparr>) = vread8 w k1"
      by blast
    let ?k' = "k\<lparr>streams := (streams k)(d := s), phys_mem := m'\<rparr>"
    have eq: "k1\<lparr>streams := (streams k1)(d := s), phys_mem := m'\<rparr> = ?k'" by (simp add: k1_def)
    note IH = IH [unfolded eq]
    have b: "b + 1 + of_nat i = b + of_nat (Suc i)" for i by (simp add: add.assoc)
    note lim = buffer_at_first(3) [OF Suc.prems(4)]
    have first: "mmu_translate (b + 1 + of_nat i) k1 \<noteq> Some p" if "i < n" for i
      unfolding b tr [OF lim [OF that]] p(1) [symmetric] by (rule buffer_at_first(4) [OF Suc.prems(4) that])
    have "vread8 b ?k' = Inr x" using IH(6) [OF p(3), of p] first p tr [OF p(3)] m(5) by simp
    then have new: "vread8 (b + of_nat i) ?k' = Inr (?xs ! i)" if "i < min (Suc n) (length ?xs)" for i
      using IH(5) [of "i - 1"] that Cons by (cases i) (simp_all add: add.assoc)
    have old: "vread8 w ?k' = vread8 w k"
      if w: "w < HEAP_LIMIT" "mmu_translate w k = Some q" "\<forall>i<Suc n. mmu_translate (b + of_nat i) k \<noteq> Some q" for w q
    proof -
      have "mmu_translate (b + 1 + of_nat i) k1 \<noteq> Some q" if "i < n" for i
        unfolding b tr [OF lim [OF that]] using w(3) that by blast
      moreover have "q \<noteq> p" using w(3) [rule_format, of 0] p(1) by simp
      ultimately show ?thesis using IH(6) [OF w(1), of q] tr [OF w(1)] w(1,2) m(5) by simp
    qed
    have c: "n - length xs = Suc n - length ?xs" "drop n xs = drop (Suc n) ?xs" using Cons by simp_all
    show ?thesis unfolding Let_def using step IH(1-4) [unfolded c] new old by (intro exI [of _ s] exI [of _ m'] conjI) (simp_all only:, blast+)
  qed
qed

text \<open>
  A read and its continuation: as many bytes as the stream has and the buffer takes go from one to the other,
  in order, no other memory below the window of the page tables changes, and with fewer than asked for the
  thread waits with exactly the rest of the buffer.
\<close>

definition fetched :: "nat \<Rightarrow> nat \<Rightarrow> ptr \<Rightarrow> ptr \<Rightarrow> thread_state \<Rightarrow> kernel \<Rightarrow> sys_result res \<Rightarrow> bool" where
  "fetched cpu n b d st k res \<longleftrightarrow>
     (\<exists>s m. let k' = k\<lparr>streams := (streams k)(d := s), phys_mem := m\<rparr>; xs = stream_contents (streams k d); r = min n (length xs) in
      stream_ok s \<and> stream_contents s = drop r xs \<and> kmem_ok k' \<and> (\<forall>i<r. vread8 (b + of_nat i) k' = Inr (xs ! i)) \<and>
      (\<forall>w q. w < HEAP_LIMIT \<longrightarrow> mmu_translate w k = Some q \<longrightarrow> (\<forall>i<n. mmu_translate (b + of_nat i) k \<noteq> Some q) \<longrightarrow>
         vread8 w k' = vread8 w k) \<and>
      res = Inr (if r = n then ret 0 st k'
        else Waits (Reading (n - r) (b + of_nat r) d) (set_wait (sched_cur_thread cpu k) d ReadEvent k')))"

lemma read_on_ok:
  assumes "d \<noteq> 0" "stream_ok (streams k d)" "kmem_ok k" "buffer_at b n k"
  shows "fetched cpu n b d st k (read_on cpu n b d st k)"
proof -
  obtain s m where s: "read_loop n b d k = Inr (n - length (stream_contents (streams k d)), k\<lparr>streams := (streams k)(d := s), phys_mem := m\<rparr>)"
      "stream_ok s" "stream_contents s = drop n (stream_contents (streams k d))" "kmem_ok (k\<lparr>streams := (streams k)(d := s), phys_mem := m\<rparr>)"
      "\<forall>i<min n (length (stream_contents (streams k d))). vread8 (b + of_nat i) (k\<lparr>streams := (streams k)(d := s), phys_mem := m\<rparr>) =
        Inr (stream_contents (streams k d) ! i)"
      "\<forall>w q. w < HEAP_LIMIT \<longrightarrow> mmu_translate w k = Some q \<longrightarrow> (\<forall>i<n. mmu_translate (b + of_nat i) k \<noteq> Some q) \<longrightarrow>
       vread8 w (k\<lparr>streams := (streams k)(d := s), phys_mem := m\<rparr>) = vread8 w k"
    using read_loop_eq [OF assms] unfolding Let_def by blast
  define xs where "xs = stream_contents (streams k d)"
  define r where "r = min n (length xs)"
  have r: "n - length xs = n - r" "n - (n - r) = r" "(n - r = 0) = (r = n)" "drop n xs = drop r xs"
    by (auto simp: r_def min_def)
  note s = s [folded xs_def, folded r_def]
  show ?thesis unfolding fetched_def Let_def xs_def [symmetric] r_def [symmetric]
    using s r by (intro exI [of _ s] exI [of _ m]) (simp add: read_on_def sched_cur_thread_def)
qed

text \<open>A thread that runs again has no event, and its memory and the streams are as before.\<close>

lemma set_thread_cong:
  "vread8 v (set_thread th f k) = vread8 v k" "kmem_ok (set_thread th f k) = kmem_ok k" "buffer_at b n (set_thread th f k) = buffer_at b n k"
  "streams (set_thread th f k) = streams k"
proof -
  show "vread8 v (set_thread th f k) = vread8 v k" "kmem_ok (set_thread th f k) = kmem_ok k"
    by (rule kmem_ok_cong; simp add: set_thread_def)+
  have "mmu_translate w (set_thread th f k) = mmu_translate w k" "private_at p (set_thread th f k) = private_at p k" for w p
    by (simp_all add: set_thread_def mmu_translate_def pte_slot_def private_at_def frames_def pdir_def pde_def)
  then show "buffer_at b n (set_thread th f k) = buffer_at b n k" by (simp add: buffer_at_def)
  show "streams (set_thread th f k) = streams k" by (simp add: set_thread_def)
qed

section \<open>Connecting\<close>

lemma stream_alloc_ok:
  assumes "room_for (Suc n) k"
  obtains p k1 where "got_block 1028 k p k1" "kmem.more k1 = kmem.more k"
    "stream_alloc k = Inr (p, k1\<lparr>streams := (streams k)(p := stream_new)\<rparr>)"
    "room_for n (k1\<lparr>streams := (streams k)(p := stream_new)\<rparr>)"
proof -
  have "kmem_ok k" "mem_lock k = 0" "can_alloc 1028 k" using room_for_alloc [OF assms, of 1028] by simp_all
  then obtain p k1 where p: "new_object 2 1028 k = Inr (p, k1)" "got_block 1028 k p k1"
    using new_object_ok [of k 1028 2] small_level(2) [of 1028] by auto
  have m: "kmem.more k1 = kmem.more k" using p(1) by (rule new_object_more)
  have "room_for n k1" using room_for_next [OF assms _ p(2)] by simp
  moreover have "room_for n (k1\<lparr>streams := (streams k)(p := stream_new)\<rparr>) = room_for n k1" by (rule room_for_cong) simp_all
  moreover have "stream_alloc k = Inr (p, k1\<lparr>streams := (streams k)(p := stream_new)\<rparr>)"
    using p(1) kernel_more(3) [OF m] by (simp add: stream_alloc_def)
  ultimately show ?thesis using that [OF p(2) m] by blast
qed

text \<open>Two blocks that were handed out one after the other are different.\<close>

lemma attach_eq:
  assumes "used_slots (iodescr (procs k p)) n" "n < MAX_DESCRIPTORS" "inp \<noteq> 0"
  shows "attach p inp outp k = (int n, set_proc p (\<lambda>x. x\<lparr>iodescr := (iodescr x)(n := \<lparr>io_input = inp, io_output = outp\<rparr>)\<rparr>) k)"
  using iostream_attach_ok(1) [OF assms(1,3), of outp] assms(2) by (simp add: attach_def set_proc_def)

lemma set_proc_simps [simp]:
  "procs (set_proc p f k) = (procs k)(p := f (procs k p))" "streams (set_proc p f k) = streams k"
  "schedulers (set_proc p f k) = schedulers k" "threads (set_proc p f k) = threads k" "processes (set_proc p f k) = processes k"
  by (simp_all add: set_proc_def)

lemma sys_connect_ok:
  assumes room: "room_for 2 k" and name: "proc_get_by_name fuel (user_string nm k) k = Inr q" and q: "q \<noteq> 0" "q \<noteq> p"
    and sp: "used_slots (iodescr (procs k p)) n" "n < MAX_DESCRIPTORS"
    and sq: "used_slots (iodescr (procs k q)) m" "m < MAX_DESCRIPTORS"
  shows "\<exists>inp outp k'. sys_connect fuel p nm k = Inr (int n, k') \<and> inp \<noteq> 0 \<and> outp \<noteq> 0 \<and> inp \<noteq> outp \<and>
    iodescr (procs k' p) = (iodescr (procs k p))(n := \<lparr>io_input = inp, io_output = outp\<rparr>) \<and>
    iodescr (procs k' q) = (iodescr (procs k q))(m := \<lparr>io_input = outp, io_output = inp\<rparr>) \<and>
    streams k' = (streams k)(inp := stream_new, outp := stream_new) \<and> schedulers k' = schedulers k \<and> threads k' = threads k"
proof -
  have "room_for (Suc 1) k" using room by (simp add: numeral_2_eq_2)
  then obtain inp k1 where i: "got_block 1028 k inp k1" "kmem.more k1 = kmem.more k"
      "stream_alloc k = Inr (inp, k1\<lparr>streams := (streams k)(inp := stream_new)\<rparr>)"
      "room_for 1 (k1\<lparr>streams := (streams k)(inp := stream_new)\<rparr>)"
    by (rule stream_alloc_ok)
  let ?k1 = "k1\<lparr>streams := (streams k)(inp := stream_new)\<rparr>"
  have "room_for (Suc 0) ?k1" using i(4) by simp
  then obtain outp k2 where o: "got_block 1028 ?k1 outp k2" "kmem.more k2 = kmem.more ?k1"
      "stream_alloc ?k1 = Inr (outp, k2\<lparr>streams := (streams ?k1)(outp := stream_new)\<rparr>)"
    by (rule stream_alloc_ok)
  let ?k2 = "k2\<lparr>streams := (streams ?k1)(outp := stream_new)\<rparr>"
  have ne: "inp \<noteq> 0" "outp \<noteq> 0" "inp \<noteq> outp" using got_blockD(1) [OF i(1)] got_blockD(1) [OF o(1)] two_blocks [OF i(1) o(1)] by simp_all
  have same: "procs ?k2 = procs k" "schedulers ?k2 = schedulers k" "threads ?k2 = threads k"
    using kernel_more [OF i(2)] kernel_more [OF o(2)] by simp_all
  let ?k3 = "set_proc q (\<lambda>x. x\<lparr>iodescr := (iodescr x)(m := \<lparr>io_input = outp, io_output = inp\<rparr>)\<rparr>) ?k2"
  have "attach q outp inp ?k2 = (int m, ?k3)" using attach_eq [of ?k2 q m outp inp] sq ne same by simp
  moreover have "attach p inp outp ?k3 =
      (int n, set_proc p (\<lambda>x. x\<lparr>iodescr := (iodescr x)(n := \<lparr>io_input = inp, io_output = outp\<rparr>)\<rparr>) ?k3)"
    using attach_eq [of ?k3 p n inp outp] sp ne same q(2) by simp
  ultimately have "sys_connect fuel p nm k =
      Inr (int n, set_proc p (\<lambda>x. x\<lparr>iodescr := (iodescr x)(n := \<lparr>io_input = inp, io_output = outp\<rparr>)\<rparr>) ?k3)"
    using name q(1) i(3) o(3) by (simp add: sys_connect_def)
  then show ?thesis using ne same q(2) by (intro exI [of _ inp] exI [of _ outp]) (simp add: fun_upd_twist)
qed

section \<open>A scheduler starts\<close>

text \<open>A scheduler that runs its idle thread and has nothing else to do.\<close>

definition idle_sched :: "ptr \<Rightarrow> scheduler" where
  "idle_sched t = \<lparr>prio_queues = (\<lambda>_. []), idle_thread = t, current_thread = t, next_thread = 0, waiting_threads = [], load = 0, started = 0\<rparr>"

lemma scheduler_init_ok:
  assumes "room_for (n + 3) k"
  shows "\<exists>k' t. scheduler_init kpdir lk idle i k = Inr k' \<and> room_for n k' \<and> taken t k' \<and> (\<forall>b. taken b k \<longrightarrow> taken b k' \<and> b \<noteq> t) \<and>
    schedulers k' = (schedulers k)(i := idle_sched t) \<and> t \<noteq> 0 \<and>
    parent (threads k' t) = processes k 0 \<and> event (threads k' t) = None \<and> thread_eip (threads k' t) = lk \<and>
    (\<forall>b. b \<noteq> t \<longrightarrow> threads k' b = threads k b) \<and> kmem.more k' = kmem.more (k\<lparr>threads := threads k', schedulers := schedulers k'\<rparr>)"
proof -
  let ?s0 = "\<lparr>prio_queues = (\<lambda>_. []), idle_thread = 0, current_thread = 0, next_thread = 0,
            waiting_threads = [], load = 0, started = 0\<rparr> :: scheduler"
  let ?k = "set_sched i (\<lambda>_. ?s0) k"
  have rk: "room_for (n + 3) ?k = room_for (n + 3) k" by (rule room_for_cong) (simp_all add: set_sched_def)
  obtain t k1 tp stk where t: "thread_create kpdir lk (processes k 0) idle THREAD_KERNEL ?k = Inr (t, k1)" "room_for n k1" "t \<noteq> 0"
      "threads k1 = (threads k)(t := zero_thread\<lparr>parent := processes k 0, kernel_stack := tp, thread_eip := lk, thread_esp := tp - 80, stack := stk\<rparr>)"
      "kmem.more k1 = kmem.more (?k\<lparr>threads := threads k1\<rparr>)" "taken t k1" "\<forall>b. taken b ?k \<longrightarrow> taken b k1 \<and> b \<noteq> t"
    using thread_create_kernel [of n ?k kpdir lk "processes k 0" idle] assms rk by auto
  let ?k' = "set_sched i (\<lambda>s. s\<lparr>idle_thread := t, current_thread := t, started := 0\<rparr>) k1"
  have "processes ?k = processes k" by (simp add: set_sched_def)
  then have "scheduler_init kpdir lk idle i k = Inr ?k'"
    using t(1) by (simp add: scheduler_init_def Let_def proc_get_by_pid_def)
  moreover have "room_for n ?k' = room_for n k1" by (rule room_for_cong) (simp_all add: set_sched_def)
  moreover have "schedulers ?k' = (schedulers k)(i := idle_sched t)" 
    using kernel_more(9) [OF t(5)] by (simp add: set_sched_def idle_sched_def)
  moreover have "kmem.more ?k' = kmem.more (k\<lparr>threads := threads ?k', schedulers := schedulers ?k'\<rparr>)"
    using kernel_more_upd(2) [OF t(5)] by (simp add: set_sched_def)
  moreover have "taken b ?k = taken b k" "taken b ?k' = taken b k1" for b by (simp_all add: taken_def set_sched_def)
  ultimately show ?thesis using t
    by (intro exI [of _ ?k'] exI [of _ t]) (auto simp: set_sched_def zero_thread_def)
qed

text \<open>The loop of \<open>scheduling_init\<close>: every CPU from \<open>MAX_CPU - n\<close> on gets an idle thread of its own.\<close>

lemma scheduling_loop_ok:
  assumes "n \<le> MAX_CPU" "room_for (3 * n + r) k"
  shows "\<exists>k' f. scheduling_loop n kpdir lk idle k = Inr k' \<and> room_for r k' \<and> inj_on f {MAX_CPU - n..<MAX_CPU} \<and>
    (\<forall>i\<in>{MAX_CPU - n..<MAX_CPU}. taken (f i) k' \<and> f i \<noteq> 0 \<and> parent (threads k' (f i)) = processes k 0 \<and> event (threads k' (f i)) = None) \<and>
    schedulers k' = (\<lambda>i. if MAX_CPU - n \<le> i \<and> i < MAX_CPU then idle_sched (f i) else schedulers k i) \<and>
    (\<forall>b. taken b k \<longrightarrow> taken b k' \<and> b \<notin> f ` {MAX_CPU - n..<MAX_CPU} \<and> threads k' b = threads k b) \<and>
    kmem.more k' = kmem.more (k\<lparr>threads := threads k', schedulers := schedulers k'\<rparr>)"
  using assms
proof (induction n arbitrary: k)
  case 0
  then show ?case by (intro exI [of _ k] exI [of _ "\<lambda>_. 0"]) (auto simp: fun_eq_iff)
next
  case (Suc n)
  let ?i = "7 - n"
  have set: "{MAX_CPU - Suc n..<MAX_CPU} = insert ?i {MAX_CPU - n..<MAX_CPU}" using Suc.prems(1) by auto
  have "room_for ((3 * n + r) + 3) k" using Suc.prems(2) by (simp add: algebra_simps)
  from scheduler_init_ok [OF this, of kpdir lk idle ?i] obtain k1 t where
      t: "scheduler_init kpdir lk idle ?i k = Inr k1" "room_for (3 * n + r) k1" "taken t k1" "\<forall>b. taken b k \<longrightarrow> taken b k1 \<and> b \<noteq> t"
      "schedulers k1 = (schedulers k)(?i := idle_sched t)" "t \<noteq> 0"
      "parent (threads k1 t) = processes k 0 \<and> event (threads k1 t) = None"
      "\<forall>b. b \<noteq> t \<longrightarrow> threads k1 b = threads k b" "kmem.more k1 = kmem.more (k\<lparr>threads := threads k1, schedulers := schedulers k1\<rparr>)"
    by blast
  from Suc.IH [OF _ t(2)] Suc.prems(1) obtain k' f where
      k': "scheduling_loop n kpdir lk idle k1 = Inr k'" "room_for r k'" "inj_on f {MAX_CPU - n..<MAX_CPU}"
      "\<forall>i\<in>{MAX_CPU - n..<MAX_CPU}. taken (f i) k' \<and> f i \<noteq> 0 \<and> parent (threads k' (f i)) = processes k1 0 \<and> event (threads k' (f i)) = None"
      "schedulers k' = (\<lambda>i. if MAX_CPU - n \<le> i \<and> i < MAX_CPU then idle_sched (f i) else schedulers k1 i)"
      "\<forall>b. taken b k1 \<longrightarrow> taken b k' \<and> b \<notin> f ` {MAX_CPU - n..<MAX_CPU} \<and> threads k' b = threads k1 b"
      "kmem.more k' = kmem.more (k1\<lparr>threads := threads k', schedulers := schedulers k'\<rparr>)"
    by auto
  have pr: "processes k1 = processes k" using kernel_more(5) [OF t(9)] by simp
  define g where "g = f(?i := t)"
  have out: "?i \<notin> {MAX_CPU - n..<MAX_CPU}" using Suc.prems(1) by simp
  then have gf: "g i = f i" if "i \<in> {MAX_CPU - n..<MAX_CPU}" for i using that by (auto simp: g_def)
  then have img: "g ` {MAX_CPU - n..<MAX_CPU} = f ` {MAX_CPU - n..<MAX_CPU}" by (intro image_cong refl)
  have "inj_on g {MAX_CPU - n..<MAX_CPU} = inj_on f {MAX_CPU - n..<MAX_CPU}" by (intro inj_on_cong gf)
  with k'(3) have inj: "inj_on g {MAX_CPU - n..<MAX_CPU}" by simp
  have gt: "g ?i = t" by (simp add: g_def)
  have ti: "taken t k'" "t \<notin> f ` {MAX_CPU - n..<MAX_CPU}" "threads k' t = threads k1 t" using k'(6) t(3) by blast+
  have "scheduling_loop (Suc n) kpdir lk idle k = Inr k'" using t(1) k'(1) by simp
  moreover have "inj_on g {MAX_CPU - Suc n..<MAX_CPU}" unfolding set using inj img gt ti(2) out by (simp add: inj_on_insert)
  moreover have "\<forall>i\<in>{MAX_CPU - Suc n..<MAX_CPU}. taken (g i) k' \<and> g i \<noteq> 0 \<and> parent (threads k' (g i)) = processes k 0 \<and> event (threads k' (g i)) = None"
    unfolding set using k'(4) gf gt ti t(6,7) pr by auto
  moreover have "schedulers k' = (\<lambda>i. if MAX_CPU - Suc n \<le> i \<and> i < MAX_CPU then idle_sched (g i) else schedulers k i)"
    using k'(5) t(5) Suc.prems(1) by (auto simp: fun_eq_iff g_def)
  moreover have "\<forall>b. taken b k \<longrightarrow> taken b k' \<and> b \<notin> g ` {MAX_CPU - Suc n..<MAX_CPU} \<and> threads k' b = threads k b"
    unfolding set using k'(6) t(4,8) img gt by auto
  moreover have "kmem.more k' = kmem.more (k\<lparr>threads := threads k', schedulers := schedulers k'\<rparr>)"
    using k'(7) kernel_more_upd(2) [OF kernel_more_upd(1) [OF t(9)], of "schedulers k'" "threads k'"] by simp
  ultimately show ?case using k'(2) by (intro exI [of _ k'] exI [of _ g]) simp
qed

end
