(* ===== verification/Libc.thy ===== *)
theory Libc
  imports Syscall
begin

text \<open>
  The library of the programs, \<^verbatim>\<open>libc/syscalls.c\<close> and \<^verbatim>\<open>libc/utils.c\<close>. A stub moves its arguments to registers and raises interrupt
  80: its model gives the registers that the interrupt saves, from those the program had. The result of a call
  is \<open>eax\<close> after the return. \<open>int2str\<close>, \<open>kprintf\<close> and \<open>memcpy\<close> of the library are the functions of the kernel
  with the same text, which \<open>Util\<close> models.
\<close>

section \<open>System calls\<close>

definition libc_syscall :: "uint32 \<Rightarrow> thread_state \<Rightarrow> thread_state" where
  "libc_syscall number st = st\<lparr>st_eax := number, st_int_id := 80\<rparr>"

definition libc_exit :: "uint32 \<Rightarrow> thread_state \<Rightarrow> thread_state" where
  "libc_exit error_code st = libc_syscall SYSCALL_EXIT (st\<lparr>st_ebx := error_code\<rparr>)"

definition libc_wait :: "uint32 \<Rightarrow> thread_state \<Rightarrow> thread_state" where
  "libc_wait n st = libc_syscall SYSCALL_WAIT (st\<lparr>st_ebx := n\<rparr>)"

definition libc_register_process :: "ptr \<Rightarrow> thread_state \<Rightarrow> thread_state" where
  "libc_register_process name st = libc_syscall SYSCALL_REGISTER (st\<lparr>st_ebx := name\<rparr>)"

definition libc_read :: "uint32 \<Rightarrow> ptr \<Rightarrow> uint32 \<Rightarrow> thread_state \<Rightarrow> thread_state" where
  "libc_read d b n st = libc_syscall SYSCALL_READ (st\<lparr>st_ebx := d, st_ecx := b, st_edx := n\<rparr>)"

definition libc_write :: "uint32 \<Rightarrow> ptr \<Rightarrow> uint32 \<Rightarrow> thread_state \<Rightarrow> thread_state" where
  "libc_write d b n st = libc_syscall SYSCALL_WRITE (st\<lparr>st_ebx := d, st_ecx := b, st_edx := n\<rparr>)"

definition libc_select :: "thread_state \<Rightarrow> thread_state" where
  "libc_select st = libc_syscall SYSCALL_SELECT st"

definition libc_connect :: "ptr \<Rightarrow> thread_state \<Rightarrow> thread_state" where
  "libc_connect name st = libc_syscall SYSCALL_CONNECT (st\<lparr>st_ebx := name\<rparr>)"

definition libc_mmap :: "ptr \<Rightarrow> ptr \<Rightarrow> thread_state \<Rightarrow> thread_state" where
  "libc_mmap virt phys st = libc_syscall SYSCALL_MMAP (st\<lparr>st_ebx := virt, st_ecx := phys\<rparr>)"

definition libc_handle :: "uint32 \<Rightarrow> thread_state \<Rightarrow> thread_state" where
  "libc_handle irq st = libc_syscall SYSCALL_HANDLE (st\<lparr>st_ebx := irq\<rparr>)"

definition libc_peek :: "uint32 \<Rightarrow> thread_state \<Rightarrow> thread_state" where
  "libc_peek d st = libc_syscall SYSCALL_PEEK (st\<lparr>st_ebx := d\<rparr>)"

definition libc_time :: "thread_state \<Rightarrow> thread_state" where
  "libc_time st = libc_syscall SYSCALL_TIME st"

lemmas libc_call_defs = libc_exit_def libc_wait_def libc_register_process_def libc_read_def libc_write_def libc_select_def
  libc_connect_def libc_mmap_def libc_handle_def libc_peek_def libc_time_def libc_syscall_def

section \<open>Memory and strings\<close>

text \<open>The loops count down from \<open>count\<close> and the functions return the address after the last byte.\<close>

fun memset_loop :: "nat \<Rightarrow> ptr \<Rightarrow> uint8 \<Rightarrow> 'a machine_scheme \<Rightarrow> (ptr \<times> 'a machine_scheme) res" where
  "memset_loop 0 p v s = Inr (p, s)"
| "memset_loop (Suc n) p v s = bindE (vwrite8 p v s) (memset_loop n (p + 1) v)"

definition libc_memset :: "ptr \<Rightarrow> uint8 \<Rightarrow> uint32 \<Rightarrow> 'a machine_scheme \<Rightarrow> (ptr \<times> 'a machine_scheme) res" where
  "libc_memset p v n s = memset_loop (unat n) p v s"

fun memset16_loop :: "nat \<Rightarrow> ptr \<Rightarrow> uint16 \<Rightarrow> 'a machine_scheme \<Rightarrow> (ptr \<times> 'a machine_scheme) res" where
  "memset16_loop 0 p v s = Inr (p, s)"
| "memset16_loop (Suc n) p v s = bindE (vwrite16 p v s) (memset16_loop n (p + 2) v)"

definition libc_memset16 :: "ptr \<Rightarrow> uint16 \<Rightarrow> uint32 \<Rightarrow> 'a machine_scheme \<Rightarrow> (ptr \<times> 'a machine_scheme) res" where
  "libc_memset16 p v n s = memset16_loop (unat n) p v s"

fun strlen_loop :: "nat \<Rightarrow> reader \<Rightarrow> nat \<Rightarrow> int \<Rightarrow> int res" where
  "strlen_loop 0 str i result = Inl Diverges"
| "strlen_loop (Suc fuel) str i result =
     bindE (str i) (\<lambda>c. if c \<noteq> 0 then strlen_loop fuel str (Suc i) (result + 1) else Inr result)"

definition libc_strlen :: "nat \<Rightarrow> reader \<Rightarrow> int res" where
  "libc_strlen fuel str = strlen_loop fuel str 0 0"

lemma strlen_loop_eq:
  assumes "cstring f xs"
  shows "i \<le> length xs \<Longrightarrow> length xs - i < fuel \<Longrightarrow> strlen_loop fuel f i r = Inr (r + int (length xs - i))"
proof (induction fuel arbitrary: i r)
  case (Suc fuel)
  show ?case
  proof (cases "i = length xs")
    case False
    then have "f i = Inr (xs ! i)" "xs ! i \<noteq> 0" using assms Suc.prems(1) by (auto simp: cstring_def in_set_conv_nth)
    then show ?thesis using Suc False by (simp add: Suc_diff_Suc of_nat_diff)
  qed (use assms in \<open>simp add: cstring_def\<close>)
qed simp

lemma libc_strlen_eq: "cstring f xs \<Longrightarrow> length xs < fuel \<Longrightarrow> libc_strlen fuel f = Inr (int (length xs))"
  using strlen_loop_eq [of f xs 0 fuel 0] by (simp add: libc_strlen_def)

text \<open>The memset of the library does what that of the kernel does, and returns the end.\<close>

lemma libc_memset_eq:
  "libc_memset p v n s = bindE (kmemset (unat n) p v s) (\<lambda>s. Inr (p + n, s))"
proof -
  have "memset_loop m p v = (\<lambda>s :: 'a machine_scheme. bindE (kmemset m p v s) (\<lambda>s. Inr (p + of_nat m, s)))" for m p
    by (induction m arbitrary: p; rule ext; simp add: bindE_assoc add.assoc)
  then show ?thesis by (simp add: libc_memset_def)
qed

section \<open>From the program to the kernel\<close>

text \<open>
  A call of a program: the interrupt sets the task priority of the local APIC and acknowledges, then the handler
  of vector 80 runs, which is \<open>syscall\<close> once \<open>syscalls_init\<close> has registered it.
\<close>

definition entered :: "nat \<Rightarrow> kernel \<Rightarrow> kernel" where
  "entered cpu k = k\<lparr>lapics := (lapics k)(cpu := lapic_set 0xB0 0 (lapic_set 0x80 80 (lapics k cpu)))\<rparr>"

lemma entered_simps [simp]:
  "streams (entered cpu k) = streams k" "procs (entered cpu k) = procs k" "threads (entered cpu k) = threads k"
  "schedulers (entered cpu k) = schedulers k" "vread8 v (entered cpu k) = vread8 v k" "kmem_ok (entered cpu k) = kmem_ok k"
  "sched_cur_thread cpu (entered cpu k) = sched_cur_thread cpu k" "sched_cur_proc cpu (entered cpu k) = sched_cur_proc cpu k"
  "buffer_at b n (entered cpu k) = buffer_at b n k"
proof -
  show "vread8 v (entered cpu k) = vread8 v k" "kmem_ok (entered cpu k) = kmem_ok k"
    by (rule kmem_ok_cong; simp add: entered_def)+
  have "mmu_translate w (entered cpu k) = mmu_translate w k" "private_at p (entered cpu k) = private_at p k" for w p
    by (simp_all add: entered_def mmu_translate_def pte_slot_def private_at_def frames_def pdir_def pde_def)
  then show "buffer_at b n (entered cpu k) = buffer_at b n k" by (simp add: buffer_at_def)
qed (simp_all add: entered_def sched_cur_thread_def sched_cur_proc_def)

lemma irq_handler_syscall:
  assumes "int_handlers k 80 = Syscall" "st_int_id st = 80"
  shows "irq_handler dev fuel cpu st k = syscall fuel cpu st (entered cpu k)"
  using assms by (simp add: irq_handler_def entered_def Let_def)

lemma libc_write_ok:
  assumes h: "int_handlers k 80 = Syscall" and d: "unat d < MAX_DESCRIPTORS" and bs: "length bs = unat n" "\<forall>i<length bs. vread8 (b + of_nat i) k = Inr (bs ! i)"
    and o: "io_output (iodescr (procs k (sched_cur_proc cpu k)) (unat d)) = p" "p \<noteq> 0" "stream_ok (streams k p)"
  shows "wrote cpu b p bs (libc_write d b n st) (entered cpu k) (irq_handler dev fuel cpu (libc_write d b n st) k)"
proof -
  have "syscall fuel cpu (libc_write d b n st) (entered cpu k) = write_on cpu (length bs) b p (libc_write d b n st) (entered cpu k)"
    using d bs(1) o(1) by (simp add: syscall_def descriptor_def Let_def libc_call_defs)
  then show ?thesis
    using write_on_ok [of p "entered cpu k" bs "length bs" b cpu "libc_write d b n st"] bs(2) o(2,3) irq_handler_syscall [OF h, of "libc_write d b n st"]
    by (simp add: libc_call_defs)
qed

lemma libc_read_ok:
  assumes h: "int_handlers k 80 = Syscall" and d: "unat d < MAX_DESCRIPTORS" and k: "kmem_ok k" "buffer_at b (unat n) k"
    and i: "io_input (iodescr (procs k (sched_cur_proc cpu k)) (unat d)) = p" "p \<noteq> 0" "stream_ok (streams k p)"
  shows "fetched cpu (unat n) b p (libc_read d b n st) (entered cpu k) (irq_handler dev fuel cpu (libc_read d b n st) k)"
proof -
  have "syscall fuel cpu (libc_read d b n st) (entered cpu k) = read_on cpu (unat n) b p (libc_read d b n st) (entered cpu k)"
    using d i(1) by (simp add: syscall_def descriptor_def Let_def libc_call_defs)
  then show ?thesis
    using read_on_ok [of p "entered cpu k" b "unat n" cpu "libc_read d b n st"] k i(2,3) irq_handler_syscall [OF h, of "libc_read d b n st"]
    by (simp add: libc_call_defs)
qed

text \<open>
  A message from one program to another: a \<open>write\<close> to an empty stream, and a \<open>read\<close> of as many bytes by the program
  that has the stream as its input, in any later state in which the stream is as the write left it.
\<close>

definition delivered :: "device \<Rightarrow> nat \<Rightarrow> ptr \<Rightarrow> uint8 list \<Rightarrow> nat \<Rightarrow> uint32 \<Rightarrow> ptr \<Rightarrow> thread_state \<Rightarrow> kernel \<Rightarrow> bool" where
  "delivered dev fuel p bs cpu d b st k \<longleftrightarrow>
     (\<exists>k'. irq_handler dev fuel cpu (libc_read d b (of_nat (length bs)) st) k = Inr (ret 0 (libc_read d b (of_nat (length bs)) st) k') \<and>
       kmem_ok k' \<and> stream_contents (streams k' p) = [] \<and> (\<forall>i<length bs. vread8 (b + of_nat i) k' = Inr (bs ! i)))"

lemma message_delivered:
  assumes h: "int_handlers k 80 = Syscall" and d: "unat d < MAX_DESCRIPTORS" and k: "kmem_ok k" "buffer_at b (length bs) k"
    and i: "io_input (iodescr (procs k (sched_cur_proc cpu k)) (unat d)) = p" "p \<noteq> 0" "stream_ok (streams k p)"
    and bs: "stream_contents (streams k p) = bs"
  shows "delivered dev fuel p bs cpu d b st k"
proof -
  have l: "length bs \<le> 1022" using stored_le [OF i(3)] bs by (simp flip: length_contents)
  then have n: "unat (of_nat (length bs) :: uint32) = length bs" by (simp add: unat_of_nat)
  have "fetched cpu (length bs) b p (libc_read d b (of_nat (length bs)) st) (entered cpu k)
      (irq_handler dev fuel cpu (libc_read d b (of_nat (length bs)) st) k)"
    using libc_read_ok [OF h d k(1) _ i, of b "of_nat (length bs)"] k(2) unfolding n by blast
  moreover have "stored (streams k p) = length bs" using bs by (simp flip: length_contents)
  ultimately show ?thesis using bs unfolding delivered_def fetched_def Let_def by auto
qed

lemma message_written:
  assumes h: "int_handlers k 80 = Syscall" and d: "unat d < MAX_DESCRIPTORS" and bs: "length bs \<le> 1022" "\<forall>i<length bs. vread8 (b + of_nat i) k = Inr (bs ! i)"
    and o: "io_output (iodescr (procs k (sched_cur_proc cpu k)) (unat d)) = p" "p \<noteq> 0" "stream_ok (streams k p)" "stream_contents (streams k p) = []"
  shows "\<exists>s. stream_ok s \<and> stream_contents s = bs \<and> irq_handler dev fuel cpu (libc_write d b (of_nat (length bs)) st) k =
    Inr (ret 0 (libc_write d b (of_nat (length bs)) st) ((entered cpu k)\<lparr>streams := (streams k)(p := s)\<rparr>))"
proof -
  have n: "unat (of_nat (length bs) :: uint32) = length bs" using bs(1) by (simp add: unat_of_nat)
  have "stored (streams k p) = 0" using o(4) length_contents [of "streams k p"] by simp
  then show ?thesis using libc_write_ok [OF h d n [symmetric] bs(2) o(1-3), of st dev fuel] bs(1) o(4)
    unfolding wrote_def Let_def by auto
qed

end
