(* ===== verification/KList.thy ===== *)
theory KList
  imports Memory Fifo
begin

text \<open>
  The linked lists of \<^verbatim>\<open>kernel/list.c\<close>: a queue of pointers with a lock, a tail pointer and a
  private list of unused cells. The cells live in a store indexed by their address; new cells
  come from \<^verbatim>\<open>NEW(struct list_elem)\<close>, a parameter \<open>new_elem\<close> of the operations, and the locale
  \<open>block_heap\<close> states what they need of it. The allocator of the kernel, \<open>kmalloc\<close>, satisfies
  it (interpretation \<open>km\<close> at the end). The lists refine queues, the interface \<open>fifo\<close>.
\<close>

section \<open>Data and operations\<close>

record list_elem =
  target :: ptr
  elem_next :: ptr

record klist =
  list_count :: int
  list_lock :: lock_t
  list_head :: ptr
  list_tail :: ptr
  list_free :: ptr

record 'h list_store =
  elems :: "ptr \<Rightarrow> list_elem"
  mem :: 'h

text \<open>Reading and writing a cell; a null pointer is a fault.\<close>

definition elem_at :: "ptr \<Rightarrow> 'h list_store \<Rightarrow> list_elem res" where
  "elem_at p st = (if p = 0 then Inl NullPointer else Inr (elems st p))"

definition set_elem :: "ptr \<Rightarrow> list_elem \<Rightarrow> 'h list_store \<Rightarrow> 'h list_store" where
  "set_elem p e st = st\<lparr>elems := (elems st)(p := e)\<rparr>"

definition list_elem_new ::
  "('h \<Rightarrow> (ptr \<times> 'h) res) \<Rightarrow> ptr \<Rightarrow> klist \<Rightarrow> 'h list_store \<Rightarrow> (ptr \<times> klist \<times> 'h list_store) res" where
  "list_elem_new new_elem tg this st =
     bindE (if list_free this \<noteq> 0
            then bindE (elem_at (list_free this) st) (\<lambda>e.
              Inr (list_free this, this\<lparr>list_free := elem_next e\<rparr>, st))
            else bindE (new_elem (mem st)) (\<lambda>(p, m). Inr (p, this, st\<lparr>mem := m\<rparr>))) (\<lambda>(r, this, st).
     Inr (r, this, set_elem r \<lparr>target = tg, elem_next = 0\<rparr> st))"

definition list_elem_delete :: "ptr \<Rightarrow> klist \<Rightarrow> 'h list_store \<Rightarrow> klist \<times> 'h list_store" where
  "list_elem_delete p this st =
     (this\<lparr>list_free := p\<rparr>, set_elem p \<lparr>target = 0, elem_next = list_free this\<rparr> st)"

definition list_push ::
  "('h \<Rightarrow> (ptr \<times> 'h) res) \<Rightarrow> ptr \<Rightarrow> klist \<Rightarrow> 'h list_store \<Rightarrow> (klist \<times> 'h list_store) res" where
  "list_push new_elem tg this st =
     bindE (section_enter (list_lock this)) (\<lambda>l.
     let this = this\<lparr>list_lock := l\<rparr> in
     bindE (list_elem_new new_elem tg this st) (\<lambda>(elem, this, st).
     bindE (if list_tail this = 0
            then Inr (this\<lparr>list_head := elem, list_tail := elem\<rparr>, st)
            else bindE (elem_at (list_tail this) st) (\<lambda>e.
              Inr (this\<lparr>list_tail := elem\<rparr>, set_elem (list_tail this) (e\<lparr>elem_next := elem\<rparr>) st))) (\<lambda>(this, st).
     let this = this\<lparr>list_count := list_count this + 1\<rparr> in
     Inr (this\<lparr>list_lock := section_leave (list_lock this)\<rparr>, st))))"

definition list_pop :: "klist \<Rightarrow> 'h list_store \<Rightarrow> (ptr \<times> klist \<times> 'h list_store) res" where
  "list_pop this st =
     (if list_count this = 0 then Inr (0, this, st)
      else
        bindE (section_enter (list_lock this)) (\<lambda>l.
        let this = this\<lparr>list_lock := l\<rparr>;
            elem = list_head this in
        bindE (if list_head this = list_tail this then Inr (this\<lparr>list_head := 0, list_tail := 0\<rparr>)
               else bindE (elem_at (list_head this) st) (\<lambda>e. Inr (this\<lparr>list_head := elem_next e\<rparr>))) (\<lambda>this.
        let (result, this, st) =
              (if elem \<noteq> 0 then (target (elems st elem), list_elem_delete elem this st) else (0, this, st));
            this = (if result \<noteq> 0 then this\<lparr>list_count := list_count this - 1\<rparr> else this) in
        Inr (result, this\<lparr>list_lock := section_leave (list_lock this)\<rparr>, st))))"

definition klist_size :: "klist \<Rightarrow> int" where
  "klist_size this = list_count this"

primrec list_prealloc ::
  "('h \<Rightarrow> (ptr \<times> 'h) res) \<Rightarrow> nat \<Rightarrow> klist \<Rightarrow> 'h list_store \<Rightarrow> (klist \<times> 'h list_store) res" where
  "list_prealloc new_elem 0 this st = Inr (this, st)"
| "list_prealloc new_elem (Suc n) this st =
     bindE (new_elem (mem st)) (\<lambda>(p, m).
     case list_elem_delete p this (st\<lparr>mem := m\<rparr>) of (this, st) \<Rightarrow> list_prealloc new_elem n this st)"

section \<open>The invariant of a list\<close>

definition nx :: "'h list_store \<Rightarrow> ptr \<Rightarrow> ptr" where
  "nx st p = elem_next (elems st p)"

definition list_contents :: "klist \<Rightarrow> 'h list_store \<Rightarrow> ptr list" where
  "list_contents this st =
     map (\<lambda>p. target (elems st p)) (follow (nat (list_count this)) (nx st) (list_head this))"

text \<open>
  \<open>cs\<close> are the cells of the queue and \<open>fs\<close> the unused ones: two disjoint chains, none of whose
  cells is in the memory \<open>av\<close> that the allocator may still hand out.
\<close>

definition list_cells :: "nat set \<Rightarrow> klist \<Rightarrow> 'h list_store \<Rightarrow> ptr list \<Rightarrow> ptr list \<Rightarrow> bool" where
  "list_cells av this st cs fs \<longleftrightarrow>
     chain (nx st) (list_head this) cs \<and> list_tail this = last0 cs \<and> int (length cs) = list_count this \<and>
     chain (nx st) (list_free this) fs \<and> distinct (cs @ fs) \<and> (\<forall>p\<in>set cs. target (elems st p) \<noteq> 0) \<and>
     (\<forall>p\<in>set (cs @ fs). block (1, unat p) \<inter> av = {})"

definition list_inv :: "nat set \<Rightarrow> klist \<Rightarrow> 'h list_store \<Rightarrow> ptr set \<Rightarrow> bool" where
  "list_inv av this st P \<longleftrightarrow> list_lock this = 0 \<and> (\<exists>cs fs. list_cells av this st cs fs \<and> P = set (cs @ fs))"

lemma list_cells_contents: "list_cells av this st cs fs \<Longrightarrow> list_contents this st = map (\<lambda>p. target (elems st p)) cs"
proof -
  assume l: "list_cells av this st cs fs"
  then have "follow (nat (list_count this)) (nx st) (list_head this) = cs"
    by (intro follow_chain) (auto simp: list_cells_def)
  then show ?thesis by (simp add: list_contents_def)
qed

lemma nx_set_elem [simp]: "nx (set_elem p e st) = (nx st)(p := elem_next e)"
  by (auto simp: nx_def set_elem_def)

lemma elems_set_elem [simp]: "elems (set_elem p e st) = (elems st)(p := e)" "mem (set_elem p e st) = mem st"
  by (simp_all add: set_elem_def)

lemma nx_mem [simp]: "nx (st\<lparr>mem := m\<rparr>) = nx st"
  by (auto simp: nx_def)

lemma empty_list_inv:
  "list_inv av \<lparr>list_count = 0, list_lock = 0, list_head = 0, list_tail = 0, list_free = 0\<rparr> st {}"
  by (auto simp: list_inv_def list_cells_def intro!: exI [of _ "[]"])

text \<open>A list does not change when another one writes to its own cells.\<close>

lemma list_inv_frame:
  assumes inv: "list_inv av this st P" and same: "\<forall>p\<in>P. elems st' p = elems st p" and av: "av' \<subseteq> av"
  shows "list_inv av' this st' P" "list_contents this st' = list_contents this st"
proof -
  obtain cs fs where c: "list_cells av this st cs fs" "P = set (cs @ fs)" using inv unfolding list_inv_def by blast
  have "chain (nx st') x cs = chain (nx st) x cs" "chain (nx st') x fs = chain (nx st) x fs" for x
    using same c(2) by (auto intro!: chain_cong simp: nx_def)
  moreover have "\<forall>p\<in>set (cs @ fs). block (1, unat p) \<inter> av' = {}"
    using c(1) av unfolding list_cells_def by blast
  ultimately have c': "list_cells av' this st' cs fs" using c same by (auto simp: list_cells_def)
  then show "list_inv av' this st' P" using inv c(2) unfolding list_inv_def by blast
  show "list_contents this st' = list_contents this st"
    using same c(2) by (simp add: list_cells_contents [OF c'] list_cells_contents [OF c(1)])
qed

section \<open>Popping\<close>

lemma list_pop_empty: "list_inv av this st P \<Longrightarrow> list_contents this st = [] \<Longrightarrow> list_pop this st = Inr (0, this, st)"
  by (auto simp: list_inv_def list_cells_contents list_pop_def) (auto simp: list_cells_def)

lemma list_pop_ok:
  assumes inv: "list_inv av this st P" and ne: "list_contents this st = x # xs"
  shows "\<exists>this' st'. list_pop this st = Inr (x, this', st') \<and> list_inv av this' st' P \<and> x \<noteq> 0 \<and>
    list_contents this' st' = xs \<and> mem st' = mem st \<and> (\<forall>p. p \<notin> P \<longrightarrow> elems st' p = elems st p)"
proof -
  obtain cs fs where c: "list_cells av this st cs fs" "P = set (cs @ fs)" using inv unfolding list_inv_def by blast
  note cont = list_cells_contents [OF c(1)]
  obtain q qs where q: "cs = q # qs" "target (elems st q) = x" "map (\<lambda>p. target (elems st p)) qs = xs"
    using cont ne by (cases cs) auto
  have hd: "list_head this = q" "q \<noteq> 0" "chain (nx st) (nx st q) qs" "x \<noteq> 0" "list_lock this = 0"
    "list_count this = int (length qs) + 1" "q \<notin> set (qs @ fs)"
    using c(1) q inv by (auto simp: list_cells_def list_inv_def)
  let ?st = "set_elem q \<lparr>target = 0, elem_next = list_free this\<rparr> st"
  let ?th = "this\<lparr>list_head := nx st q, list_tail := last0 qs, list_free := q, list_count := int (length qs)\<rparr>"
  have same: "list_head this = list_tail this \<longleftrightarrow> qs = []"
  proof
    assume "list_head this = list_tail this"
    then have "last0 (q # qs) = q" using c(1) q(1) hd(1) by (simp add: list_cells_def)
    then show "qs = []" using hd(7) last_in_set [of qs] by (cases "qs = []") (auto simp: last0_def)
  qed (use c(1) q(1) in \<open>auto simp: list_cells_def\<close>)
  have "list_pop this st = Inr (x, ?th, ?st)"
  proof (cases "qs = []")
    case True
    then show ?thesis using hd q same by (auto simp: list_pop_def list_elem_delete_def Let_def)
  next
    case False
    then have "list_tail this = last0 qs" using c(1) q(1) by (auto simp: list_cells_def)
    then show ?thesis using False hd q same
      by (cases this) (auto simp: list_pop_def list_elem_delete_def Let_def elem_at_def nx_def)
  qed
  moreover have c': "list_cells av ?th ?st qs (q # fs)"
    using c(1) q(1) hd by (auto simp: list_cells_def)
  moreover have "list_contents ?th ?st = xs" using q(3) hd(7) by (auto simp: list_cells_contents [OF c'])
  moreover have "list_inv av ?th ?st P" using c' c(2) q(1) hd(5)
    unfolding list_inv_def by (intro conjI exI [of _ qs] exI [of _ "q # fs"]) auto
  ultimately show ?thesis using hd(4) c(2) q(1) by (intro exI [of _ ?th] exI [of _ ?st]) auto
qed

section \<open>Pushing: what a list needs of the allocator\<close>

text \<open>
  \<open>avail\<close> is the memory the allocator may hand out, \<open>room\<close> the number of cells it can surely
  provide. A new cell is 16 bytes of that memory, which are not handed out again.
\<close>

locale block_heap =
  fixes new_elem :: "'h \<Rightarrow> (ptr \<times> 'h) res"
    and avail :: "'h \<Rightarrow> nat set"
    and room :: "'h \<Rightarrow> nat"
  assumes new_elem_ok: "0 < room h \<Longrightarrow>
      \<exists>p h'. new_elem h = Inr (p, h') \<and> p \<noteq> 0 \<and> block (1, unat p) \<subseteq> avail h \<and>
        avail h' = avail h - block (1, unat p) \<and> room h \<le> room h' + 1"
begin

text \<open>The cell that \<open>list_elem_new\<close> returns: an unused cell of the list, or a new one.\<close>

lemma list_elem_new_ok:
  assumes c: "list_cells (avail (mem st)) this st cs fs" and room: "fs \<noteq> [] \<or> 0 < room (mem st)"
  shows "\<exists>r f fs' st'. list_elem_new new_elem tg this st = Inr (r, this\<lparr>list_free := f\<rparr>, st') \<and>
    list_cells (avail (mem st')) (this\<lparr>list_free := f\<rparr>) st' cs fs' \<and> r \<noteq> 0 \<and> r \<notin> set (cs @ fs') \<and>
    elems st' r = \<lparr>target = tg, elem_next = 0\<rparr> \<and> (\<forall>p. p \<noteq> r \<longrightarrow> elems st' p = elems st p) \<and>
    block (1, unat r) \<inter> avail (mem st') = {} \<and> room (mem st) \<le> room (mem st') + 1 \<and>
    avail (mem st') \<subseteq> avail (mem st) \<and> (r \<in> set fs \<or> unat r \<in> avail (mem st)) \<and> set fs' \<subseteq> set fs"
proof (cases fs)
  case (Cons r fs')
  then have r: "list_free this = r" "r \<noteq> 0" "r \<notin> set (cs @ fs')" "chain (nx st) (nx st r) fs'"
      "block (1, unat r) \<inter> avail (mem st) = {}"
    using c by (auto simp: list_cells_def)
  let ?st = "set_elem r \<lparr>target = tg, elem_next = 0\<rparr> st"
  have "list_elem_new new_elem tg this st = Inr (r, this\<lparr>list_free := nx st r\<rparr>, ?st)"
    using r by (simp add: list_elem_new_def elem_at_def nx_def)
  moreover have "list_cells (avail (mem ?st)) (this\<lparr>list_free := nx st r\<rparr>) ?st cs fs'"
    using c r Cons by (auto simp: list_cells_def)
  ultimately show ?thesis using r Cons
    by (intro exI [of _ r] exI [of _ "nx st r"] exI [of _ fs'] exI [of _ ?st]) auto
next
  case Nil
  then have "0 < room (mem st)" using room by simp
  from new_elem_ok [OF this] obtain r h' where h: "new_elem (mem st) = Inr (r, h')" "r \<noteq> 0"
      "block (1, unat r) \<subseteq> avail (mem st)" "avail h' = avail (mem st) - block (1, unat r)" "room (mem st) \<le> room h' + 1"
    by blast
  have "block (1, unat p) \<inter> avail (mem st) = {}" if "p \<in> set cs" for p using c that by (simp add: list_cells_def)
  then have out: "r \<notin> set cs" using h(3) block_start [of "unat r" 1] by blast
  have free: "list_free this = 0" using c Nil by (simp add: list_cells_def)
  let ?st = "set_elem r \<lparr>target = tg, elem_next = 0\<rparr> (st\<lparr>mem := h'\<rparr>)"
  have "list_elem_new new_elem tg this st = Inr (r, this\<lparr>list_free := 0\<rparr>, ?st)"
    using h free by (simp add: list_elem_new_def)
  moreover have "list_cells (avail (mem ?st)) (this\<lparr>list_free := 0\<rparr>) ?st cs []"
    using c out h Nil by (auto simp: list_cells_def)
  moreover have "unat r \<in> avail (mem st)" using h(3) by auto
  ultimately show ?thesis using h out
    by (intro exI [of _ r] exI [of _ 0] exI [of _ "[]"] exI [of _ ?st]) auto
qed

lemma list_push_ok:
  assumes inv: "list_inv (avail (mem st)) this st P" and tg: "tg \<noteq> 0" and room: "list_free this \<noteq> 0 \<or> 0 < room (mem st)"
  shows "\<exists>this' st' P'. list_push new_elem tg this st = Inr (this', st') \<and> list_inv (avail (mem st')) this' st' P' \<and>
    list_contents this' st' = list_contents this st @ [tg] \<and> room (mem st) \<le> room (mem st') + 1 \<and>
    avail (mem st') \<subseteq> avail (mem st) \<and> (\<forall>p\<in>P' - P. unat p \<in> avail (mem st)) \<and>
    (\<forall>p. p \<notin> P' \<longrightarrow> elems st' p = elems st p)"
proof -
  obtain cs fs where c: "list_cells (avail (mem st)) this st cs fs" "P = set (cs @ fs)"
    using inv unfolding list_inv_def by blast
  let ?th = "this\<lparr>list_lock := 1\<rparr>"
  have lock: "list_lock this = 0" and tail: "list_tail this = last0 cs"
    using inv c(1) by (simp_all add: list_inv_def list_cells_def)
  have c1: "list_cells (avail (mem st)) ?th st cs fs" using c(1) by (simp add: list_cells_def)
  have "fs \<noteq> [] \<or> 0 < room (mem st)" using room c(1) by (auto simp: list_cells_def)
  from list_elem_new_ok [OF c1 this, of tg] obtain r f fs' st1 where
      r: "list_elem_new new_elem tg ?th st = Inr (r, ?th\<lparr>list_free := f\<rparr>, st1)"
      "list_cells (avail (mem st1)) (?th\<lparr>list_free := f\<rparr>) st1 cs fs'" "r \<noteq> 0" "r \<notin> set (cs @ fs')"
      "elems st1 r = \<lparr>target = tg, elem_next = 0\<rparr>" "\<forall>p. p \<noteq> r \<longrightarrow> elems st1 p = elems st p"
      "block (1, unat r) \<inter> avail (mem st1) = {}" "room (mem st) \<le> room (mem st1) + 1"
      "avail (mem st1) \<subseteq> avail (mem st)" "r \<in> set fs \<or> unat r \<in> avail (mem st)" "set fs' \<subseteq> set fs" by blast
  define this' where "this' = this\<lparr>list_free := f, list_head := (if cs = [] then r else list_head this),
    list_tail := r, list_count := list_count this + 1\<rparr>"
  define st' where "st' = (if cs = [] then st1 else set_elem (last cs) ((elems st1 (last cs))\<lparr>elem_next := r\<rparr>) st1)"
  have "0 \<notin> set cs" using r(2) by (auto simp: list_cells_def dest: chain_nonzero)
  then have z: "cs \<noteq> [] \<Longrightarrow> last cs \<noteq> 0" using last_in_set by metis
  have push: "list_push new_elem tg this st = Inr (this', st')"
    using lock r(1) tail z by (auto simp: list_push_def Let_def this'_def st'_def elem_at_def last0_def)
  have cells: "list_cells (avail (mem st')) this' st' (cs @ [r]) fs'"
  proof (cases cs rule: rev_cases)
    case Nil
    then show ?thesis using r(2-5,7) tg by (auto simp: list_cells_def this'_def st'_def nx_def)
  next
    case (snoc ds d)
    have "chain ((nx st1)(r := hd0 [], d := r)) (list_head this) (ds @ d # [r])"
      using r(2-4) snoc by (intro chain_insert) (auto simp: list_cells_def)
    moreover have "(nx st1)(r := 0) = nx st1" using r(5) by (auto simp: nx_def)
    ultimately show ?thesis using r(2-5,7) snoc tg by (auto simp: list_cells_def this'_def st'_def)
  qed
  have "list_contents this' st' = map (\<lambda>p. target (elems st p)) cs @ [tg]"
    unfolding list_cells_contents [OF cells] using r(4-6) by (auto simp: st'_def)
  moreover have "list_inv (avail (mem st')) this' st' (set ((cs @ [r]) @ fs'))"
    using cells lock unfolding list_inv_def by (intro conjI exI [of _ "cs @ [r]"] exI [of _ fs']) (auto simp: this'_def)
  moreover have "mem st' = mem st1" "\<forall>p. p \<notin> set ((cs @ [r]) @ fs') \<longrightarrow> elems st' p = elems st p"
    using r(6) by (auto simp: st'_def)
  ultimately show ?thesis
    using push r(8-11) c(2) list_cells_contents [OF c(1)]
    by (intro exI [of _ this'] exI [of _ st'] exI [of _ "set ((cs @ [r]) @ fs')"]) auto
qed

text \<open>A push to one list keeps another list that has cells of its own.\<close>

lemma list_push_frame:
  assumes inv: "list_inv (avail (mem st)) this st P" and other: "list_inv (avail (mem st)) other st Q"
    and disj: "P \<inter> Q = {}" and room: "0 < room (mem st)" and tg: "tg \<noteq> 0"
  shows "\<exists>this' st' P'. list_push new_elem tg this st = Inr (this', st') \<and>
    list_inv (avail (mem st')) this' st' P' \<and> list_contents this' st' = list_contents this st @ [tg] \<and>
    list_inv (avail (mem st')) other st' Q \<and> list_contents other st' = list_contents other st \<and> P' \<inter> Q = {}"
proof -
  obtain this' st' P' where p: "list_push new_elem tg this st = Inr (this', st')" "list_inv (avail (mem st')) this' st' P'"
      "list_contents this' st' = list_contents this st @ [tg]" "avail (mem st') \<subseteq> avail (mem st)"
      "\<forall>p\<in>P' - P. unat p \<in> avail (mem st)" "\<forall>p. p \<notin> P' \<longrightarrow> elems st' p = elems st p"
    using list_push_ok [OF inv tg] room by blast
  have "unat p \<notin> avail (mem st)" if "p \<in> Q" for p
    using other that block_start [of "unat p" 1] unfolding list_inv_def list_cells_def by blast
  then have disj': "P' \<inter> Q = {}" using p(5) disj by blast
  then have "\<forall>p\<in>Q. elems st' p = elems st p" using p(6) by blast
  then show ?thesis using p(1-3) disj' list_inv_frame [OF other _ p(4)] by blast
qed


end

section \<open>The kernel's allocator as provider of cells\<close>

text \<open>
  \<^verbatim>\<open>NEW(struct list_elem)\<close>: a cleared block of the 8 bytes of a cell. What it may hand out are the
  free bytes and all the address space from the end of the heap to its limit.
\<close>

definition new_list_elem :: "kmem \<Rightarrow> (ptr \<times> kmem) res" where
  "new_list_elem s = new_object 2 8 s"

definition kmem_avail :: "kmem \<Rightarrow> nat set" where
  "kmem_avail s = bytes (free_blocks (allocator s)) \<union> {unat (heap s) ..< unat HEAP_LIMIT}"

definition kmem_room :: "kmem \<Rightarrow> nat" where
  "kmem_room s =
     (if kmem_ok s \<and> mem_lock s = 0
      then min (min ((unat HEAP_LIMIT - unat (heap s)) div 4096) (card (frames s) div 2)) ((free_nodes (allocator s) - 1) div 15)
      else 0)"

lemma level_of_8 [simp]: "level_of 8 = 1"
  using level_of_le [of 1 8] level_of_props(1) [of 8] by (simp add: bsize_def)

lemma alloc_pages_1 [simp]: "alloc_pages (Suc 0) = 1"
  by (simp add: alloc_pages_def)

lemma kmem_room_pos:
  assumes "0 < kmem_room s"
  shows "kmem_ok s" "mem_lock s = 0" "can_alloc 8 s"
proof -
  show ok: "kmem_ok s" "mem_lock s = 0" using assms by (simp_all add: kmem_room_def split: if_splits)
  then have "0 < (unat HEAP_LIMIT - unat (heap s)) div 4096" "0 < card (frames s) div 2" "0 < (free_nodes (allocator s) - 1) div 15"
    using assms by (simp_all add: kmem_room_def)
  then have "4096 \<le> unat HEAP_LIMIT - unat (heap s)" "2 \<le> card (frames s)" "16 \<le> free_nodes (allocator s)"
    by (simp_all add: div_greater_zero_iff)
  then show "can_alloc 8 s" by (simp add: can_alloc_def Let_def)
qed

lemma div_pred: "(a :: nat) \<le> b + k \<Longrightarrow> 0 < k \<Longrightarrow> a div k \<le> b div k + 1"
  using div_le_mono [of a "b + k" k] by (simp add: div_add_self2)

lemma new_list_elem_ok:
  assumes room: "0 < kmem_room h"
  shows "\<exists>p h'. new_list_elem h = Inr (p, h') \<and> p \<noteq> 0 \<and> block (1, unat p) \<subseteq> kmem_avail h \<and>
    kmem_avail h' = kmem_avail h - block (1, unat p) \<and> kmem_room h \<le> kmem_room h' + 1"
proof -
  note pos = kmem_room_pos [OF room]
  obtain p h' where h': "new_object 2 8 h = Inr (p, h')" "kmem_ok h'" "mem_lock h' = 0" "p \<noteq> 0" "block_fits (1, unat p)"
      "block (1, unat p) \<subseteq> bytes (free_blocks (allocator h)) \<union> new_bytes h h'"
      "bytes (free_blocks (allocator h')) = bytes (free_blocks (allocator h)) \<union> new_bytes h h' - block (1, unat p)"
      "heap h \<le> heap h'" "unat (heap h') \<le> unat (heap h) + 4096" "card (frames h) \<le> card (frames h') + 2"
      "free_nodes (allocator h) \<le> free_nodes (allocator h') + 15"
    using new_object_ok [OF pos, of 2] by (auto simp: got_block_def)
  have lim: "unat (heap h') \<le> unat HEAP_LIMIT" "unat (heap h) \<le> unat (heap h')"
    using h'(2,8) by (simp_all add: kmem_ok_def word_le_nat_alt)
  then have split: "{unat (heap h) ..< unat HEAP_LIMIT} = new_bytes h h' \<union> {unat (heap h') ..< unat HEAP_LIMIT}"
    unfolding new_bytes_def by (intro ivl_disj_un_two(3) [symmetric]) simp_all
  have "block (1, unat p) \<inter> {unat (heap h') ..< unat HEAP_LIMIT} = {}"
  proof -
    have "bytes (free_blocks (allocator h)) \<subseteq> unat ` heap_region h" using pos(1) by (simp add: kmem_ok_def)
    then have "block (1, unat p) \<subseteq> unat ` heap_region h'" using h'(6) new_bytes_region [OF pos(1) h'(8)] by blast
    then show ?thesis by (auto simp: heap_region_def word_less_nat_alt)
  qed
  then have "kmem_avail h' = kmem_avail h - block (1, unat p)"
    unfolding kmem_avail_def h'(7) split by blast
  moreover have "block (1, unat p) \<subseteq> kmem_avail h" using h'(6) split unfolding kmem_avail_def by blast
  moreover have "kmem_room h \<le> kmem_room h' + 1"
  proof -
    have "(unat HEAP_LIMIT - unat (heap h)) div 4096 \<le> (unat HEAP_LIMIT - unat (heap h')) div 4096 + 1"
      "card (frames h) div 2 \<le> card (frames h') div 2 + 1"
      "(free_nodes (allocator h) - 1) div 15 \<le> (free_nodes (allocator h') - 1) div 15 + 1"
      using h'(9-11) lim by (intro div_pred; simp)+
    then show ?thesis using pos(1,2) h'(2,3) by (auto simp: kmem_room_def min_def)
  qed
  ultimately show ?thesis using h'(1,4) by (auto simp: new_list_elem_def)
qed

interpretation km: block_heap new_list_elem kmem_avail kmem_room
  by unfold_locales (rule new_list_elem_ok)

text \<open>A kernel list over the kernel's allocator is a queue of non-null pointers.\<close>

type_synonym kernel_list = "klist \<times> kmem list_store"

definition klist_put :: "ptr \<Rightarrow> kernel_list \<Rightarrow> kernel_list res" where
  "klist_put tg q = list_push new_list_elem tg (fst q) (snd q)"

definition klist_get :: "kernel_list \<Rightarrow> (ptr \<times> kernel_list) res" where
  "klist_get q = list_pop (fst q) (snd q)"

definition klist_contents :: "kernel_list \<Rightarrow> ptr list" where
  "klist_contents q = list_contents (fst q) (snd q)"

definition klist_inv :: "kernel_list \<Rightarrow> bool" where
  "klist_inv q \<longleftrightarrow> (\<exists>P. list_inv (kmem_avail (mem (snd q))) (fst q) (snd q) P)"

definition klist_room :: "kernel_list \<Rightarrow> nat" where
  "klist_room q = kmem_room (mem (snd q))"

interpretation kl: fifo klist_put klist_get klist_contents klist_inv klist_room "\<lambda>p. p \<noteq> 0"
proof (unfold_locales, goal_cases)
  case (1 q tg)
  then show ?case
    using km.list_push_ok [of "snd q" "fst q" _ tg]
    by (fastforce simp: klist_put_def klist_contents_def klist_inv_def klist_room_def)
next
  case (2 q x xs)
  then show ?case
    using list_pop_ok [of "kmem_avail (mem (snd q))" "fst q" "snd q" _ x xs]
    by (fastforce simp: klist_get_def klist_contents_def klist_inv_def)
qed

text \<open>A list that was cleared, as the lists of a scheduler are.\<close>

definition empty_klist :: klist where
  "empty_klist = \<lparr>list_count = 0, list_lock = 0, list_head = 0, list_tail = 0, list_free = 0\<rparr>"

lemma empty_klist_ok: "klist_inv (empty_klist, st)" "klist_contents (empty_klist, st) = []"
  using empty_list_inv by (auto simp: klist_inv_def empty_klist_def klist_contents_def list_contents_def)

end
