(* ===== verification/Samples.thy ===== *)
theory Samples
  imports KList Scheduler
begin

text \<open>
  Concrete states on which the theorems are evaluated: a machine as the boot loader and \<^verbatim>\<open>entry.s\<close> leave it, and the
  kernel memory that \<open>mem_init\<close> makes of it. The page directory is at \<open>0x101000\<close>, its table at \<open>0x102000\<close> maps
  the first four megabytes to themselves and to \<open>0xC0000000\<close>, the last entry maps the directory. The
  tables of the firmware at \<open>0x9FC00\<close> describe two processors, and at \<open>0x151000\<close> there is the image of a program with one
  section. The memory map has one entry, from 2 to 16 megabytes.
\<close>

definition sample_mmap :: mmap where
  "sample_mmap = \<lparr>mmap_size = 20, base_low = 0x200000, base_high = 0, length_low = 0xE00000, length_high = 0, mmap_type = 1\<rparr>"

definition sample_mm :: "ptr \<Rightarrow> mmap" where
  "sample_mm p = sample_mmap"

definition sample_words :: "uint32 \<Rightarrow> uint32" where
  "sample_words a =
     (if a = 0x9FC00 then 0x5F504D5F else if a = 0x9FC04 then 0x9FC10 else if a = 0x9FC30 then 0x30000
      else if a = 0x9FC50 then 0x100 else if a = 0x9FC64 then 2
      else if a = 0x151020 then 0x40 else if a = 0x151030 then 1 else if a = 0x15104C then 0x8048000 else if a = 0x151050 then 0x80
      else if a = 0x151054 then 0x1234 else if a = 0x151080 then 0x7865742E else if a = 0x151084 then 0x74
      else 0)"

definition sample_phys :: "uint32 \<Rightarrow> uint32" where
  "sample_phys a =
     (if a = 0x101000 \<or> a = 0x101C00 then 0x102007
      else if a = 0x101FFC then 0x101007
      else if 0x101000 \<le> a \<and> a < 0x102000 then 0
      else if 0x102000 \<le> a \<and> a < 0x103000 then page_entry ((a - 0x102000) * 1024) 7
      else sample_words a)"

definition boot_memory :: "'a kmem_scheme \<Rightarrow> bool" where
  "boot_memory s \<longleftrightarrow> memory_map s = (\<lambda>i. if i = 32768 then 0xFFFFFFFF else 0) \<and> palloc_lock s = 0 \<and>
     phys_mem s = sample_phys \<and> cr3 s = 0x101000 \<and> mem_lock s = 0"

definition sample_boot :: kmem where
  "sample_boot =
     \<lparr>memory_map = (\<lambda>i. if i = 32768 then 0xFFFFFFFF else 0), palloc_lock = 0, phys_mem = sample_phys, cr3 = 0x101000,
      heap = 0, allocator = \<lparr>heads = (\<lambda>_. 0), nodes = (\<lambda>_. \<lparr>node_addr = 0, node_next = 0\<rparr>)\<rparr>,
      mem_lock = 0, stats = 0\<rparr>"

lemma sample_boot_memory: "boot_memory sample_boot"
  by (simp add: boot_memory_def sample_boot_def)

lemma boot_pdir: "boot_memory s \<Longrightarrow> pdir s = 0x101000"
  by (simp add: pdir_def boot_memory_def)

lemma boot_pde:
  assumes "boot_memory s" "unat i < 1024"
  shows "pde i s = (if i = 0 \<or> i = 768 then 0x102007 else if i = 1023 then 0x101007 else 0)"
proof -
  let ?a = "0x101000 + 4 * i"
  have u: "unat ?a = 1052672 + 4 * unat i" using assms(2) by (simp add: unat_word_ariths)
  have "?a = 0x101C00 \<longleftrightarrow> i = 768" "?a = 0x101FFC \<longleftrightarrow> i = 1023" "?a = 0x101000 \<longleftrightarrow> i = 0"
    using u assms(2) by (simp_all add: word_unat_eq_iff)
  moreover have "0x101000 \<le> ?a" "?a < 0x102000" using u assms(2) by (simp_all add: word_le_nat_alt word_less_nat_alt)
  ultimately show ?thesis unfolding pde_def boot_pdir [OF assms(1)] using assms(1) by (simp add: boot_memory_def sample_phys_def)
qed

lemma boot_memory_dir:
  assumes "boot_memory s"
  shows "boot_dir s"
proof -
  have p: "pde i s = (if i = 0 \<or> i = 768 then 0x102007 else 0)" if "unat i < 1023" for i
    using that boot_pde [OF assms, of i] by auto
  have "pde 1023 s = 0x101007" using boot_pde [OF assms, of 1023] by simp
  then show ?thesis using boot_pdir [OF assms] p by (auto simp: boot_dir_def self_mapped_def frame_of_def twins_def split: if_splits)
qed

lemma boot_memory_ready: "boot_memory s \<Longrightarrow> palloc_ready s"
  by (simp add: palloc_ready_def boot_memory_def)

lemma boot_memory_frames:
  assumes "boot_memory s"
  shows "frames s = {}"
proof -
  have "p div 32 \<noteq> 32768" if "p < PAGES" for p :: nat using less_mult_imp_div_less [of p 32768 32] that by simp
  then show ?thesis using assms by (auto simp: frames_def boot_memory_def)
qed

lemma boot_memory_pool:
  assumes "boot_memory s"
  shows "boot_pool [sample_mmap] s = {512..<4096}"
proof -
  have "usable sample_mmap = {p. 2097152 \<le> 4096 * p \<and> 4096 * p + 4096 \<le> 16777216}"
    using usable_exact [of sample_mmap] by (simp add: sample_mmap_def)
  moreover have "2097152 \<le> 4096 * p \<and> 4096 * p + 4096 \<le> 16777216 \<longleftrightarrow> 512 \<le> p \<and> p < 4096" for p :: nat by linarith
  ultimately have u: "usable sample_mmap = {512..<4096}" unfolding atLeastLessThan_def atLeast_def lessThan_def by auto
  show ?thesis unfolding boot_pool_def boot_memory_frames [OF assms] u
    by (simp only: list.set UN_insert UN_empty u) auto
qed

lemma low_identity:
  assumes "boot_memory s" "v < 0x400000"
  shows "mmu_translate v s = Some v"
proof -
  have v: "unat v < 4194304" using assms(2) by (simp add: word_less_nat_alt)
  have i: "page_dir_index v = 0" using v by (simp add: word_unat_eq_iff unat_page_dir_index)
  define j where "j = page_table_index v"
  have j: "unat j = unat v div 4096" using v by (simp add: j_def unat_page_table_index)
  then have lt: "unat j < 1024" using v by (simp add: div_less_iff_less_mult)
  have d: "pde 0 s = 0x102007" using boot_pde [OF assms(1), of 0] by simp
  let ?a = "0x102000 + 4 * j"
  have ua: "unat ?a = 1056768 + 4 * unat j" using lt by (simp add: unat_word_ariths)
  have a: "0x102000 \<le> ?a" "\<not> ?a < 0x102000" "?a < 0x103000" "?a \<noteq> 0x101000" "?a \<noteq> 0x101C00" "?a \<noteq> 0x101FFC"
    using ua lt by (auto simp: word_le_nat_alt word_less_nat_alt word_unat_eq_iff)
  have "phys_mem s ?a = page_entry (4 * j * 1024) 7" using a assms(1) by (simp add: boot_memory_def sample_phys_def)
  moreover have "pte_slot v s = ?a" by (simp add: pte_slot_def i d j_def)
  moreover have "4 * j * 1024 AND 0xFFFFF000 = v AND 0xFFFFF000"
  proof -
    have "unat (4 * j * 1024) = 4096 * unat j" using lt by (simp add: unat_word_ariths)
    then show ?thesis by (simp add: word_unat_eq_iff unat_page_base j)
  qed
  moreover have "(v AND 0xFFFFF000) + (v AND 0xFFF) = v"
    using unat32_less [of v] by (simp add: word_unat_eq_iff unat_page_base unat_page_offset unat_word_ariths)
  ultimately show ?thesis by (simp add: mmu_translate_def i d)
qed

lemma boot_memory_unmapped:
  assumes "boot_memory s" "HEAP_START \<le> v" "v < HEAP_LIMIT"
  shows "mmu_translate v s = None"
proof -
  have "\<not> twins 0 (page_dir_index v)" "\<not> twins 768 (page_dir_index v)" using heap_not_twin [OF assms(2)] by blast+
  then have "page_dir_index v \<noteq> 0" "page_dir_index v \<noteq> 768" by (auto simp: twins_def)
  then show ?thesis using heap_dir_index [OF assms(3)] boot_pde [OF assms(1), of "page_dir_index v"] by (simp add: mmu_translate_def)
qed

lemma sample_layout: "mmap_layout sample_mm 0x9000 (0x9000 + 24) [sample_mmap]"
  by (simp add: sample_mm_def sample_mmap_def)

text \<open>What \<open>mem_init\<close> makes of it, for every extension of the memory management.\<close>

lemma boot_init:
  assumes "boot_memory s"
  obtains s' where "mem_init 2 sample_mm 0x9000 24 s = Inr s'" "kmem_ok s'" "heap s' = HEAP_START" "free_blocks (allocator s') = {}"
    "free_nodes (allocator s') = 4091" "3583 \<le> card (frames s')" "mem_lock s' = 0" "kmem.more s' = kmem.more s"
    "\<And>v. v < HEAP_LIMIT \<Longrightarrow> mmu_translate v s' = mmu_translate v s" "frames s' \<subseteq> {512..<4096}"
    "\<And>p a. private_at p (boot_state [sample_mmap] s) \<Longrightarrow> frame_of a = frame_of p \<Longrightarrow> phys_mem s' a = phys_mem s a \<and> private_at p s'"
proof -
  note d = boot_memory_dir [OF assms] and r = boot_memory_ready [OF assms] and p = boot_memory_pool [OF assms]
  have "2 \<le> card (boot_pool [sample_mmap] s)" unfolding p by simp
  moreover have "\<forall>v. HEAP_START \<le> v \<longrightarrow> v < HEAP_LIMIT \<longrightarrow> mmu_translate v s = None" using boot_memory_unmapped [OF assms] by blast
  moreover have "mem_lock s = 0" using assms by (simp add: boot_memory_def)
  ultimately show ?thesis using mem_init_ok [OF d r _ sample_layout, of 2] that unfolding p by (auto simp: p)
qed

definition sample_kmem :: kmem where
  "sample_kmem = (case mem_init 2 sample_mm 0x9000 24 sample_boot of Inr s \<Rightarrow> s | Inl _ \<Rightarrow> sample_boot)"

lemma sample_init:
  "mem_init 2 sample_mm 0x9000 24 sample_boot = Inr sample_kmem" "kmem_ok sample_kmem"
  "heap sample_kmem = HEAP_START" "free_blocks (allocator sample_kmem) = {}"
  "free_nodes (allocator sample_kmem) = 4091" "3583 \<le> card (frames sample_kmem)" "mem_lock sample_kmem = 0"
proof -
  obtain s' where s': "mem_init 2 sample_mm 0x9000 24 sample_boot = Inr s'" "kmem_ok s'" "heap s' = HEAP_START"
      "free_blocks (allocator s') = {}" "free_nodes (allocator s') = 4091" "3583 \<le> card (frames s')" "mem_lock s' = 0"
    by (rule boot_init [OF sample_boot_memory])
  then have "sample_kmem = s'" by (simp add: sample_kmem_def)
  with s' show "mem_init 2 sample_mm 0x9000 24 sample_boot = Inr sample_kmem" "kmem_ok sample_kmem"
    "heap sample_kmem = HEAP_START" "free_blocks (allocator sample_kmem) = {}"
    "free_nodes (allocator sample_kmem) = 4091" "3583 \<le> card (frames sample_kmem)" "mem_lock sample_kmem = 0"
    by simp_all
qed

lemma sample_can_alloc: "unat sz \<le> 4096 \<Longrightarrow> can_alloc sz sample_kmem"
  using sample_init by (simp add: can_alloc_def Let_def small_level)

lemma sample_allocated:
  "unat sz \<le> 4096 \<Longrightarrow> \<exists>p s'. kmalloc 2 sz sample_kmem = Inr (p, s') \<and> allocated p sz s'"
  using kmalloc_allocated [of sample_kmem sz 2] sample_init sample_can_alloc [of sz] small_level(2) [of "unat sz"]
  by auto

text \<open>An allocator that holds one page.\<close>

lemma sample_one_page:
  "\<exists>a. add_block 9 0xC3000000 (allocator sample_kmem) = Inr a \<and> heap_ok a \<and> bytes (free_blocks a) = block (9, 0xC3000000) \<and>
     4090 \<le> free_nodes a"
  using add_block_ok [of "allocator sample_kmem" 9 "0xC3000000"] sample_init
  by (auto simp: kmem_ok_def block_fits_def bsize_def bytes_def)

lemma sample_room: "200 \<le> kmem_room sample_kmem"
proof -
  have "3583 div 2 \<le> card (frames sample_kmem) div 2" using sample_init(6) by (rule div_le_mono)
  then show ?thesis using sample_init by (simp add: kmem_room_def)
qed

section \<open>A kernel with three CPUs\<close>

text \<open>
  Process \<open>0x100\<close> with threads \<open>0x1000\<close>, \<open>0x2000\<close> and \<open>0x3000\<close> of priority 1 and \<open>0x4000\<close> of
  priority 2; \<open>0x1000\<close> waits for a timer. CPU 0 has the first three in its queue, CPU 1 is idle,
  CPU 2 has the waiting thread and the one of lower priority.
\<close>

definition sample_process :: process where
  "sample_process = (let s = \<lparr>virt_addr = 0, phys_addr = 0, sect_pages = 0\<rparr> in
     \<lparr>pid = 1, text_section = s, data_section = s, bss_section = s, rodata_section = s, proc_pdir = 0x101000,
      proc_name = (\<lambda>_. 0), iodescr = (\<lambda>_. \<lparr>io_input = 0, io_output = 0\<rparr>)\<rparr>)"

definition sample_thread :: "ptr \<Rightarrow> thread" where
  "sample_thread p =
     \<lparr>parent = 0x100, priority = (if p = 0x4000 then 2 else 1), stack = 0, kernel_stack = p + 0xFF0, thread_esp = 0, thread_eip = 0,
      wait_timer = 50, descr = 0, event = (if p = 0x1000 then Some TimerEvent else None)\<rparr>"

definition sample_sched :: "nat \<Rightarrow> scheduler" where
  "sample_sched i =
     \<lparr>prio_queues = (\<lambda>p. if p = 1 then (if i = 0 then [0x1000, 0x2000, 0x3000] else if i = 2 then [0x1000] else [])
                       else if p = 2 \<and> i = 2 then [0x4000] else []),
      idle_thread = 0x9000, current_thread = 0x9000, next_thread = 0, waiting_threads = [], load = 3, started = 1\<rparr>"

definition sample_kernel :: kernel where
  "sample_kernel =
     \<lparr>memory_map = memory_map sample_boot, palloc_lock = 0, phys_mem = phys_mem sample_boot, cr3 = 0x101000,
      heap = 0, allocator = allocator sample_boot, mem_lock = 0, stats = 0,
      ticks = 20, int_handlers = (\<lambda>_. Unhandled), streams = (\<lambda>_. stream_new), handlers = (\<lambda>_. 0), processes = (\<lambda>i. if i = 1 then 0x100 else 0),
      proc_lock = 0, procs = (\<lambda>_. sample_process), threads = sample_thread, schedulers = sample_sched,
      segs = \<lparr>gdt = gdt_layout 0, gdtr = \<lparr>gdtr_size = 104, gdtr_base = 0\<rparr>, tss = (\<lambda>_. zero_tss\<lparr>tss_esp0 := 0x9FF0\<rparr>)\<rparr>,
      idt_entries = (\<lambda>_. \<lparr>idt_base_low = 0, idt_selector = 0, idt_zero = 0, idt_flags = 0, idt_base_high = 0\<rparr>),
      iptr = \<lparr>iptr_size = 0, iptr_base = 0\<rparr>, lapics = (\<lambda>_ _. 0), ioapic = (\<lambda>_. 0), apic_msr = (\<lambda>_. 0), task_register = (\<lambda>_. 0),
      io_log = [], cpu_info = \<lparr>num_of_cpu = 0, maximum_cpu = 8, cpu_stack = (\<lambda>_. 0), cpu_mapping = (\<lambda>_. 0)\<rparr>\<rparr>"

lemmas sample_defs = sample_kernel_def sample_sched_def sample_thread_def sample_process_def

lemma sample_priority:
  "has_priority i p th sample_kernel \<longleftrightarrow> th \<noteq> 0 \<and> th \<noteq> 0x9000 \<and> p = (if th = 0x4000 then 2 else 1)"
  by (auto simp: has_priority_def sample_defs)

lemma sample_blocked: "blocked th sample_kernel \<longleftrightarrow> th = 0x1000"
  by (simp add: blocked_def sample_defs thread_timer_event_def)

lemma sample_ok: "sched_ok i sample_kernel"
  by (auto simp: sched_ok_def sample_priority) (auto simp: sample_defs split: if_splits)

lemmas sample_sched_ok = sample_ok [of 0]
lemmas sample_idle_ok = sample_ok [of 1]
lemmas sample_wait_ok = sample_ok [of 2]

lemma sample_after: "queues_after i sample_kernel = prio_queues (sample_sched i)"
  by (auto simp: queues_after_def returning_def enqueue_def sample_defs Let_def)

lemma sample_queues:
  "queues_after 0 sample_kernel = (\<lambda>p. if p = 1 then [0x1000] @ 0x2000 # [0x3000] else [])"
  "queues_after 1 sample_kernel = (\<lambda>p. [])"
  "queues_after 2 sample_kernel = (\<lambda>p. if p = 1 then [0x1000] else if p = 2 then [0x4000] else [])"
  by (auto simp: sample_after) (auto simp: sample_sched_def)

lemma sample_owned: "owned 0 sample_kernel = {#0x1000, 0x2000, 0x3000#}"
proof -
  have "(\<Sum>p<5. mset (if p = (1::nat) then [0x1000, 0x2000, 0x3000::ptr] else [])) = {#0x1000, 0x2000, 0x3000#}"
    using sum.delta [of "{..<5::nat}" 1 "\<lambda>_. {#0x1000, 0x2000, 0x3000::ptr#}"]
    by (simp add: if_distrib [of mset] cong: if_cong)
  then show ?thesis unfolding owned_queues_after [OF sample_sched_ok] sample_queues(1) append.simps .
qed

lemma sample_space:
  "cr3 sample_kernel = proc_pdir (procs sample_kernel (sched_cur_proc 0 sample_kernel))"
  "tss_stack sample_kernel 0 = kernel_stack (threads sample_kernel (sched_cur_thread 0 sample_kernel))"
  by (simp_all add: sample_defs Let_def sched_cur_thread_def)

lemma sample_kernel_simps:
  "idle_thread (schedulers sample_kernel i) = 0x9000" "prio_queues (schedulers sample_kernel i) = prio_queues (sample_sched i)"
  "priority (threads sample_kernel th) = (if th = 0x4000 then 2 else 1)"
  by (simp_all add: sample_kernel_def sample_sched_def sample_thread_def)

section \<open>A kernel with memory\<close>

text \<open>The same kernel after \<open>mem_init\<close>. The memory below two megabytes, less the page tables, is readable and stays so.\<close>

lemma sample_kernel_boot: "boot_memory sample_kernel"
  using sample_boot_memory by (simp add: boot_memory_def sample_kernel_def)

lemma boot_private:
  assumes "boot_memory s" "frame_of p < 512" "frame_of p \<noteq> 257" "frame_of p \<noteq> 258"
  shows "private_at p (boot_state [sample_mmap] s)"
proof -
  have c: "2 \<le> card (boot_pool [sample_mmap] s)" unfolding boot_memory_pool [OF assms(1)] by simp
  note b = boot_state_ready [OF boot_memory_dir [OF assms(1)] boot_memory_ready [OF assms(1)] c]
  have "pde i (boot_state [sample_mmap] s) = (if i = 0 \<or> i = 768 then 0x102007 else 0)" if "unat i < 1023" for i
    using that boot_pde [OF assms(1), of i] b(6) by auto
  then show ?thesis using assms(2-4)
    by (auto simp: private_at_def frames_boot_state boot_memory_pool [OF assms(1)] b(5) boot_pdir [OF assms(1)] frame_of_def)
qed

definition live_kernel :: kernel where
  "live_kernel = (case mem_init 2 sample_mm 0x9000 24 sample_kernel of Inr s \<Rightarrow> s | Inl _ \<Rightarrow> sample_kernel)"

lemma live_init:
  "room_for 100 live_kernel" "kmem.more live_kernel = kmem.more sample_kernel" "heap live_kernel = HEAP_START"
  "v < 0x400000 \<Longrightarrow> mmu_translate v live_kernel = Some v"
  "frame_of p < 512 \<Longrightarrow> frame_of p \<noteq> 257 \<Longrightarrow> frame_of p \<noteq> 258 \<Longrightarrow>
    private_at p live_kernel \<and> (\<forall>a. frame_of a = frame_of p \<longrightarrow> phys_mem live_kernel a = sample_phys a)"
proof -
  obtain s' where s': "mem_init 2 sample_mm 0x9000 24 sample_kernel = Inr s'" "kmem_ok s'" "heap s' = HEAP_START"
      "free_blocks (allocator s') = {}" "free_nodes (allocator s') = 4091" "3583 \<le> card (frames s')" "mem_lock s' = 0"
      "kmem.more s' = kmem.more sample_kernel" "\<And>v. v < HEAP_LIMIT \<Longrightarrow> mmu_translate v s' = mmu_translate v sample_kernel"
      "\<And>p a. private_at p (boot_state [sample_mmap] sample_kernel) \<Longrightarrow> frame_of a = frame_of p \<Longrightarrow>
        phys_mem s' a = phys_mem sample_kernel a \<and> private_at p s'"
    by (rule boot_init [OF sample_kernel_boot]) blast
  have l: "live_kernel = s'" using s'(1) by (simp add: live_kernel_def)
  show "room_for 100 live_kernel" using s'(2-7) by (simp add: l room_for_def)
  show "kmem.more live_kernel = kmem.more sample_kernel" "heap live_kernel = HEAP_START" using s' l by simp_all
  show "mmu_translate v live_kernel = Some v" if "v < 0x400000"
  proof -
    have "v < HEAP_LIMIT" using that by (rule less_trans) simp
    then show ?thesis using s'(9) low_identity [OF sample_kernel_boot that] by (simp add: l)
  qed
  have "phys_mem sample_kernel = sample_phys" using sample_kernel_boot by (simp add: boot_memory_def)
  then show "private_at p live_kernel \<and> (\<forall>a. frame_of a = frame_of p \<longrightarrow> phys_mem live_kernel a = sample_phys a)"
    if "frame_of p < 512" "frame_of p \<noteq> 257" "frame_of p \<noteq> 258"
    using s'(10) [OF boot_private [OF sample_kernel_boot that]] by (auto simp: l)
qed

lemmas live_fields = kernel_more [OF live_init(2)]

lemma live_below:
  assumes "v < 0x200000" "frame_of v \<noteq> 257" "frame_of v \<noteq> 258"
  shows "below_heap v live_kernel" "vread8 v live_kernel = Inr (get_byte (unat (v AND 3)) (sample_phys (v AND 0xFFFFFFFC)))"
proof -
  have v: "v < 0x400000" "v < HEAP_START" using assms(1) by (rule less_trans, simp)+
  have "unat v < 512 * 4096" using assms(1) by (simp add: word_less_nat_alt)
  then have f: "frame_of v < 512" unfolding frame_of_def by (rule less_mult_imp_div_less)
  note p = live_init(5) [OF f assms(2,3)]
  show "below_heap v live_kernel" 
    using v(2) live_init(3) live_init(4) [OF v(1)] p by (auto simp: below_heap_def heap_region_def)
  show "vread8 v live_kernel = Inr (get_byte (unat (v AND 3)) (sample_phys (v AND 0xFFFFFFFC)))"
    using live_init(4) [OF v(1)] p frame_of_word [of v] by (simp add: vread8_def)
qed

end
