(* ===== verification/Elf.thy ===== *)
theory Elf
  imports Scheduler Thread
begin

text \<open>
  Programs, \<^verbatim>\<open>kernel/elf.c\<close>: \<open>elf_load\<close> reads the section headers of an image in memory, creates a process from the
  sections it knows and a thread that starts at the entry point. \<open>img\<close> is the address of the image; header fields
  are read at their offsets.
\<close>

section \<open>Operations\<close>

text \<open>A string in memory, and one of the names the loader compares with.\<close>

definition mem_string :: "ptr \<Rightarrow> 'a machine_scheme \<Rightarrow> reader" where
  "mem_string p s i = vread8 (p + of_nat i) s"

definition literal :: "uint8 list \<Rightarrow> reader" where
  "literal cs i = (if i < length cs then Inr (cs ! i) else if i = length cs then Inr 0 else Inl OutOfBounds)"

definition text_name :: "uint8 list" where "text_name = [46, 116, 101, 120, 116]"
definition data_name :: "uint8 list" where "data_name = [46, 100, 97, 116, 97]"
definition bss_name :: "uint8 list" where "bss_name = [46, 98, 115, 115]"
definition rodata_name :: "uint8 list" where "rodata_name = [46, 114, 111, 100, 97, 116, 97]"

text \<open>The local variables of \<open>elf_load\<close>.\<close>

record elf_sections =
  elf_text :: proc_section
  elf_data :: proc_section
  elf_bss :: proc_section
  elf_rodata :: proc_section

text \<open>The three assignments of a branch, for the section header at \<open>p\<close>.\<close>

definition load_section :: "ptr \<Rightarrow> ptr \<Rightarrow> 'a machine_scheme \<Rightarrow> proc_section res" where
  "load_section img p s =
     bindE (vread32 (p + 12) s) (\<lambda>sh_addr.
     bindE (vread32 (p + 20) s) (\<lambda>sh_size.
     bindE (vread32 (p + 16) s) (\<lambda>sh_offset.
     Inr \<lparr>virt_addr = sh_addr, phys_addr = page_align (img + sh_offset), sect_pages = page_count sh_size\<rparr>)))"

definition name_is :: "nat \<Rightarrow> ptr \<Rightarrow> ptr \<Rightarrow> uint8 list \<Rightarrow> 'a machine_scheme \<Rightarrow> bool res" where
  "name_is fuel str_tab p name s =
     bindE (vread32 p s) (\<lambda>sh_name.
     bindE (kstrcmp fuel (mem_string (str_tab + sh_name) s) (literal name)) (\<lambda>r. Inr (r = 0)))"

text \<open>The body of the loop; the branch for \<^verbatim>\<open>.bss\<close> assigns to \<open>data\<close>.\<close>

definition elf_section :: "nat \<Rightarrow> ptr \<Rightarrow> ptr \<Rightarrow> ptr \<Rightarrow> elf_sections \<Rightarrow> 'a machine_scheme \<Rightarrow> elf_sections res" where
  "elf_section fuel img str_tab p e s =
     bindE (name_is fuel str_tab p text_name s) (\<lambda>b.
     bindE (if b then bindE (load_section img p s) (\<lambda>x. Inr (e\<lparr>elf_text := x\<rparr>)) else Inr e) (\<lambda>e.
     bindE (name_is fuel str_tab p data_name s) (\<lambda>b.
     bindE (if b then bindE (load_section img p s) (\<lambda>x. Inr (e\<lparr>elf_data := x\<rparr>)) else Inr e) (\<lambda>e.
     bindE (name_is fuel str_tab p bss_name s) (\<lambda>b.
     bindE (if b then bindE (load_section img p s) (\<lambda>x. Inr (e\<lparr>elf_data := x\<rparr>)) else Inr e) (\<lambda>e.
     bindE (name_is fuel str_tab p rodata_name s) (\<lambda>b.
     if b then bindE (load_section img p s) (\<lambda>x. Inr (e\<lparr>elf_rodata := x\<rparr>)) else Inr e)))))))"

fun elf_loop :: "nat \<Rightarrow> nat \<Rightarrow> ptr \<Rightarrow> ptr \<Rightarrow> ptr \<Rightarrow> elf_sections \<Rightarrow> 'a machine_scheme \<Rightarrow> elf_sections res" where
  "elf_loop 0 fuel img str_tab p e s = Inr e"
| "elf_loop (Suc n) fuel img str_tab p e s =
     bindE (elf_section fuel img str_tab p e s) (\<lambda>e. elf_loop n fuel img str_tab (p + 40) e s)"

definition no_sections :: elf_sections where
  "no_sections = \<lparr>elf_text = zero_section, elf_data = zero_section, elf_bss = zero_section, elf_rodata = zero_section\<rparr>"

definition elf_sections_of :: "nat \<Rightarrow> ptr \<Rightarrow> 'a machine_scheme \<Rightarrow> elf_sections res" where
  "elf_sections_of fuel img s =
     bindE (vread32 (img + 32) s) (\<lambda>e_shoff.
     bindE (vread16 (img + 50) s) (\<lambda>e_shstrndx.
     bindE (vread32 (img + e_shoff + 40 * ucast e_shstrndx + 16) s) (\<lambda>sh_offset.
     bindE (vread16 (img + 48) s) (\<lambda>e_shnum.
     elf_loop (unat e_shnum) fuel img (img + sh_offset) (img + e_shoff) no_sections s))))"

definition elf_load :: "nat \<Rightarrow> uint32 \<Rightarrow> uint32 \<Rightarrow> ptr \<Rightarrow> kernel \<Rightarrow> (pid_t \<times> kernel) res" where
  "elf_load fuel kpdir leave_kernel img k =
     bindE (elf_sections_of fuel img k) (\<lambda>e.
     bindE (proc_create kpdir (elf_text e) (elf_data e) (elf_bss e) (elf_rodata e) k) (\<lambda>(p, k).
     bindE (vread32 (img + 24) k) (\<lambda>e_entry.
     bindE (thread_create kpdir leave_kernel p e_entry THREAD_USERSPACE k) (\<lambda>(t, k).
     bindE (sched_thread_ready t k) (\<lambda>k.
     Inr (0, k))))))"

section \<open>What the loader takes from an image\<close>

text \<open>
  A section header in the form the loader uses it: the bytes of its name, its address, its place in
  the image and its size.
\<close>

record section_header =
  sh_name :: "uint8 list"
  sh_addr :: uint32
  sh_offset :: uint32
  sh_size :: uint32

definition header_at :: "ptr \<Rightarrow> ptr \<Rightarrow> section_header \<Rightarrow> 'a machine_scheme \<Rightarrow> bool" where
  "header_at str_tab p h s \<longleftrightarrow>
     (\<exists>n. vread32 p s = Inr n \<and> cstring (mem_string (str_tab + n) s) (sh_name h)) \<and>
     vread32 (p + 12) s = Inr (sh_addr h) \<and> vread32 (p + 16) s = Inr (sh_offset h) \<and> vread32 (p + 20) s = Inr (sh_size h)"

definition section_of :: "ptr \<Rightarrow> section_header \<Rightarrow> proc_section" where
  "section_of img h = \<lparr>virt_addr = sh_addr h, phys_addr = page_align (img + sh_offset h), sect_pages = page_count (sh_size h)\<rparr>"

text \<open>The last header with one of the given names decides.\<close>

definition last_named :: "ptr \<Rightarrow> uint8 list set \<Rightarrow> section_header list \<Rightarrow> proc_section \<Rightarrow> proc_section" where
  "last_named img names hs x = fold (\<lambda>h x. if sh_name h \<in> names then section_of img h else x) hs x"

lemma literal_cstring: "0 \<notin> set cs \<Longrightarrow> cstring (literal cs) cs"
  by (simp add: cstring_def literal_def)

lemma names_cstring: "cstring (literal text_name) text_name" "cstring (literal data_name) data_name"
  "cstring (literal bss_name) bss_name" "cstring (literal rodata_name) rodata_name"
  by (rule literal_cstring; simp add: text_name_def data_name_def bss_name_def rodata_name_def)+

lemma name_is_eq:
  assumes "header_at str_tab p h s" "cstring (literal name) name" "length name < fuel"
  shows "name_is fuel str_tab p name s = Inr (sh_name h = name)"
proof -
  obtain n where n: "vread32 p s = Inr n" "cstring (mem_string (str_tab + n) s) (sh_name h)" using assms(1) by (auto simp: header_at_def)
  have "kstrcmp fuel (mem_string (str_tab + n) s) (literal name) = Inr (compare (sh_name h) name)"
    using n(2) assms(2,3) by (intro kstrcmp_eq) simp_all
  then show ?thesis using n(1) by (simp add: name_is_def compare_0)
qed

lemma load_section_eq: "header_at str_tab p h s \<Longrightarrow> load_section img p s = Inr (section_of img h)"
  by (auto simp: header_at_def load_section_def section_of_def)

definition apply_header :: "ptr \<Rightarrow> section_header \<Rightarrow> elf_sections \<Rightarrow> elf_sections" where
  "apply_header img h e =
     \<lparr>elf_text = last_named img {text_name} [h] (elf_text e), elf_data = last_named img {data_name, bss_name} [h] (elf_data e),
      elf_bss = elf_bss e, elf_rodata = last_named img {rodata_name} [h] (elf_rodata e)\<rparr>"

lemma elf_section_eq:
  assumes "header_at str_tab p h s" "7 < fuel"
  shows "elf_section fuel img str_tab p e s = Inr (apply_header img h e)"
proof -
  have "name_is fuel str_tab p name s = Inr (sh_name h = name)" if "name \<in> {text_name, data_name, bss_name, rodata_name}" for name
    using that names_cstring assms by (intro name_is_eq) (auto simp: text_name_def data_name_def bss_name_def rodata_name_def)
  moreover have "distinct [text_name, data_name, bss_name, rodata_name]"
    by (simp add: text_name_def data_name_def bss_name_def rodata_name_def)
  ultimately show ?thesis using load_section_eq [OF assms(1)]
    by (cases e) (auto simp: elf_section_def apply_header_def last_named_def)
qed

lemma elf_loop_eq:
  assumes "\<forall>i<length hs. header_at str_tab (p + 40 * of_nat i) (hs ! i) s" "7 < fuel"
  shows "elf_loop (length hs) fuel img str_tab p e s = Inr
    \<lparr>elf_text = last_named img {text_name} hs (elf_text e), elf_data = last_named img {data_name, bss_name} hs (elf_data e),
     elf_bss = elf_bss e, elf_rodata = last_named img {rodata_name} hs (elf_rodata e)\<rparr>"
  using assms(1)
proof (induction hs arbitrary: p e)
  case Nil
  then show ?case by (cases e) (simp add: last_named_def)
next
  case (Cons h hs)
  have "header_at str_tab p h s" using Cons.prems [rule_format, of 0] by simp
  moreover have "\<forall>i<length hs. header_at str_tab (p + 40 + 40 * of_nat i) (hs ! i) s"
  proof (intro allI impI)
    fix i assume "i < length hs"
    then show "header_at str_tab (p + 40 + 40 * of_nat i) (hs ! i) s"
      using Cons.prems [rule_format, of "Suc i"] by (simp add: algebra_simps)
  qed
  ultimately show ?case using Cons.IH [of "p + 40" "apply_header img h e"] elf_section_eq [OF _ assms(2), of str_tab p h s img e]
    by (simp add: apply_header_def last_named_def)
qed

text \<open>An image whose headers can be read.\<close>

definition elf_image :: "ptr \<Rightarrow> section_header list \<Rightarrow> 'a machine_scheme \<Rightarrow> bool" where
  "elf_image img hs s \<longleftrightarrow> length hs < 2 ^ 16 \<and>
     (\<exists>shoff ndx stroff. vread32 (img + 32) s = Inr shoff \<and> vread16 (img + 50) s = Inr ndx \<and>
        vread32 (img + shoff + 40 * ucast ndx + 16) s = Inr stroff \<and> vread16 (img + 48) s = Inr (of_nat (length hs)) \<and>
        (\<forall>i<length hs. header_at (img + stroff) (img + shoff + 40 * of_nat i) (hs ! i) s))"

lemma elf_sections_of_eq:
  assumes "elf_image img hs s" "7 < fuel"
  shows "elf_sections_of fuel img s = Inr
    \<lparr>elf_text = last_named img {text_name} hs zero_section, elf_data = last_named img {data_name, bss_name} hs zero_section,
     elf_bss = zero_section, elf_rodata = last_named img {rodata_name} hs zero_section\<rparr>"
proof -
  obtain shoff ndx stroff where h: "vread32 (img + 32) s = Inr shoff" "vread16 (img + 50) s = Inr ndx"
      "vread32 (img + shoff + 40 * ucast ndx + 16) s = Inr stroff" "vread16 (img + 48) s = Inr (of_nat (length hs))"
      "\<forall>i<length hs. header_at (img + stroff) (img + shoff + 40 * of_nat i) (hs ! i) s" "length hs < 2 ^ 16"
    using assms(1) by (auto simp: elf_image_def)
  then have "unat (of_nat (length hs) :: uint16) = length hs" by (simp add: unat_of_nat)
  then show ?thesis using h elf_loop_eq [OF h(5) assms(2), of img no_sections] by (simp add: elf_sections_of_def no_sections_def)
qed

end
