(* ===== verification/Barrier.thy ===== *)
theory Barrier
  imports Prelude
begin

text \<open>
  \<open>cpu_sync\<close> of \<^verbatim>\<open>kernel/cpu.c\<close>: the CPUs wait for each other at the end of the start-up. Each one increments a
  shared counter inside a critical section and then spins until the counter is the expected one.
  The increment reads and writes the counter in two steps, so it is the lock that keeps it
  whole. The relation interleaves the steps of \<open>n\<close> CPUs.
\<close>

section \<open>Steps\<close>

datatype sync_phase = Before | Locked | Loaded int | Stored | Spinning | Passed

record barrier =
  sync_lock :: int
  awoken_cpu :: int
  sync_phase :: "nat \<Rightarrow> sync_phase"

definition sync_init :: barrier where
  "sync_init = \<lparr>sync_lock = 0, awoken_cpu = 0, sync_phase = (\<lambda>_. Before)\<rparr>"

inductive cpu_sync :: "int \<Rightarrow> nat \<Rightarrow> barrier \<Rightarrow> barrier \<Rightarrow> bool" for count n where
  sync_enter: "\<lbrakk>i < n; sync_phase b i = Before; sync_lock b = 0\<rbrakk> \<Longrightarrow>
     cpu_sync count n b (b\<lparr>sync_lock := 1, sync_phase := (sync_phase b)(i := Locked)\<rparr>)"
| sync_load: "\<lbrakk>i < n; sync_phase b i = Locked\<rbrakk> \<Longrightarrow>
     cpu_sync count n b (b\<lparr>sync_phase := (sync_phase b)(i := Loaded (awoken_cpu b))\<rparr>)"
| sync_store: "\<lbrakk>i < n; sync_phase b i = Loaded v\<rbrakk> \<Longrightarrow>
     cpu_sync count n b (b\<lparr>awoken_cpu := v + 1, sync_phase := (sync_phase b)(i := Stored)\<rparr>)"
| sync_leave: "\<lbrakk>i < n; sync_phase b i = Stored\<rbrakk> \<Longrightarrow>
     cpu_sync count n b (b\<lparr>sync_lock := 0, sync_phase := (sync_phase b)(i := Spinning)\<rparr>)"
| sync_pass: "\<lbrakk>i < n; sync_phase b i = Spinning; awoken_cpu b = count\<rbrakk> \<Longrightarrow>
     cpu_sync count n b (b\<lparr>sync_phase := (sync_phase b)(i := Passed)\<rparr>)"

inductive_cases cpu_syncE: "cpu_sync count n b b'"

inductive sync_reach :: "int \<Rightarrow> nat \<Rightarrow> barrier \<Rightarrow> bool" for count n where
  sync_start: "sync_reach count n sync_init"
| sync_step: "sync_reach count n b \<Longrightarrow> cpu_sync count n b b' \<Longrightarrow> sync_reach count n b'"

section \<open>Counting\<close>

fun in_section :: "sync_phase \<Rightarrow> bool" where
  "in_section Locked = True"
| "in_section (Loaded v) = True"
| "in_section Stored = True"
| "in_section _ = False"

fun arrived :: "sync_phase \<Rightarrow> bool" where
  "arrived Stored = True"
| "arrived Spinning = True"
| "arrived Passed = True"
| "arrived _ = False"

definition arrivals :: "nat \<Rightarrow> (nat \<Rightarrow> sync_phase) \<Rightarrow> nat set" where
  "arrivals n f = {i. i < n \<and> arrived (f i)}"

definition sync_inv :: "nat \<Rightarrow> barrier \<Rightarrow> bool" where
  "sync_inv n b \<longleftrightarrow> awoken_cpu b = int (card (arrivals n (sync_phase b))) \<and>
     (\<forall>i j. i < n \<longrightarrow> j < n \<longrightarrow> in_section (sync_phase b i) \<longrightarrow> in_section (sync_phase b j) \<longrightarrow> i = j) \<and>
     (sync_lock b = 0 \<longleftrightarrow> (\<forall>i<n. \<not> in_section (sync_phase b i))) \<and>
     (\<forall>i<n. \<forall>v. sync_phase b i = Loaded v \<longrightarrow> v = awoken_cpu b)"

lemma finite_arrivals [simp]: "finite (arrivals n f)"
  by (simp add: arrivals_def)

lemma arrivals_same: "arrived p = arrived (f i) \<Longrightarrow> arrivals n (f(i := p)) = arrivals n f"
  by (auto simp: arrivals_def)

lemma card_arrivals_new: "i < n \<Longrightarrow> \<not> arrived (f i) \<Longrightarrow> arrived p \<Longrightarrow> card (arrivals n (f(i := p))) = Suc (card (arrivals n f))"
proof -
  assume "i < n" "\<not> arrived (f i)" "arrived p"
  then have "arrivals n (f(i := p)) = insert i (arrivals n f)" "i \<notin> arrivals n f" by (auto simp: arrivals_def)
  then show ?thesis by simp
qed

lemma sync_inv_init: "sync_inv n sync_init"
  by (simp add: sync_inv_def sync_init_def arrivals_def)

lemma sync_invI:
  assumes "awoken_cpu b = int (card (arrivals n (sync_phase b)))"
    "i < n" "\<And>j. j < n \<Longrightarrow> j \<noteq> i \<Longrightarrow> \<not> in_section (sync_phase b j)" "sync_lock b = 0 \<longleftrightarrow> \<not> in_section (sync_phase b i)"
    "\<And>v. sync_phase b i = Loaded v \<Longrightarrow> v = awoken_cpu b"
  shows "sync_inv n b"
  using assms unfolding sync_inv_def by (metis in_section.simps(2))

lemma others_outside: "sync_inv n b \<Longrightarrow> i < n \<Longrightarrow> in_section (sync_phase b i) \<Longrightarrow> j < n \<Longrightarrow> j \<noteq> i \<Longrightarrow> \<not> in_section (sync_phase b j)"
  by (auto simp: sync_inv_def)

lemma sync_inv_count: "sync_inv n b \<Longrightarrow> awoken_cpu b = int (card (arrivals n (sync_phase b)))"
  by (simp add: sync_inv_def)

lemma sync_inv_step: "cpu_sync count n b b' \<Longrightarrow> sync_inv n b \<Longrightarrow> sync_inv n b'"
proof (induction rule: cpu_sync.induct)
  case (sync_enter i b)
  then have "\<not> in_section (sync_phase b j)" if "j < n" for j using that by (simp add: sync_inv_def)
  then show ?case using sync_enter sync_inv_count [of n b] by (intro sync_invI [of _ _ i]) (auto simp: arrivals_same)
next
  case (sync_load i b)
  then have "sync_lock b \<noteq> 0" by (auto simp: sync_inv_def)
  then show ?case using sync_load others_outside [of n b i] sync_inv_count [of n b]
    by (intro sync_invI [of _ _ i]) (auto simp: arrivals_same)
next
  case (sync_store i b v)
  then have "v = awoken_cpu b" "sync_lock b \<noteq> 0" by (auto simp: sync_inv_def)
  then show ?case using sync_store others_outside [of n b i] sync_inv_count [of n b]
    by (intro sync_invI [of _ _ i]) (auto simp: card_arrivals_new)
next
  case (sync_leave i b)
  then show ?case using others_outside [of n b i] sync_inv_count [of n b]
    by (intro sync_invI [of _ _ i]) (auto simp: arrivals_same)
next
  case (sync_pass i b)
  have "in_section (((sync_phase b)(i := Passed)) j) = in_section (sync_phase b j)" for j using sync_pass by simp
  then show ?case using sync_pass unfolding sync_inv_def by (auto simp: arrivals_same)
qed

lemma sync_reach_inv: "sync_reach count n b \<Longrightarrow> sync_inv n b"
  by (induction rule: sync_reach.induct) (auto intro: sync_inv_init sync_inv_step)

section \<open>Nobody passes early, and everybody passes\<close>

lemma card_arrivals_all: "card (arrivals n f) = n \<longleftrightarrow> (\<forall>i<n. arrived (f i))"
proof -
  have "arrivals n f \<subseteq> {..<n}" by (auto simp: arrivals_def)
  then have "card (arrivals n f) = n \<longleftrightarrow> arrivals n f = {..<n}" by (metis card_lessThan card_subset_eq finite_lessThan)
  then show ?thesis by (auto simp: arrivals_def)
qed

lemma passed_all_arrived:
  "sync_reach (int n) n b \<Longrightarrow> i < n \<Longrightarrow> sync_phase b i = Passed \<Longrightarrow> \<forall>j<n. arrived (sync_phase b j)"
proof (induction arbitrary: i rule: sync_reach.induct)
  case sync_start
  then show ?case by (simp add: sync_init_def)
next
  case (sync_step b b')
  note inv = sync_reach_inv [OF sync_step.hyps(1)]
  from sync_step.hyps(2) show ?case
  proof (cases rule: cpu_sync.cases)
    case (sync_pass k)
    then have "card (arrivals n (sync_phase b)) = n" using inv by (simp add: sync_inv_def)
    then have "\<forall>j<n. arrived (sync_phase b j)" by (simp add: card_arrivals_all)
    then show ?thesis using sync_pass by auto
  qed (use sync_step in \<open>(force split: if_splits)+\<close>)
qed

fun steps_left :: "sync_phase \<Rightarrow> nat" where
  "steps_left Before = 5"
| "steps_left Locked = 4"
| "steps_left (Loaded v) = 3"
| "steps_left Stored = 2"
| "steps_left Spinning = 1"
| "steps_left Passed = 0"

definition sync_work :: "nat \<Rightarrow> barrier \<Rightarrow> nat" where
  "sync_work n b = (\<Sum>i<n. steps_left (sync_phase b i))"

lemma sum_upd_less:
  fixes g :: "'a \<Rightarrow> nat" and n :: nat
  assumes "i < n" "g p < g (h i)"
  shows "(\<Sum>j<n. g ((h(i := p)) j)) < (\<Sum>j<n. g (h j))"
proof (rule sum_strict_mono_ex1)
  show "\<forall>j\<in>{..<n}. g ((h(i := p)) j) \<le> g (h j)" using assms by auto
  show "\<exists>j\<in>{..<n}. g ((h(i := p)) j) < g (h j)" using assms by (intro bexI [of _ i]) auto
qed simp

lemma sync_work_upd:
  "i < n \<Longrightarrow> steps_left p < steps_left (sync_phase b i) \<Longrightarrow> sync_phase b' = (sync_phase b)(i := p) \<Longrightarrow> sync_work n b' < sync_work n b"
  unfolding sync_work_def using sum_upd_less [of i n steps_left p "sync_phase b"] by simp

lemma sync_work_step: "cpu_sync count n b b' \<Longrightarrow> sync_work n b' < sync_work n b"
proof (induction rule: cpu_sync.induct)
  case (sync_enter i b)
  then show ?case by (intro sync_work_upd [of i n Locked]) simp_all
next
  case (sync_load i b)
  then show ?case by (intro sync_work_upd [of i n "Loaded (awoken_cpu b)"]) simp_all
next
  case (sync_store i b v)
  then show ?case by (intro sync_work_upd [of i n Stored]) simp_all
next
  case (sync_leave i b)
  then show ?case by (intro sync_work_upd [of i n Spinning]) simp_all
next
  case (sync_pass i b)
  then show ?case by (intro sync_work_upd [of i n Passed]) simp_all
qed

lemma sync_progress:
  assumes "sync_reach (int n) n b" "i < n" "sync_phase b i \<noteq> Passed"
  shows "\<exists>b'. cpu_sync (int n) n b b'"
proof -
  note inv = sync_reach_inv [OF assms(1)]
  consider (sect) j where "j < n" "in_section (sync_phase b j)" | (before) j where "j < n" "sync_phase b j = Before" "sync_lock b = 0"
    | (spin) "\<forall>j<n. arrived (sync_phase b j)" "sync_phase b i = Spinning"
  proof (cases "\<exists>j<n. in_section (sync_phase b j)")
    case False
    then have l: "sync_lock b = 0" using inv by (auto simp: sync_inv_def)
    show ?thesis
    proof (cases "\<exists>j<n. sync_phase b j = Before")
      case no: False
      have ph: "arrived (sync_phase b j) \<and> sync_phase b j \<in> {Spinning, Passed}" if "j < n" for j
        using False no that by (cases "sync_phase b j") auto
      then show ?thesis using spin assms by auto
    qed (use before l in blast)
  qed blast
  then show ?thesis
  proof cases
    case sect
    then show ?thesis by (cases "sync_phase b j") (auto intro: cpu_sync.intros)
  next
    case before
    then show ?thesis by (auto intro: cpu_sync.intros)
  next
    case spin
    then have "awoken_cpu b = int n" using inv by (simp add: sync_inv_def card_arrivals_all [symmetric])
    then show ?thesis using spin assms(2) by (auto intro: cpu_sync.intros)
  qed
qed

text \<open>A CPU that finds the lock free arrives in four steps of its own.\<close>

lemma sync_arrives:
  assumes "sync_reach count n b" "i < n" "sync_phase b i = Before" "sync_lock b = 0"
  shows "sync_reach count n (b\<lparr>awoken_cpu := awoken_cpu b + 1, sync_phase := (sync_phase b)(i := Spinning)\<rparr>)"
proof -
  let ?b1 = "b\<lparr>sync_lock := 1, sync_phase := (sync_phase b)(i := Locked)\<rparr>"
  let ?b2 = "b\<lparr>sync_lock := 1, sync_phase := (sync_phase b)(i := Loaded (awoken_cpu b))\<rparr>"
  let ?b3 = "b\<lparr>sync_lock := 1, awoken_cpu := awoken_cpu b + 1, sync_phase := (sync_phase b)(i := Stored)\<rparr>"
  have "cpu_sync count n b ?b1" using sync_enter [OF assms(2-4)] .
  moreover have "cpu_sync count n ?b1 ?b2" using sync_load [OF assms(2), of ?b1] by simp
  moreover have "cpu_sync count n ?b2 ?b3" using sync_store [OF assms(2), of ?b2] by simp
  moreover have "cpu_sync count n ?b3 (b\<lparr>awoken_cpu := awoken_cpu b + 1, sync_phase := (sync_phase b)(i := Spinning)\<rparr>)"
    using sync_leave [OF assms(2), of ?b3] assms(4) by (cases b) simp
  ultimately show ?thesis using assms(1) sync_step by metis
qed

end
