(* ===== verification/Cpu.thy ===== *)
theory Cpu
  imports Timer Barrier
begin

text \<open>
  The CPUs, \<^verbatim>\<open>kernel/cpu.c\<close>: the search for the tables of the firmware, the list of processors and the start of
  the others. The tables are read byte by byte through the page tables. The barrier at the end
  of the start-up is in \<open>Barrier\<close>. \<open>tramp\<close>, \<open>tramp_end\<close>, \<open>gdt_ptr\<close> and \<open>gdt_end\<close> are the addresses of the code
  of \<^verbatim>\<open>cpu_asm.s\<close> and the table of \<^verbatim>\<open>entry.s\<close> that are copied below one megabyte. The control registers are
  not part of the state: \<open>restore_cr0\<close> sets the two bits that enable protection and paging.
\<close>

section \<open>The search\<close>

text \<open>The four bytes of the signature; the comparison stops with the first that differs.\<close>

fun bytes_match :: "uint8 list \<Rightarrow> ptr \<Rightarrow> 'a machine_scheme \<Rightarrow> bool res" where
  "bytes_match [] p s = Inr True"
| "bytes_match (c # cs) p s = bindE (vread8 p s) (\<lambda>x. if x = c then bytes_match cs (p + 1) s else Inr False)"

definition mp_signature :: "uint8 list" where
  "mp_signature = [95, 77, 80, 95]"

fun mp_slide_loop :: "nat \<Rightarrow> ptr \<Rightarrow> ptr \<Rightarrow> 'a machine_scheme \<Rightarrow> ptr res" where
  "mp_slide_loop 0 from to s = (if from < to then Inl Diverges else Inr 0)"
| "mp_slide_loop (Suc fuel) from to s =
     (if from < to
      then bindE (bytes_match mp_signature from s) (\<lambda>b. if b then Inr from else mp_slide_loop fuel (from + 1) to s)
      else Inr 0)"

definition mp_slide :: "ptr \<Rightarrow> ptr \<Rightarrow> 'a machine_scheme \<Rightarrow> ptr res" where
  "mp_slide from to s = mp_slide_loop (unat to - unat from) from to s"

definition mp_find :: "'a machine_scheme \<Rightarrow> ptr res" where
  "mp_find s =
     bindE (mp_slide (639 * 1024) (640 * 1024) s) (\<lambda>mp_tab.
     if mp_tab \<noteq> 0 then Inr mp_tab
     else bindE (mp_slide 0xF0000 0xFFFFF s) (\<lambda>mp_tab.
     if mp_tab \<noteq> 0 then Inr mp_tab else Inr 0))"

section \<open>The list of processors\<close>

text \<open>
  The pointer to the configuration is at offset 4, its number of entries at offset 34 and its entries from
  offset 44 on. An entry for a processor has 20 bytes, starts with 0 and has the number of the
  local APIC next.
\<close>

fun cpu_loop :: "nat \<Rightarrow> nat \<Rightarrow> ptr \<Rightarrow> kernel \<Rightarrow> kernel res" where
  "cpu_loop 0 i p k = Inr k"
| "cpu_loop (Suc n) i p k =
     bindE (vread8 p k) (\<lambda>type.
     if type = 0
     then bindE (kmalloc 2 PAGE_SIZE k) (\<lambda>(a, k).
       bindE (vread8 (p + 1) k) (\<lambda>lapic_id.
       if unat lapic_id < MAX_CPU \<and> i < MAX_CPU
       then let c = cpu_info k;
                c = c\<lparr>cpu_stack := (cpu_stack c)(unat lapic_id := a + PAGE_SIZE - 0x10)\<rparr>;
                c = c\<lparr>cpu_mapping := (cpu_mapping c)(i := lapic_id)\<rparr>;
                c = c\<lparr>num_of_cpu := num_of_cpu c + 1\<rparr>
            in cpu_loop n (Suc i) (p + 20) (k\<lparr>cpu_info := c\<rparr>)
       else Inl OutOfBounds))
     else Inr k)"

definition cpu_find :: "kernel \<Rightarrow> kernel res" where
  "cpu_find k =
     bindE (mp_find k) (\<lambda>mp.
     bindE (vread32 (mp + 4) k) (\<lambda>mpc.
     let k = k\<lparr>cpu_info := (cpu_info k)\<lparr>num_of_cpu := 0, cpu_mapping := (cpu_mapping (cpu_info k))(0 := 0)\<rparr>\<rparr> in
     bindE (vread16 (mpc + 34) k) (\<lambda>entry_count.
     bindE (cpu_loop (unat entry_count) 0 (mpc + 44) k) (\<lambda>k.
     Inr (if num_of_cpu (cpu_info k) < int (unat (maximum_cpu (cpu_info k)))
          then k\<lparr>cpu_info := (cpu_info k)\<lparr>maximum_cpu := of_int (num_of_cpu (cpu_info k))\<rparr>\<rparr>
          else k)))))"

definition cpu_count :: "kernel \<Rightarrow> int" where
  "cpu_count k = num_of_cpu (cpu_info k)"

section \<open>The start of the other processors\<close>

definition lapic_send :: "nat \<Rightarrow> uint32 \<Rightarrow> uint32 \<Rightarrow> kernel \<Rightarrow> kernel" where
  "lapic_send cpu high low k =
     k\<lparr>lapics := (lapics k)(cpu := lapic_set 0x300 low (lapic_set 0x310 high (lapics k cpu)))\<rparr>"

definition cpu_wake :: "device \<Rightarrow> nat \<Rightarrow> nat \<Rightarrow> uint32 \<Rightarrow> nat \<Rightarrow> kernel \<Rightarrow> kernel res" where
  "cpu_wake dev fuel this addr cpu k =
     (if cpu < MAX_CPU
      then let n = push_bit 24 (ucast (cpu_mapping (cpu_info k) cpu)) in
           bindE (timer_active_wait dev fuel 1 (lapic_send this n (0x500 OR 0x8000 OR 0x4000) k)) (\<lambda>k.
           bindE (timer_active_wait dev fuel 1 (lapic_send this n (0x500 OR 0x8000 OR 0) k)) (\<lambda>k.
           timer_active_wait dev fuel 1 (lapic_send this n (0x600 OR drop_bit 12 addr) k)))
      else Inl OutOfBounds)"

fun cpu_wake_loop :: "device \<Rightarrow> nat \<Rightarrow> nat \<Rightarrow> uint32 \<Rightarrow> nat \<Rightarrow> nat \<Rightarrow> kernel \<Rightarrow> kernel res" where
  "cpu_wake_loop dev fuel this addr 0 cpu k = Inr k"
| "cpu_wake_loop dev fuel this addr (Suc n) cpu k =
     bindE (cpu_wake dev fuel this addr cpu k) (cpu_wake_loop dev fuel this addr n (Suc cpu))"

definition cpu_wake_all ::
  "device \<Rightarrow> nat \<Rightarrow> nat \<Rightarrow> uint32 \<Rightarrow> uint32 \<Rightarrow> uint32 \<Rightarrow> uint32 \<Rightarrow> nat \<Rightarrow> kernel \<Rightarrow> kernel res" where
  "cpu_wake_all dev fuel this tramp tramp_end gdt_ptr gdt_end count k =
     (let trampoline = 0x50000;
          warm_reset_vector = 0x1000 in
      bindE (paging_map trampoline 0x50000 (PAGE_WRITABLE OR PAGE_PRESENT) k) (\<lambda>k.
      bindE (kmemcpy trampoline tramp (tramp_end - tramp) k) (\<lambda>(_, k).
      bindE (kmemcpy (trampoline + PAGE_SIZE) gdt_ptr (gdt_end - gdt_ptr) k) (\<lambda>(_, k).
      bindE (paging_get_phys trampoline k) (\<lambda>addr.
      bindE (vwrite32 (trampoline + PAGE_SIZE + 2) (addr + PAGE_SIZE + 6) k) (\<lambda>k.
      let k = k\<lparr>io_log := port_write 0x71 0x0A (port_write 0x70 0x0F (io_log k))\<rparr> in
      bindE (paging_map warm_reset_vector 0x467 (PAGE_PRESENT OR PAGE_WRITABLE) k) (\<lambda>k.
      bindE (vwrite16 warm_reset_vector (ucast (addr AND 0xf)) k) (\<lambda>k.
      bindE (vwrite16 (warm_reset_vector + 2) (ucast (drop_bit 4 addr)) k) (\<lambda>k.
      cpu_wake_loop dev fuel this addr (count - 1) 1 k)))))))))"

section \<open>The search finds the first signature\<close>

definition signed_at :: "(ptr \<Rightarrow> uint8) \<Rightarrow> ptr \<Rightarrow> bool" where
  "signed_at m p \<longleftrightarrow> map m [p, p + 1, p + 2, p + 3] = mp_signature"

lemma bytes_match_eq:
  assumes "\<And>i. i < 4 \<Longrightarrow> vread8 (p + of_nat i) s = Inr (m (p + of_nat i))"
  shows "bytes_match mp_signature p s = Inr (signed_at m p)"
  using assms [of 0] assms [of 1] assms [of 2] assms [of 3] by (auto simp: mp_signature_def signed_at_def add.assoc)

definition first_signed :: "(ptr \<Rightarrow> uint8) \<Rightarrow> ptr \<Rightarrow> ptr \<Rightarrow> ptr \<Rightarrow> bool" where
  "first_signed m from to a \<longleftrightarrow> from \<le> a \<and> a < to \<and> signed_at m a \<and> (\<forall>b. from \<le> b \<and> b < a \<longrightarrow> \<not> signed_at m b)"

definition none_signed :: "(ptr \<Rightarrow> uint8) \<Rightarrow> ptr \<Rightarrow> ptr \<Rightarrow> bool" where
  "none_signed m from to \<longleftrightarrow> (\<forall>b. from \<le> b \<and> b < to \<longrightarrow> \<not> signed_at m b)"

lemma signed_step:
  assumes "unat (from + 1) = unat from + 1"
  shows "signed_at m from \<Longrightarrow> from < to \<Longrightarrow> first_signed m from to from"
    "\<not> signed_at m from \<Longrightarrow> first_signed m (from + 1) to a \<Longrightarrow> first_signed m from to a"
    "\<not> signed_at m from \<Longrightarrow> none_signed m (from + 1) to \<Longrightarrow> none_signed m from to"
proof -
  have split: "from \<le> b \<longleftrightarrow> b = from \<or> from + 1 \<le> b" for b using assms by (auto simp: word_le_nat_alt word_unat_eq_iff)
  show "\<not> signed_at m from \<Longrightarrow> first_signed m (from + 1) to a \<Longrightarrow> first_signed m from to a"
    unfolding first_signed_def split by blast
  show "\<not> signed_at m from \<Longrightarrow> none_signed m (from + 1) to \<Longrightarrow> none_signed m from to"
    unfolding none_signed_def split by blast
qed (auto simp: first_signed_def)

lemma mp_slide_loop_eq:
  assumes "\<And>v. unat from \<le> unat v \<Longrightarrow> unat v < unat to + 3 \<Longrightarrow> vread8 v s = Inr (m v)" "unat to + 3 < 2 ^ 32"
    "unat to - unat from \<le> fuel"
  shows "(\<exists>a. mp_slide_loop fuel from to s = Inr a \<and> first_signed m from to a) \<or>
    mp_slide_loop fuel from to s = Inr 0 \<and> none_signed m from to"
  using assms
proof (induction fuel arbitrary: "from")
  case 0
  then show ?case by (auto simp: word_less_nat_alt word_le_nat_alt none_signed_def)
next
  case (Suc fuel)
  show ?case
  proof (cases "from < to")
    case True
    have add: "unat (from + of_nat i) = unat from + i" if "i < 4" for i
      using that True Suc.prems(2) by (simp add: unat_word_ariths unat_of_nat word_less_nat_alt)
    have bm: "bytes_match mp_signature from s = Inr (signed_at m from)"
      using True add by (intro bytes_match_eq Suc.prems(1)) (auto simp: word_less_nat_alt)
    have u: "unat (from + 1) = unat from + 1" using add [of 1] by simp
    have "(\<exists>a. mp_slide_loop fuel (from + 1) to s = Inr a \<and> first_signed m (from + 1) to a) \<or>
        mp_slide_loop fuel (from + 1) to s = Inr 0 \<and> none_signed m (from + 1) to"
      by (rule Suc.IH) (use Suc.prems u in auto)
    then show ?thesis using True bm signed_step [OF u] by (cases "signed_at m from") auto
  qed (auto simp: none_signed_def)
qed

lemma mp_slide_eq:
  assumes "\<And>v. unat from \<le> unat v \<Longrightarrow> unat v < unat to + 3 \<Longrightarrow> vread8 v s = Inr (m v)" "unat to + 3 < 2 ^ 32"
  shows "(\<exists>a. mp_slide from to s = Inr a \<and> first_signed m from to a) \<or> mp_slide from to s = Inr 0 \<and> none_signed m from to"
  unfolding mp_slide_def by (rule mp_slide_loop_eq [OF assms order_refl])

text \<open>\<open>mp_find\<close> looks at the last kilobyte of the base memory first, then at the firmware.\<close>

lemma mp_find_eq:
  assumes "\<And>v. v < 0x100002 \<Longrightarrow> vread8 v s = Inr (m v)"
  shows "\<exists>a. mp_find s = Inr a \<and>
    (first_signed m 0x9FC00 0xA0000 a \<or>
     none_signed m 0x9FC00 0xA0000 \<and> (first_signed m 0xF0000 0xFFFFF a \<or> none_signed m 0xF0000 0xFFFFF \<and> a = 0))"
proof -
  have r: "vread8 v s = Inr (m v)" if "unat v < 1048578" for v using that assms [of v] by (simp add: word_less_nat_alt)
  have 1: "(\<exists>a. mp_slide 0x9FC00 0xA0000 s = Inr a \<and> first_signed m 0x9FC00 0xA0000 a) \<or>
      mp_slide 0x9FC00 0xA0000 s = Inr 0 \<and> none_signed m 0x9FC00 0xA0000"
    by (rule mp_slide_eq) (simp_all add: r)
  have 2: "(\<exists>a. mp_slide 0xF0000 0xFFFFF s = Inr a \<and> first_signed m 0xF0000 0xFFFFF a) \<or>
      mp_slide 0xF0000 0xFFFFF s = Inr 0 \<and> none_signed m 0xF0000 0xFFFFF"
    by (rule mp_slide_eq) (simp_all add: r)
  have pos: "a \<noteq> 0" if "first_signed m 0x9FC00 0xA0000 a \<or> first_signed m 0xF0000 0xFFFFF a" for a
    using that by (auto simp: first_signed_def)
  show ?thesis
  proof (cases "none_signed m 0x9FC00 0xA0000")
    case True
    then have "mp_slide 0x9FC00 0xA0000 s = Inr 0" using 1 by (auto simp: first_signed_def none_signed_def)
    then show ?thesis using 2 True by (auto simp: mp_find_def)
  next
    case False
    then obtain a where "mp_slide 0x9FC00 0xA0000 s = Inr a" "first_signed m 0x9FC00 0xA0000 a" using 1 by blast
    then show ?thesis using pos by (auto simp: mp_find_def)
  qed
qed

section \<open>The list of processors\<close>

text \<open>The bytes of the table are below the heap and readable.\<close>

definition table_byte :: "kernel \<Rightarrow> ptr \<Rightarrow> uint8 \<Rightarrow> bool" where
  "table_byte k v x \<longleftrightarrow> below_heap v k \<and> vread8 v k = Inr x"

lemma table_byte_kept: "low_kept k k' \<Longrightarrow> table_byte k v x \<Longrightarrow> table_byte k' v x"
  by (simp add: table_byte_def low_kept_def)

definition proc_entries :: "kernel \<Rightarrow> ptr \<Rightarrow> uint8 list \<Rightarrow> bool" where
  "proc_entries k p ids \<longleftrightarrow> (\<forall>j<length ids. table_byte k (p + 20 * of_nat j) 0 \<and> table_byte k (p + 20 * of_nat j + 1) (ids ! j))"

lemma proc_entries_Cons:
  "proc_entries k p (x # ids) \<longleftrightarrow> table_byte k p 0 \<and> table_byte k (p + 1) x \<and> proc_entries k (p + 20) ids"
proof -
  have "P (p + 20 * of_nat (Suc j)) (p + 20 * of_nat (Suc j) + 1) \<longleftrightarrow> P (p + 20 + 20 * of_nat j) (p + 20 + 20 * of_nat j + 1)" for P j
    by (simp add: algebra_simps)
  then show ?thesis unfolding proc_entries_def length_Cons All_less_Suc2 by (auto simp: algebra_simps)
qed

text \<open>The stacks: the top of a fresh page for each processor.\<close>

fun give_stacks :: "uint8 list \<Rightarrow> uint32 list \<Rightarrow> (nat \<Rightarrow> uint32) \<Rightarrow> (nat \<Rightarrow> uint32)" where
  "give_stacks (x # xs) (a # as) f = give_stacks xs as (f(unat x := a + PAGE_SIZE - 0x10))"
| "give_stacks _ _ f = f"

lemma cpu_info_cong [simp]:
  "low_kept k0 (k\<lparr>cpu_info := c\<rparr>) = low_kept k0 k" "room_for n (k\<lparr>cpu_info := c\<rparr>) = room_for n k"
  "vread8 v (k\<lparr>cpu_info := c\<rparr>) = vread8 v k" "taken a (k\<lparr>cpu_info := c\<rparr>) = taken a k"
proof -
  show "low_kept k0 (k\<lparr>cpu_info := c\<rparr>) = low_kept k0 k"
    unfolding low_kept_def by (simp add: below_heap_cong [of "k\<lparr>cpu_info := c\<rparr>" k])
  show "room_for n (k\<lparr>cpu_info := c\<rparr>) = room_for n k"
    using kmem_ok_cong [of "k\<lparr>cpu_info := c\<rparr>" k] by (simp add: room_for_def)
qed (simp_all add: below_heap_cong [of "k\<lparr>cpu_info := c\<rparr>" k] taken_def)

definition cpus_after :: "nat \<Rightarrow> uint8 list \<Rightarrow> uint32 list \<Rightarrow> cpus \<Rightarrow> cpus" where
  "cpus_after i ids as c = c\<lparr>num_of_cpu := num_of_cpu c + int (length ids), cpu_stack := give_stacks ids as (cpu_stack c),
     cpu_mapping := (\<lambda>j. if i \<le> j \<and> j < i + length ids then ids ! (j - i) else cpu_mapping c j)\<rparr>"

lemma cpu_loop_ok:
  assumes "room_for (length ids) k" "proc_entries k p ids" "\<forall>x\<in>set ids. unat x < MAX_CPU" "i + length ids \<le> MAX_CPU"
    "length ids \<le> n" "n = length ids \<or> (\<exists>x. x \<noteq> 0 \<and> table_byte k (p + 20 * of_nat (length ids)) x)"
  shows "\<exists>k' as. cpu_loop n i p k = Inr k' \<and> low_kept k k' \<and> length as = length ids \<and> distinct as \<and>
    (\<forall>a\<in>set as. taken a k') \<and> (\<forall>b. taken b k \<longrightarrow> taken b k' \<and> b \<notin> set as) \<and> cpu_info k' = cpus_after i ids as (cpu_info k) \<and>
    room_for 0 k'"
  using assms
proof (induction ids arbitrary: k p i n)
  case Nil
  have "cpu_loop n i p k = Inr k" using Nil.prems(6) by (cases n) (auto simp: table_byte_def)
  then show ?case using Nil.prems(1) by (intro exI [of _ k] exI [of _ "[]"]) (auto simp: cpus_after_def fun_eq_iff intro!: cpus.equality)
next
  case (Cons x ids)
  note pe = Cons.prems(2) [unfolded proc_entries_Cons]
  have rf: "room_for (Suc (length ids)) k" using Cons.prems(1) by simp
  obtain m where n: "n = Suc m" using Cons.prems(5) by (cases n) auto
  obtain a k1 where k1: "kmalloc 2 PAGE_SIZE k = Inr (a, k1)" using kmalloc_got_block [of k PAGE_SIZE 2] room_for_alloc [OF rf, of PAGE_SIZE]
      small_level(2) [of 4096] by auto
  have low: "low_kept k k1" and got: "got_block PAGE_SIZE k a k1" using kmalloc_low [OF rf _ k1] by simp_all
  define c where "c = (cpu_info k)\<lparr>cpu_stack := (cpu_stack (cpu_info k))(unat x := a + PAGE_SIZE - 0x10),
      cpu_mapping := (cpu_mapping (cpu_info k))(i := x), num_of_cpu := num_of_cpu (cpu_info k) + 1\<rparr>"
  define k2 where "k2 = k1\<lparr>cpu_info := c\<rparr>"
  have ci: "cpu_info k1 = cpu_info k" by (rule kernel_more(13) [OF kmalloc_more [OF k1]])
  have low2: "low_kept k k2" using low by (simp add: k2_def)
  have "cpu_loop n i p k = cpu_loop m (Suc i) (p + 20) k2"
    using pe table_byte_kept [OF low, of "p + 1" x] Cons.prems(3,4) k1
    by (simp add: n table_byte_def ci k2_def c_def Let_def)
  moreover have "\<exists>k' as. cpu_loop m (Suc i) (p + 20) k2 = Inr k' \<and> low_kept k2 k' \<and> length as = length ids \<and> distinct as \<and>
      (\<forall>a\<in>set as. taken a k') \<and> (\<forall>b. taken b k2 \<longrightarrow> taken b k' \<and> b \<notin> set as) \<and> cpu_info k' = cpus_after (Suc i) ids as (cpu_info k2) \<and>
      room_for 0 k'"
  proof (rule Cons.IH)
    show "room_for (length ids) k2" using room_for_next [OF rf _ got] by (simp add: k2_def)
    show "proc_entries k2 (p + 20) ids" using pe table_byte_kept [OF low2] by (simp add: proc_entries_def)
    show "m = length ids \<or> (\<exists>x. x \<noteq> 0 \<and> table_byte k2 (p + 20 + 20 * of_nat (length ids)) x)"
      using Cons.prems(6) table_byte_kept [OF low2] by (auto simp: n algebra_simps)
  qed (use Cons.prems n in auto)
  then obtain k' as where k': "cpu_loop m (Suc i) (p + 20) k2 = Inr k'" "low_kept k2 k'" "length as = length ids" "distinct as"
      "\<forall>a\<in>set as. taken a k'" "\<And>b. taken b k2 \<Longrightarrow> taken b k' \<and> b \<notin> set as" "cpu_info k' = cpus_after (Suc i) ids as c" "room_for 0 k'"
    by (auto simp: k2_def)
  have "cpus_after (Suc i) ids as c = cpus_after i (x # ids) (a # as) (cpu_info k)"
    by (auto simp: cpus_after_def c_def fun_eq_iff nth_Cons' intro!: cpus.equality)
  moreover have "taken a k2" using taken_new [OF got] by (simp add: k2_def)
  moreover have "taken b k2 \<and> b \<noteq> a" if "taken b k" for b using taken_keep [OF got that] by (simp add: k2_def)
  ultimately show ?case using k' low_kept_trans [OF low2 k'(2)]
    by (intro exI [of _ k'] exI [of _ "a # as"]) auto
qed

lemma give_stacks_other: "n \<notin> unat ` set xs \<Longrightarrow> give_stacks xs as f n = f n"
  by (induction xs as f rule: give_stacks.induct) auto

lemma give_stacks_nth:
  "distinct xs \<Longrightarrow> length as = length xs \<Longrightarrow> i < length xs \<Longrightarrow> give_stacks xs as f (unat (xs ! i)) = as ! i + PAGE_SIZE - 0x10"
proof (induction xs arbitrary: as f i)
  case (Cons x xs)
  then obtain a bs where as: "as = a # bs" by (cases as) auto
  have "unat x \<notin> unat ` set xs" using Cons.prems(1) by (auto simp: word_unat_eq_iff [symmetric])
  then show ?case using Cons as by (cases i) (simp_all add: give_stacks_other)
qed simp

lemma vread16_cpu_info [simp]: "vread16 v (k\<lparr>cpu_info := c\<rparr>) = vread16 v k"
  by (simp add: vread16_def)

lemma cpu_find_ok:
  assumes "mp_find k = Inr mp" "vread32 (mp + 4) k = Inr mpc" "vread16 (mpc + 34) k = Inr cnt"
    "room_for (length ids) k" "proc_entries k (mpc + 44) ids" "distinct ids" "\<forall>x\<in>set ids. unat x < MAX_CPU" "length ids \<le> MAX_CPU"
    "length ids \<le> unat cnt" "unat cnt = length ids \<or> (\<exists>x. x \<noteq> 0 \<and> table_byte k (mpc + 44 + 20 * of_nat (length ids)) x)"
  shows "\<exists>k' as. cpu_find k = Inr k' \<and> kmem_ok k' \<and> low_kept k k' \<and> cpu_count k' = int (length ids) \<and>
    unat (maximum_cpu (cpu_info k')) = min (length ids) (unat (maximum_cpu (cpu_info k))) \<and>
    length as = length ids \<and> distinct as \<and> (\<forall>a\<in>set as. taken a k') \<and> (\<forall>b. taken b k \<longrightarrow> taken b k' \<and> b \<notin> set as) \<and>
    (\<forall>i<length ids. cpu_mapping (cpu_info k') i = ids ! i \<and> cpu_stack (cpu_info k') (unat (ids ! i)) = as ! i + PAGE_SIZE - 0x10)"
proof -
  define c where "c = (cpu_info k)\<lparr>num_of_cpu := 0, cpu_mapping := (cpu_mapping (cpu_info k))(0 := 0)\<rparr>"
  define k1 where "k1 = k\<lparr>cpu_info := c\<rparr>"
  have tb: "table_byte k1 v x = table_byte k v x" for v x
    unfolding table_byte_def k1_def by (simp add: below_heap_cong [of "k\<lparr>cpu_info := c\<rparr>" k])
  have "\<exists>k' as. cpu_loop (unat cnt) 0 (mpc + 44) k1 = Inr k' \<and> low_kept k1 k' \<and> length as = length ids \<and> distinct as \<and>
    (\<forall>a\<in>set as. taken a k') \<and> (\<forall>b. taken b k1 \<longrightarrow> taken b k' \<and> b \<notin> set as) \<and> cpu_info k' = cpus_after 0 ids as (cpu_info k1) \<and>
    room_for 0 k'"
    using assms(4-10) by (intro cpu_loop_ok) (simp_all add: tb proc_entries_def, simp_all add: k1_def)
  then obtain k' as where k': "cpu_loop (unat cnt) 0 (mpc + 44) k1 = Inr k'" "low_kept k1 k'" "length as = length ids" "distinct as"
      "\<forall>a\<in>set as. taken a k'" "\<forall>b. taken b k1 \<longrightarrow> taken b k' \<and> b \<notin> set as" "cpu_info k' = cpus_after 0 ids as c" "room_for 0 k'"
    by (auto simp: k1_def)
  have less: "int (length ids) < uint (maximum_cpu (cpu_info k)) \<longleftrightarrow> length ids < unat (maximum_cpu (cpu_info k))"
    by (metis of_nat_less_iff uint_nat)
  define k2 where "k2 = (if length ids < unat (maximum_cpu (cpu_info k))
      then k'\<lparr>cpu_info := (cpu_info k')\<lparr>maximum_cpu := of_int (int (length ids))\<rparr>\<rparr> else k')"
  have n: "num_of_cpu (cpu_info k') = int (length ids)" "maximum_cpu (cpu_info k') = maximum_cpu (cpu_info k)"
    by (simp_all add: k'(7) cpus_after_def c_def)
  have "cpu_find k = Inr k2"
    using assms(1-3) k'(1) by (simp add: cpu_find_def k2_def k1_def c_def n less Let_def)
  moreover have "low_kept k k2"
  proof -
    have "low_kept k k1" by (simp add: k1_def)
    then show ?thesis using low_kept_trans [OF _ k'(2)] by (simp add: k2_def)
  qed
  moreover have "room_for 0 k2" "\<forall>b. taken b k2 = taken b k'" using k'(8) by (simp_all add: k2_def)
  moreover have "num_of_cpu (cpu_info k2) = num_of_cpu (cpu_info k')" "cpu_stack (cpu_info k2) = cpu_stack (cpu_info k')"
    "cpu_mapping (cpu_info k2) = cpu_mapping (cpu_info k')" by (simp_all add: k2_def)
  moreover have "unat (maximum_cpu (cpu_info k2)) = min (length ids) (unat (maximum_cpu (cpu_info k)))"
    using assms(8) n by (cases "length ids < unat (maximum_cpu (cpu_info k))") (simp_all add: k2_def unat_of_nat)
  ultimately show ?thesis using k'(3-6) n assms(6)
    by (intro exI [of _ k2] exI [of _ as])
      (auto simp: room_for_def k1_def cpu_count_def k'(7) cpus_after_def give_stacks_nth)
qed

end
