(* ===== verification/Mboot.thy ===== *)
theory Mboot
  imports Elf Cpu
begin

text \<open>
  What the boot loader hands over, \<^verbatim>\<open>kernel/mboot.c\<close>: the memory map, the modules, which are the programs, and the
  command line. The structures are at physical addresses that the first page table maps one to
  one. \<open>mm\<close> gives the entries of the memory map as in \<open>mem_init\<close>.
\<close>

section \<open>Operations\<close>

record module_info =
  mod_start :: uint32
  mod_end :: uint32
  mod_string :: uint32
  mod_reserved :: uint32

record mboot =
  mb_flags :: uint32
  mem_lower :: uint32
  mem_upper :: uint32
  boot_device :: uint32
  mb_cmdline :: uint32
  mods_count :: uint32
  mods_addr :: uint32
  mb_syms :: "uint32 list"
  mmap_length :: uint32
  mmap_addr :: ptr

text \<open>The loop of \<open>mboot_parse\<close> over the modules; \<open>mods p\<close> is the entry at address \<open>p\<close>, an entry has 16 bytes.\<close>

fun module_loop :: "nat \<Rightarrow> (ptr \<Rightarrow> module_info) \<Rightarrow> ptr \<Rightarrow> 'a palloc_scheme \<Rightarrow> 'a palloc_scheme" where
  "module_loop 0 mods p s = s"
| "module_loop (Suc n) mods p s =
     (let mi = mods p;
          pages = page_count (mod_end mi - page_align (mod_start mi));
          s = mem_phys_reserve_range (page_align (mod_start mi)) pages s;
          s = mem_phys_reserve (page_align p) s
      in module_loop n mods (p + 16) s)"

definition mboot_parse ::
  "nat \<Rightarrow> (ptr \<Rightarrow> mmap) \<Rightarrow> (ptr \<Rightarrow> module_info) \<Rightarrow> ptr \<Rightarrow> mboot \<Rightarrow> 'a kmem_scheme \<Rightarrow> 'a kmem_scheme res" where
  "mboot_parse fuel mm mods addr mb s =
     bindE (mem_init fuel mm (mmap_addr mb) (mmap_length mb) (mem_phys_init s)) (\<lambda>s.
     let s = mem_phys_reserve (page_align addr) s
     in Inr (module_loop (unat (mods_count mb)) mods (mods_addr mb) s))"

fun load_loop :: "nat \<Rightarrow> nat \<Rightarrow> uint32 \<Rightarrow> uint32 \<Rightarrow> (ptr \<Rightarrow> module_info) \<Rightarrow> ptr \<Rightarrow> kernel \<Rightarrow> kernel res" where
  "load_loop 0 fuel kpdir leave_kernel mods p k = Inr k"
| "load_loop (Suc n) fuel kpdir leave_kernel mods p k =
     bindE (elf_load fuel kpdir leave_kernel (mod_start (mods p)) k) (\<lambda>(_, k).
     load_loop n fuel kpdir leave_kernel mods (p + 16) k)"

definition mboot_load_modules ::
  "nat \<Rightarrow> uint32 \<Rightarrow> uint32 \<Rightarrow> (ptr \<Rightarrow> module_info) \<Rightarrow> mboot \<Rightarrow> kernel \<Rightarrow> kernel res" where
  "mboot_load_modules fuel kpdir leave_kernel mods mb k =
     load_loop (unat (mods_count mb)) fuel kpdir leave_kernel mods (mods_addr mb) k"

text \<open>\<open>cmdline_find\<close> for a string given by its bytes: the place where the loop stops, if it returns one.\<close>

fun cmdline_find :: "nat \<Rightarrow> ptr \<Rightarrow> uint8 list \<Rightarrow> 'a machine_scheme \<Rightarrow> ptr res" where
  "cmdline_find 0 cmdline txt s = Inl Diverges"
| "cmdline_find (Suc fuel) cmdline txt s =
     bindE (vread8 cmdline s) (\<lambda>c.
     if c \<noteq> 0
     then bindE (ksubstr (Suc (length txt)) (mem_string cmdline s) (literal txt)) (\<lambda>r.
          if r \<noteq> 0 then Inr cmdline else cmdline_find fuel (cmdline + 1) txt s)
     else Inr 0)"

definition max_cpu_text :: "uint8 list" where
  "max_cpu_text = [109, 97, 120, 95, 99, 112, 117, 61]"

definition mboot_parse_cmdline :: "nat \<Rightarrow> mboot \<Rightarrow> kernel \<Rightarrow> kernel res" where
  "mboot_parse_cmdline fuel mb k =
     (if mb_flags mb \<noteq> 0
      then bindE (paging_map 0x70000 (mb_cmdline mb) PAGE_PRESENT k) (\<lambda>k.
        bindE (cmdline_find fuel 0x70000 max_cpu_text k) (\<lambda>p.
        if p = 0 then Inr k
        else bindE (vread8 (p + 8) k) (\<lambda>c.
          Inr (k\<lparr>cpu_info := (cpu_info k)\<lparr>maximum_cpu := c - 48\<rparr>\<rparr>))))
      else Inr k)"

section \<open>The frames of the modules\<close>

text \<open>The frames that \<open>mboot_parse\<close> takes away for a module and for its entry in the list.\<close>

definition module_frames :: "module_info \<Rightarrow> nat set" where
  "module_frames mi = range_frames (page_align (mod_start mi)) (unat (page_count (mod_end mi - page_align (mod_start mi))))"

lemma unat_page_count:
  assumes "unat n + 4095 < 2 ^ 32"
  shows "unat (page_count n) = (unat n + 4095) div 4096"
proof -
  have "unat (n + 4095) = unat n + 4095" using assms by (simp add: unat_word_ariths)
  then show ?thesis by (simp add: page_count_def unat_div add_diff_eq [symmetric])
qed

text \<open>Every byte of a module is in one of its frames.\<close>

lemma module_frames_cover:
  assumes "mod_start mi \<le> a" "a < mod_end mi" "unat (mod_end mi) + 4095 < 2 ^ 32"
  shows "frame_of a \<in> module_frames mi"
proof -
  let ?b = "page_align (mod_start mi)"
  have b: "unat ?b = 4096 * (unat (mod_start mi) div 4096)" by (simp add: unat_page_align)
  have le: "unat ?b \<le> unat (mod_start mi)" "unat (mod_start mi) \<le> unat a" "unat a < unat (mod_end mi)"
    using assms b by (simp_all add: word_le_nat_alt word_less_nat_alt)
  have d: "unat (mod_end mi - ?b) = unat (mod_end mi) - unat ?b" using le by (intro unat_sub) (simp add: word_le_nat_alt)
  then have n: "unat (page_count (mod_end mi - ?b)) = (unat (mod_end mi) - unat ?b + 4095) div 4096"
    using assms(3) by (subst unat_page_count) simp_all
  define i where "i = unat a div 4096 - unat (mod_start mi) div 4096"
  have ge: "unat (mod_start mi) div 4096 \<le> unat a div 4096" using le(2) by (rule div_le_mono)
  have "unat a div 4096 < unat (mod_start mi) div 4096 + (unat (mod_end mi) - unat ?b + 4095) div 4096"
  proof -
    have "unat a < 4096 * (unat (mod_start mi) div 4096) + (unat (mod_end mi) - unat ?b)" using le b by simp
    moreover have "unat (mod_end mi) - unat ?b \<le> 4096 * ((unat (mod_end mi) - unat ?b + 4095) div 4096)"
      using div_mult_mod_eq [of "unat (mod_end mi) - unat ?b + 4095" 4096] mod_less_divisor [of 4096 "unat (mod_end mi) - unat ?b + 4095"]
      by linarith
    ultimately show ?thesis by (intro less_mult_imp_div_less) (simp add: algebra_simps)
  qed
  then have "i < unat (page_count (mod_end mi - ?b))" unfolding n i_def using ge by linarith
  moreover have "frame_of a = (frame_of ?b + i) mod PAGES"
  proof -
    have "unat a div 4096 < PAGES" using unat32_less [of a] by simp
    then show ?thesis using ge b by (simp add: frame_of_def i_def)
  qed
  ultimately show ?thesis unfolding module_frames_def range_frames_def by blast
qed

lemma frames_module_loop:
  "frames (module_loop n mods p s) = frames s - (\<Union>i<n. insert (frame_of (page_align (p + 16 * of_nat i))) (module_frames (mods (p + 16 * of_nat i))))"
proof (induction n arbitrary: p s)
  case (Suc n)
  have "(\<Union>i<Suc n. insert (frame_of (page_align (p + 16 * of_nat i))) (module_frames (mods (p + 16 * of_nat i)))) =
      insert (frame_of (page_align p)) (module_frames (mods p)) \<union>
      (\<Union>i<n. insert (frame_of (page_align (p + 16 + 16 * of_nat i))) (module_frames (mods (p + 16 + 16 * of_nat i))))"
    unfolding lessThan_Suc_eq_insert_0 by (simp add: image_image algebra_simps)
  then show ?case
    by (simp add: Suc.IH module_frames_def Let_def) blast
qed simp

lemma kmem_ok_reserve:
  assumes "kmem_ok s"
  shows "kmem_ok (mem_phys_reserve a s)" "heap (mem_phys_reserve a s) = heap s" "allocator (mem_phys_reserve a s) = allocator s"
    "mem_lock (mem_phys_reserve a s) = mem_lock s" "mmu_translate v (mem_phys_reserve a s) = mmu_translate v s"
  using assms dir_ok_reserve [of s a] private_reserve [of _ s a]
  by (auto simp: kmem_ok_def heap_mapped_def heap_region_def)

lemma kmem_ok_module_loop:
  "kmem_ok s \<Longrightarrow> kmem_ok (module_loop n mods p s) \<and> heap (module_loop n mods p s) = heap s \<and>
     allocator (module_loop n mods p s) = allocator s \<and> mem_lock (module_loop n mods p s) = mem_lock s \<and>
     mmu_translate v (module_loop n mods p s) = mmu_translate v s"
proof (induction n arbitrary: p s)
  case (Suc n)
  have fold: "kmem_ok t \<Longrightarrow> kmem_ok (fold (\<lambda>i. mem_phys_reserve (f i)) is t) \<and> heap (fold (\<lambda>i. mem_phys_reserve (f i)) is t) = heap t \<and>
      allocator (fold (\<lambda>i. mem_phys_reserve (f i)) is t) = allocator t \<and> mem_lock (fold (\<lambda>i. mem_phys_reserve (f i)) is t) = mem_lock t \<and>
      mmu_translate v (fold (\<lambda>i. mem_phys_reserve (f i)) is t) = mmu_translate v t" for f and "is" :: "nat list" and t :: "'a kmem_scheme"
    by (induction "is" arbitrary: t) (auto simp: kmem_ok_reserve)
  show ?case using Suc.prems Suc.IH fold by (simp add: Let_def mem_phys_reserve_range_def kmem_ok_reserve)
qed simp

lemma mboot_parse_ok:
  assumes dir: "boot_dir (mem_phys_init s)" and ready: "palloc_ready (mem_phys_init s)" and pool: "2 \<le> card (boot_pool ms (mem_phys_init s))"
    and layout: "mmap_layout mm (mmap_addr mb) (mmap_addr mb + mmap_length mb) ms" and fuel: "length ms < fuel"
    and unmapped: "\<forall>v. HEAP_START \<le> v \<longrightarrow> v < HEAP_LIMIT \<longrightarrow> mmu_translate v (mem_phys_init s) = None"
  shows "\<exists>s'. mboot_parse fuel mm mods addr mb s = Inr s' \<and> kmem_ok s' \<and> heap s' = HEAP_START \<and> free_blocks (allocator s') = {} \<and>
    frames s' \<subseteq> boot_pool ms (mem_phys_init s) \<and> frame_of addr \<notin> frames s' \<and>
    (\<forall>i<unat (mods_count mb). frames s' \<inter> module_frames (mods (mods_addr mb + 16 * of_nat i)) = {})"
proof -
  obtain s1 where s1: "mem_init fuel mm (mmap_addr mb) (mmap_length mb) (mem_phys_init s) = Inr s1" "kmem_ok s1" "heap s1 = HEAP_START"
      "free_blocks (allocator s1) = {}" "frames s1 \<subseteq> boot_pool ms (mem_phys_init s)"
    using mem_init_ok [OF dir ready pool layout fuel unmapped] by blast
  define s2 where "s2 = mem_phys_reserve (page_align addr) s1"
  define s' where "s' = module_loop (unat (mods_count mb)) mods (mods_addr mb) s2"
  have k2: "kmem_ok s2" using kmem_ok_reserve(1) [OF s1(2)] by (simp add: s2_def)
  have "mboot_parse fuel mm mods addr mb s = Inr s'" using s1(1) by (simp add: mboot_parse_def s'_def s2_def Let_def)
  moreover have "frame_of (page_align addr) = frame_of addr" by (simp add: frame_of_def unat_page_align)
  ultimately show ?thesis
    using s1(3-5) kmem_ok_module_loop [OF k2, of "unat (mods_count mb)" mods "mods_addr mb"] s1(2)
    by (intro exI [of _ s']) (auto simp: s'_def s2_def frames_module_loop)
qed

section \<open>The command line\<close>

text \<open>The search accepts a place where one of the rest of the line and the text is a prefix of the other.\<close>

definition comparable :: "uint8 list \<Rightarrow> uint8 list \<Rightarrow> bool" where
  "comparable xs ys \<longleftrightarrow> (\<exists>zs. xs = ys @ zs \<or> ys = xs @ zs)"

lemma cmdline_find_eq:
  assumes "cstring (mem_string p s) xs" "0 \<notin> set txt" "length xs < fuel"
  shows "(\<exists>i<length xs. cmdline_find fuel p txt s = Inr (p + of_nat i) \<and> comparable (drop i xs) txt \<and> (\<forall>j<i. \<not> comparable (drop j xs) txt)) \<or>
    cmdline_find fuel p txt s = Inr 0 \<and> (\<forall>j<length xs. \<not> comparable (drop j xs) txt)"
  using assms
proof (induction xs arbitrary: p fuel)
  case Nil
  then show ?case by (cases fuel) (auto simp: cstring_def mem_string_def)
next
  case (Cons x xs)
  obtain m where fuel: "fuel = Suc m" using Cons.prems(3) by (cases fuel) auto
  have x: "vread8 p s = Inr x" "x \<noteq> 0" using Cons.prems(1) by (auto simp: cstring_def mem_string_def)
  have rest: "cstring (mem_string (p + 1) s) xs"
    using Cons.prems(1) by (auto simp: cstring_def mem_string_def add.assoc nth_Cons' dest: spec [of _ "Suc _"])
  have sub: "ksubstr (Suc (length txt)) (mem_string p s) (literal txt) = Inr (if comparable (x # xs) txt then 1 else 0)"
    unfolding comparable_def using Cons.prems(1,2) by (intro ksubstr_eq literal_cstring) auto
  show ?case
  proof (cases "comparable (x # xs) txt")
    case True
    then show ?thesis using x sub by (intro disjI1 exI [of _ 0]) (simp add: fuel)
  next
    case False
    have "length xs < m" using Cons.prems(3) fuel by simp
    note IH = Cons.IH [OF rest Cons.prems(2) this]
    have step: "cmdline_find fuel p txt s = cmdline_find m (p + 1) txt s" using x sub False by (simp add: fuel)
    have all: "(\<forall>j<Suc i. \<not> comparable (drop j (x # xs)) txt) \<longleftrightarrow> (\<forall>j<i. \<not> comparable (drop j xs) txt)" for i
      using False by (auto simp: less_Suc_eq_0_disj)
    from IH show ?thesis
    proof (elim disjE exE conjE)
      fix i assume "i < length xs" "cmdline_find m (p + 1) txt s = Inr (p + 1 + of_nat i)" "comparable (drop i xs) txt"
        "\<forall>j<i. \<not> comparable (drop j xs) txt"
      then show ?thesis unfolding step by (intro disjI1 exI [of _ "Suc i"] conjI) (simp_all add: all algebra_simps)
    next
      assume "cmdline_find m (p + 1) txt s = Inr 0" "\<forall>j<length xs. \<not> comparable (drop j xs) txt"
      then show ?thesis unfolding step length_Cons all by blast
    qed
  qed
qed

end
