(* ===== verification/Boot.thy ===== *)
theory Boot
  imports Mboot Syscall Screen
begin

text \<open>
  The start of the kernel, \<^verbatim>\<open>kernel/kmain.c\<close>: the boot CPU runs \<open>kmain\<close>, the others \<open>hello_world\<close>. Both are split at
  \<open>cpu_sync\<close>, where a CPU waits for the others (theory \<open>Barrier\<close>); both end in the loop of the
  idle thread. \<open>cpu\<close> is the number of the CPU. The addresses that the linker decides are a record.
\<close>

section \<open>Operations\<close>

record link_addresses =
  l_gdt :: uint32
  l_tss :: uint32
  l_idt :: uint32
  l_isr :: "nat \<Rightarrow> uint32"
  l_kpage_dir :: uint32
  l_leave_kernel :: uint32
  l_idle_loop :: uint32
  l_trampoline :: uint32
  l_trampoline_end :: uint32
  l_fake_gdt :: uint32
  l_fake_gdt_end :: uint32

text \<open>What the boot loader leaves: the structure, its address, the memory map and the list of modules.\<close>

record boot_info =
  b_mboot :: mboot
  b_addr :: ptr
  b_mmap :: "ptr \<Rightarrow> mmap"
  b_mods :: "ptr \<Rightarrow> module_info"

text \<open>From \<open>interrupts_init\<close> to \<open>sched_ready\<close>.\<close>

definition kmain_services :: "device \<Rightarrow> link_addresses \<Rightarrow> nat \<Rightarrow> kernel \<Rightarrow> kernel res" where
  "kmain_services dev lk cpu k =
     bindE (interrupts_init (l_isr lk) (l_idt lk) cpu k) (\<lambda>k.
     let k = syscalls_init k;
         k = drivers_init k in
     bindE (proc_create_kernel_proc (l_kpage_dir lk) k) (\<lambda>(_, k).
     bindE (scheduling_init (l_kpage_dir lk) (l_leave_kernel lk) (l_idle_loop lk) k) (\<lambda>k.
     let k = timer_init dev k in
     bindE (interrupts_start cpu k) (\<lambda>k.
     Inr (sched_ready cpu k)))))"

definition max_cpu_format :: "uint8 list" where
  "max_cpu_format = [77, 65, 88, 95, 67, 80, 85, 58, 37, 120, 10]"

definition kmain_start :: "device \<Rightarrow> nat \<Rightarrow> link_addresses \<Rightarrow> boot_info \<Rightarrow> nat \<Rightarrow> kernel \<times> screen \<Rightarrow> (kernel \<times> screen) res" where
  "kmain_start dev fuel lk b cpu x =
     (case x of (k, s) \<Rightarrow>
      bindE (gdt_init (l_gdt lk) (l_tss lk) (segs k)) (\<lambda>g.
      let k = k\<lparr>segs := g\<rparr> in
      bindE (mboot_parse fuel (b_mmap b) (b_mods b) (b_addr b) (b_mboot b) k) (\<lambda>k.
      bindE (mboot_parse_cmdline fuel (b_mboot b) k) (\<lambda>k.
      bindE (cpu_find k) (\<lambda>k.
      bindE (screen_clear s) (\<lambda>s.
      bindE (kmain_services dev lk cpu k) (\<lambda>k.
      bindE (kprintf fuel (\<lambda>_. 0) max_cpu_format [ucast (maximum_cpu (cpu_info k))]) (\<lambda>cs.
      let s = screen_putstr (takeWhile (\<lambda>c. c \<noteq> 0) cs) s in
      bindE (cpu_wake_all dev fuel cpu (l_trampoline lk) (l_trampoline_end lk) (l_fake_gdt lk) (l_fake_gdt_end lk)
               (unat (maximum_cpu (cpu_info k))) k) (\<lambda>k.
      Inr (k, s))))))))))"

definition kmain_run :: "nat \<Rightarrow> link_addresses \<Rightarrow> boot_info \<Rightarrow> nat \<Rightarrow> kernel \<Rightarrow> kernel res" where
  "kmain_run fuel lk b cpu k =
     bindE (mboot_load_modules fuel (l_kpage_dir lk) (l_leave_kernel lk) (b_mods b) (b_mboot b) k) (\<lambda>k.
     Inr (sched_start_timer cpu k))"

definition hello_world_start :: "nat \<Rightarrow> kernel \<Rightarrow> kernel res" where
  "hello_world_start cpu k =
     (let k = apic_enable cpu k;
          k = k\<lparr>lapics := (lapics k)(cpu := lapic_init (lapics k cpu))\<rparr> in
      bindE (interrupts_start cpu k) (\<lambda>k.
      Inr (sched_ready cpu k)))"

definition hello_world_run :: "nat \<Rightarrow> kernel \<Rightarrow> kernel" where
  "hello_world_run cpu k = sched_start_timer cpu k"

section \<open>The kernel process\<close>

lemma kernel_proc_room:
  assumes room: "room_for (Suc n) k" and lock: "proc_lock k = 0" and free: "processes k 0 = 0"
  shows "\<exists>p k'. proc_create_kernel_proc kpdir k = Inr (p, k') \<and> room_for n k' \<and> p \<noteq> 0 \<and>
    kmem.more k' = kmem.more (k\<lparr>processes := (processes k)(0 := p), procs := (procs k)(p := zero_process\<lparr>pid := 0, proc_pdir := kpdir\<rparr>)\<rparr>)"
proof -
  obtain p k1 where p: "got_block 376 k p k1" "kmem.more k1 = kmem.more k"
      "new_process k = Inr (p, k1\<lparr>procs := (procs k)(p := zero_process)\<rparr>)"
    using new_process_ok [of k] room_for_alloc [OF room, of 376] by auto
  have n: "next_pid (processes k) = 0" using free by (auto simp: next_pid_def intro: Least_equality)
  let ?k = "k1\<lparr>procs := (procs k)(p := zero_process\<lparr>pid := 0, proc_pdir := kpdir\<rparr>), processes := (processes k)(0 := p)\<rparr>"
  have "proc_create_kernel_proc kpdir k = Inr (p, ?k)"
    using p(3) kernel_more(5) [OF p(2)] by (simp add: proc_create_kernel_proc_def find_next_pid_eq [OF lock] set_proc_def n)
  moreover have "room_for n k1" using room_for_next [OF room _ p(1)] by simp
  moreover have "room_for n ?k = room_for n k1" by (rule room_for_cong) simp_all
  moreover have "kmem.more ?k = kmem.more (k\<lparr>processes := (processes k)(0 := p), procs := (procs k)(p := zero_process\<lparr>pid := 0, proc_pdir := kpdir\<rparr>)\<rparr>)"
    using p(2) by (cases k; cases k1) simp
  moreover have "p \<noteq> 0" using got_blockD(1) [OF p(1)] .
  ultimately show ?thesis by blast
qed

section \<open>The services\<close>

text \<open>The table of handlers when \<open>kmain\<close> is done with it.\<close>

definition kernel_handlers :: "nat \<Rightarrow> int_handler" where
  "kernel_handlers n =
     (if n = 15 then Ignored else if n = 80 then Syscall else if n = 128 then SchedTick else if n = 211 then Tick
      else if n = 218 then Keyboard else Unhandled)"

lemma idle_sched_ok:
  assumes "schedulers k i = (idle_sched t)\<lparr>started := s\<rparr>" "t \<noteq> 0" "event (threads k t) = None"
  shows "sched_ok i k" "owned i k = {#}"
  using assms by (auto simp: sched_ok_def idle_sched_def owned_def returning_def)

lemma timer_init_eq: "\<exists>io. timer_init dev k = k\<lparr>ticks := 0, int_handlers := (int_handlers k)(211 := Tick), io_log := io\<rparr>"
  by (simp add: timer_init_def interrupts_register_handler_def Let_def split: prod.split) blast

lemma interrupts_start_ok:
  assumes "room_for (Suc n) k"
  shows "\<exists>p k1. interrupts_start cpu k =
      Inr (k1\<lparr>segs := tss_set_stack cpu p (segs k), task_register := (task_register k)(cpu := tss_flush (of_nat cpu))\<rparr>) \<and>
    got_block PAGE_SIZE k p k1 \<and> room_for n k1 \<and> kmem.more k1 = kmem.more k"
proof -
  obtain p k1 where p: "kmalloc 2 PAGE_SIZE k = Inr (p, k1)" "room_for n k1" "kmem.more k1 = kmem.more k" "got_block PAGE_SIZE k p k1"
    using stack_page [OF assms] by metis
  then show ?thesis using kernel_more(10,18) [OF p(3)] by (auto simp: interrupts_start_def Let_def)
qed

text \<open>
  The schedulers and everything they need: \<open>k\<close> is the state after \<open>drivers_init\<close>, with room for the kernel process, three
  blocks for each idle thread and the interrupt stack of the boot CPU.
\<close>

lemma scheduling_services_ok:
  assumes room: "room_for 26 k" and lock: "proc_lock k = 0" and free: "processes k 0 = 0"
  shows "\<exists>p k1 k' f. proc_create_kernel_proc kpdir k = Inr (p, k1) \<and> scheduling_init kpdir leave idle k1 = Inr k' \<and> room_for 1 k' \<and>
    p \<noteq> 0 \<and> processes k' = (processes k)(0 := p) \<and> procs k' p = zero_process\<lparr>pid := 0, proc_pdir := kpdir\<rparr> \<and>
    int_handlers k' = (int_handlers k)(128 := SchedTick) \<and> handlers k' = handlers k \<and> idt_entries k' = idt_entries k \<and>
    inj_on f {0..<MAX_CPU} \<and>
    (\<forall>i<MAX_CPU. schedulers k' i = idle_sched (f i) \<and> f i \<noteq> 0 \<and> parent (threads k' (f i)) = p \<and> event (threads k' (f i)) = None)"
proof -
  have "room_for (Suc 25) k" using room by simp
  then obtain p k1 where p: "proc_create_kernel_proc kpdir k = Inr (p, k1)" "room_for 25 k1" "p \<noteq> 0"
      "kmem.more k1 = kmem.more (k\<lparr>processes := (processes k)(0 := p), procs := (procs k)(p := zero_process\<lparr>pid := 0, proc_pdir := kpdir\<rparr>)\<rparr>)"
    using kernel_proc_room lock free by blast
  let ?k2 = "interrupts_register_handler 128 SchedTick k1"
  have "room_for 25 ?k2 = room_for 25 k1" by (rule room_for_cong) (simp_all add: interrupts_register_handler_def)
  then have r2: "room_for (3 * 8 + 1) ?k2" using p(2) by simp
  obtain k' f where k': "scheduling_loop 8 kpdir leave idle ?k2 = Inr k'" "room_for 1 k'" "inj_on f {0..<MAX_CPU}"
      "\<forall>i\<in>{0..<MAX_CPU}. taken (f i) k' \<and> f i \<noteq> 0 \<and> parent (threads k' (f i)) = processes ?k2 0 \<and> event (threads k' (f i)) = None"
      "schedulers k' = (\<lambda>i. if 0 \<le> i \<and> i < MAX_CPU then idle_sched (f i) else schedulers ?k2 i)"
      "kmem.more k' = kmem.more (?k2\<lparr>threads := threads k', schedulers := schedulers k'\<rparr>)"
    using scheduling_loop_ok [OF _ r2, of kpdir leave idle] by auto
  note m = kernel_more [OF p(4)] kernel_more [OF k'(6)]
  have "processes ?k2 0 = p" using m by (simp add: interrupts_register_handler_def)
  then show ?thesis using p(1,3) k' m
    by (intro exI [of _ p] exI [of _ k1] exI [of _ k'] exI [of _ f]) (simp add: scheduling_init_def interrupts_register_handler_def)
qed

lemma kmain_services_ok:
  assumes room: "room_for 26 k" and lock: "proc_lock k = 0" and free: "processes k 0 = 0" and cpu: "cpu < MAX_CPU"
  shows "\<exists>k' p f. kmain_services dev lk cpu k = Inr k' \<and> kmem_ok k' \<and>
    (\<forall>n<256. int_handlers k' n = kernel_handlers n \<and> handlers k' n = 0) \<and> (\<forall>n<241. gate_to (l_isr lk n) (idt_entries k' n)) \<and>
    p \<noteq> 0 \<and> processes k' = (processes k)(0 := p) \<and> procs k' p = zero_process\<lparr>pid := 0, proc_pdir := l_kpage_dir lk\<rparr> \<and>
    inj_on f {0..<MAX_CPU} \<and>
    (\<forall>i<MAX_CPU. schedulers k' i = (idle_sched (f i))\<lparr>started := if i = cpu then 1 else 0\<rparr> \<and> parent (threads k' (f i)) = p \<and>
      sched_ok i k' \<and> owned i k' = {#}) \<and> ticks k' = 0"
proof -
  obtain k1 where k1: "interrupts_init (l_isr lk) (l_idt lk) cpu k = Inr k1"
      "\<forall>n. n < 241 \<and> gate_to (l_isr lk n) (idt_entries k1 n) \<or> 241 \<le> n \<and> idt_entries k1 n = idt_entries k n"
      "int_handlers k1 = (\<lambda>n. if n = 15 then Ignored else if n = 218 then Keyboard else if n < 256 then Unhandled else int_handlers k n)"
      "k1 = k\<lparr>iptr := iptr k1, idt_entries := idt_entries k1, io_log := io_log k1, apic_msr := apic_msr k1, ioapic := ioapic k1,
      lapics := lapics k1, int_handlers := int_handlers k1\<rparr>"
    using interrupts_init_ok [of "l_isr lk" "l_idt lk" cpu k] by blast
  define k2 where "k2 = drivers_init (syscalls_init k1)"
  have "room_for 26 k1 = room_for 26 k" by (rule room_for_cong; subst k1(4); simp)
  moreover have "room_for 26 k2 = room_for 26 k1"
    by (rule room_for_cong) (simp_all add: k2_def drivers_init_def syscalls_init_def interrupts_register_handler_def)
  moreover have "proc_lock k1 = proc_lock k" "processes k1 = processes k" by (subst k1(4), simp)+
  ultimately have k2: "room_for 26 k2" "proc_lock k2 = 0" "processes k2 0 = 0" "processes k2 = processes k"
    using room lock free by (simp_all add: k2_def drivers_init_def syscalls_init_def interrupts_register_handler_def)
  have h2: "int_handlers k2 = (int_handlers k1)(80 := Syscall)" "\<forall>n<256. handlers k2 n = 0" "idt_entries k2 = idt_entries k1"
    by (simp_all add: k2_def drivers_init_def syscalls_init_def interrupts_register_handler_def)
  obtain p k3 k4 f where k4: "proc_create_kernel_proc (l_kpage_dir lk) k2 = Inr (p, k3)"
      "scheduling_init (l_kpage_dir lk) (l_leave_kernel lk) (l_idle_loop lk) k3 = Inr k4" "room_for 1 k4"
      "p \<noteq> 0" "processes k4 = (processes k2)(0 := p)" "procs k4 p = zero_process\<lparr>pid := 0, proc_pdir := l_kpage_dir lk\<rparr>"
      "int_handlers k4 = (int_handlers k2)(128 := SchedTick)" "handlers k4 = handlers k2" "idt_entries k4 = idt_entries k2"
      "inj_on f {0..<MAX_CPU}"
      "\<forall>i<MAX_CPU. schedulers k4 i = idle_sched (f i) \<and> f i \<noteq> 0 \<and> parent (threads k4 (f i)) = p \<and> event (threads k4 (f i)) = None"
    using scheduling_services_ok [OF k2(1-3)] by metis
  obtain io where io: "timer_init dev k4 = k4\<lparr>ticks := 0, int_handlers := (int_handlers k4)(211 := Tick), io_log := io\<rparr>"
    using timer_init_eq by blast
  have "room_for (Suc 0) (timer_init dev k4) = room_for (Suc 0) k4" unfolding io by (rule room_for_cong) simp_all
  then obtain q k5 where k5: "interrupts_start cpu (timer_init dev k4) = Inr (k5\<lparr>segs := tss_set_stack cpu q (segs (timer_init dev k4)),
        task_register := (task_register (timer_init dev k4))(cpu := tss_flush (of_nat cpu))\<rparr>)"
      "got_block PAGE_SIZE (timer_init dev k4) q k5" "kmem.more k5 = kmem.more (timer_init dev k4)"
    using interrupts_start_ok [of 0 "timer_init dev k4" cpu] k4(3) by auto
  define k' where "k' = sched_ready cpu (k5\<lparr>segs := tss_set_stack cpu q (segs (timer_init dev k4)),
        task_register := (task_register (timer_init dev k4))(cpu := tss_flush (of_nat cpu))\<rparr>)"
  note m = kernel_more [OF k5(3), unfolded io]
  have run: "kmain_services dev lk cpu k = Inr k'"
    using k1(1) k4(1,2) k5(1) by (simp add: kmain_services_def Let_def k2_def k'_def)
  have "kmem_ok k' = kmem_ok k5" by (rule kmem_ok_cong) (simp_all add: k'_def sched_ready_def set_sched_def)
  then have ok: "kmem_ok k'" using got_blockD(5) [OF k5(2)] by simp
  have f: "int_handlers k' = (int_handlers k4)(211 := Tick)" "handlers k' = handlers k4" "idt_entries k' = idt_entries k4" "ticks k' = 0"
    "processes k' = processes k4" "procs k' = procs k4" "threads k' = threads k4"
    "schedulers k' = (schedulers k4)(cpu := (schedulers k4 cpu)\<lparr>started := 1\<rparr>)"
    using m by (simp_all add: k'_def sched_ready_def set_sched_def)
  have sched: "schedulers k' i = (idle_sched (f i))\<lparr>started := if i = cpu then 1 else 0\<rparr>" if "i < MAX_CPU" for i
    using that k4(11) f(8) by (simp add: idle_sched_def)
  have "sched_ok i k' \<and> owned i k' = {#}" if "i < MAX_CPU" for i
    using idle_sched_ok [OF sched [OF that]] k4(11) f(7) that by simp
  moreover have "int_handlers k' n = kernel_handlers n \<and> handlers k' n = 0" if "n < 256" for n
    using that f(1,2) k4(7,8) h2 k1(3) by (simp add: kernel_handlers_def)
  moreover have "gate_to (l_isr lk n) (idt_entries k' n)" if "n < 241" for n
    using that f(3) k4(9) h2(3) k1(2) [rule_format, of n] by simp
  ultimately show ?thesis using run ok f(4-7) k4(4-6,10,11) k2(4) sched by (intro exI [of _ k'] exI [of _ p] exI [of _ f]) simp
qed

end
