(* ===== verification/System_Samples.thy ===== *)
theory System_Samples
  imports Samples Boot
begin

text \<open>
  A kernel with two user processes on the memory of \<open>live_kernel\<close>: process \<open>0x100\<close> has no name and runs on every
  CPU, process \<open>0x200\<close> has the name of one byte that is also in memory at \<open>0x9FC64\<close>. Each has one
  connection, to read from stream \<open>0x500\<close>, which holds two bytes, and to write to the empty stream \<open>0x600\<close>.
\<close>

definition sample_stream :: stream where
  "sample_stream = \<lparr>rd = 0, wr = 3, buf = (\<lambda>i. if i = 1 then 7 else if i = 2 then 8 else 0)\<rparr>"

definition user_proc :: "uint8 \<Rightarrow> process" where
  "user_proc c = sample_process\<lparr>proc_name := (\<lambda>i. if i = 0 then c else 0),
     iodescr := (\<lambda>i. if i = 0 then \<lparr>io_input = 0x500, io_output = 0x600\<rparr> else \<lparr>io_input = 0, io_output = 0\<rparr>)\<rparr>"

definition user_kernel :: kernel where
  "user_kernel = live_kernel\<lparr>procs := (\<lambda>p. if p = 0x200 then user_proc 2 else user_proc 0),
     processes := (\<lambda>i. if i = 1 then 0x100 else if i = 2 then 0x200 else 0),
     streams := (\<lambda>d. if d = 0x500 then sample_stream else stream_new)\<rparr>"

text \<open>The registers of a call.\<close>

definition call_regs :: "uint32 \<Rightarrow> uint32 \<Rightarrow> uint32 \<Rightarrow> uint32 \<Rightarrow> thread_state" where
  "call_regs a b c d =
     \<lparr>st_tpr = 0, st_ds = 0x23, st_edi = 0, st_esi = 0, st_ebp = 0, st_esp = 0, st_ebx = b, st_edx = d, st_ecx = c, st_eax = a,
      st_int_id = 80, st_err = 0, st_eip = 0, st_cs = 0x1b, st_eflags = 0x200, st_useresp = 0, st_ss = 0x23\<rparr>"

lemma call_regs_simps [simp]:
  "st_eax (call_regs a b c d) = a" "st_ebx (call_regs a b c d) = b" "st_ecx (call_regs a b c d) = c" "st_edx (call_regs a b c d) = d"
  by (simp_all add: call_regs_def)

lemma sample_stream_ok: "stream_ok sample_stream" "stream_contents sample_stream = [7, 8]"
  by (simp_all add: sample_stream_def stream_ok_def stream_contents_def stored_def upt_rec)

lemma user_room: "n \<le> 100 \<Longrightarrow> room_for n live_kernel" "n \<le> 100 \<Longrightarrow> room_for n user_kernel"
proof -
  show l: "n \<le> 100 \<Longrightarrow> room_for n live_kernel" using live_init(1) by (rule room_for_mono)
  have "room_for n user_kernel = room_for n live_kernel" by (rule room_for_cong) (simp_all add: user_kernel_def)
  then show "n \<le> 100 \<Longrightarrow> room_for n user_kernel" using l by simp
qed

lemma user_memory:
  "kmem_ok user_kernel" "vread8 v user_kernel = vread8 v live_kernel" "mmu_translate v user_kernel = mmu_translate v live_kernel"
  "private_at p user_kernel = private_at p live_kernel"
proof -
  have "room_for 0 user_kernel" using user_room(2) by simp
  then show "kmem_ok user_kernel" by (simp add: room_for_def)
  show "vread8 v user_kernel = vread8 v live_kernel" "mmu_translate v user_kernel = mmu_translate v live_kernel"
    by (rule below_heap_cong; simp add: user_kernel_def)+
  show "private_at p user_kernel = private_at p live_kernel"
    by (simp add: private_at_def frames_def pdir_def pde_def user_kernel_def)
qed

lemma user_fields:
  "sched_cur_thread i user_kernel = 0x9000" "sched_cur_proc i user_kernel = 0x100" "streams user_kernel 0x600 = stream_new"
  "streams user_kernel 0x500 = sample_stream" "procs user_kernel 0x100 = user_proc 0" "procs user_kernel 0x200 = user_proc 2"
  "processes user_kernel i = (if i = 1 then 0x100 else if i = 2 then 0x200 else 0)"
  "iodescr (user_proc c) 0 = \<lparr>io_input = 0x500, io_output = 0x600\<rparr>"
  using live_fields(8,9)
  by (simp_all add: user_kernel_def user_proc_def sched_cur_thread_def sched_cur_proc_def sample_kernel_def sample_sched_def sample_thread_def)

text \<open>The signature of the firmware is in memory, and so is the name of the second process.\<close>

lemma firmware_bytes:
  "vread8 0x9FC00 live_kernel = Inr 0x5F" "vread8 0x9FC01 live_kernel = Inr 0x4D" "vread8 0x9FC02 live_kernel = Inr 0x50"
  "vread8 0x9FC03 live_kernel = Inr 0x5F" "vread8 0x9FC64 live_kernel = Inr 2" "vread8 0x9FC65 live_kernel = Inr 0"
  using live_below(2) [of "0x9FC00"] live_below(2) [of "0x9FC01"] live_below(2) [of "0x9FC02"] live_below(2) [of "0x9FC03"]
    live_below(2) [of "0x9FC64"] live_below(2) [of "0x9FC65"]
  by (simp_all add: frame_of_def sample_phys_def sample_words_def get_byte_def drop_bit_eq_div)

lemma user_signature: "\<forall>i<4. vread8 (0x9FC00 + of_nat i) user_kernel = Inr ([0x5F, 0x4D, 0x50, 0x5F] ! i)"
  using firmware_bytes by (auto simp: user_memory(2) less_Suc_eq numeral_eq_Suc)

lemma user_name: "cstring (user_string 0x9FC64 user_kernel) [2]"
  using firmware_bytes by (simp add: cstring_def user_string_def user_memory(2))

lemma user_buffer: "buffer_at 0x150000 4 user_kernel"
proof -
  have a: "(0x150000 + of_nat i :: uint32) < 0x400000" "frame_of (0x150000 + of_nat i) = 336" if "i < 4" for i
  proof -
    have "unat (0x150000 + of_nat i :: uint32) = 1376256 + i" using that by (simp add: unat_word_ariths unat_of_nat)
    then show "(0x150000 + of_nat i :: uint32) < 0x400000" "frame_of (0x150000 + of_nat i) = 336"
      using that by (simp_all add: word_less_nat_alt frame_of_def)
  qed
  then have "mmu_translate (0x150000 + of_nat i) user_kernel = Some (0x150000 + of_nat i)" "private_at (0x150000 + of_nat i) user_kernel"
      if "i < 4" for i
    using that live_init(4) live_init(5) [of "0x150000 + of_nat i"] by (simp_all add: user_memory)
  moreover have "(0x150000 + of_nat i :: uint32) < HEAP_LIMIT" if "i < 4" for i using a(1) [OF that] by (rule less_trans) simp
  moreover have "i = j" if "i < 4" "j < 4" "(of_nat i :: uint32) = of_nat j" for i j :: nat
    using that by (simp add: word_unat_eq_iff unat_of_nat)
  ultimately show ?thesis by (auto simp: buffer_at_def)
qed

lemma user_named: "c \<noteq> 0 \<Longrightarrow> named (user_proc c) [c]" "named (user_proc 0) []"
  by (simp_all add: named_def cstring_def name_reader_def name_bytes_def user_proc_def)

lemma not_named: "\<not> named (user_proc 0) [2]" "\<not> named (user_proc 2) [65]"
  by (auto simp: named_def cstring_def user_proc_def name_reader_def name_bytes_def)

lemma user_lookup: "proc_get_by_name 2 (user_string 0x9FC64 user_kernel) user_kernel = Inr 0x200"
proof -
  have names: "\<exists>ys. named (procs user_kernel (processes user_kernel j)) ys" if "processes user_kernel j \<noteq> 0" for j
    using that user_named(1) [of 2] user_named(2) by (auto simp: user_fields split: if_splits)
  have first: "\<not> named (procs user_kernel (processes user_kernel j)) [2]" if "1 \<le> j \<and> j < 2 \<and> processes user_kernel j \<noteq> 0" for j
  proof -
    have "j = 1" using that by auto
    then show ?thesis using not_named(1) by (simp add: user_fields)
  qed
  have "by_name_from 2 (user_string 0x9FC64 user_kernel) 1 user_kernel = Inr (processes user_kernel 2)"
    using names first user_named(1) [of 2] by (intro by_name_from_first [OF user_name]) (auto simp: user_fields)
  then show ?thesis by (simp add: proc_get_by_name_def user_fields)
qed

text \<open>The tables of the firmware, as \<open>cpu_find\<close> reads them.\<close>

lemmas live_eval = live_below(2) frame_of_def sample_phys_def sample_words_def get_byte_def drop_bit_eq_div push_bit_eq_mult

lemma live_firmware:
  "vread32 (0x9FC00 + 4) live_kernel = Inr 0x9FC10" "vread16 (0x9FC10 + 34) live_kernel = Inr 3"
  "proc_entries live_kernel (0x9FC10 + 44) [0, 1]" "table_byte live_kernel (0x9FC10 + 44 + 20 * of_nat (length [0, 1 :: uint8])) 2"
proof -
  show "vread32 (0x9FC00 + 4) live_kernel = Inr 0x9FC10" "vread16 (0x9FC10 + 34) live_kernel = Inr 3"
    by (simp_all add: vread32_def vread16_def live_eval)
  have b: "table_byte live_kernel 0x9FC3C 0" "table_byte live_kernel 0x9FC3D 0" "table_byte live_kernel 0x9FC50 0" "table_byte live_kernel 0x9FC51 1"
      "table_byte live_kernel 0x9FC64 2"
    using live_below(1) by (simp_all add: table_byte_def live_eval)
  have "proc_entries live_kernel 0x9FC64 []" by (simp add: proc_entries_def)
  then show "proc_entries live_kernel (0x9FC10 + 44) [0, 1]" "table_byte live_kernel (0x9FC10 + 44 + 20 * of_nat (length [0, 1 :: uint8])) 2"
    using b by (simp_all add: proc_entries_Cons)
qed

lemma live_mp_find: "mp_find live_kernel = Inr 0x9FC00"
proof -
  define m where "m v = get_byte (unat (v AND 3)) (sample_phys (v AND 0xFFFFFFFC))" for v
  have rd: "vread8 v live_kernel = Inr (m v)" if "v < 0x100002" for v
  proof -
    have "unat v < 1048578" using that by (simp add: word_less_nat_alt)
    then have "frame_of v \<le> 256" "v < 0x200000" by (simp_all add: frame_of_def div_le_mono word_less_nat_alt less_Suc_eq_le [symmetric] div_less_iff_less_mult)
    then show ?thesis using live_below(2) [of v] by (simp add: m_def)
  qed
  have "signed_at m 0x9FC00" by (simp add: signed_at_def m_def mp_signature_def live_eval)
  then have "\<not> none_signed m 0x9FC00 0xA0000" "\<And>a. first_signed m 0x9FC00 0xA0000 a \<Longrightarrow> a = 0x9FC00"
    by (auto simp: none_signed_def first_signed_def intro: exI [of _ "0x9FC00"] dest: spec [of _ "0x9FC00"])
  then show ?thesis using mp_find_eq [OF rd] by auto
qed

text \<open>The image of a program.\<close>

definition sample_header :: section_header where
  "sample_header = \<lparr>sh_name = text_name, sh_addr = 0x8048000, sh_offset = 0x80, sh_size = 0x1234\<rparr>"

lemma sample_image: "elf_image 0x151000 [sample_header] live_kernel"
proof -
  have "vread32 0x151020 live_kernel = Inr 0x40" "vread16 0x151032 live_kernel = Inr 0" "vread32 0x151050 live_kernel = Inr 0x80"
      "vread16 0x151030 live_kernel = Inr 1" "vread32 0x151040 live_kernel = Inr 0" "vread32 0x15104C live_kernel = Inr 0x8048000"
      "vread32 0x151054 live_kernel = Inr 0x1234"
    by (simp_all add: vread32_def vread16_def live_eval)
  moreover have "cstring (mem_string 0x151080 live_kernel) text_name"
  proof -
    have "vread8 0x151080 live_kernel = Inr 46" "vread8 0x151081 live_kernel = Inr 116" "vread8 0x151082 live_kernel = Inr 101"
        "vread8 0x151083 live_kernel = Inr 120" "vread8 0x151084 live_kernel = Inr 116" "vread8 0x151085 live_kernel = Inr 0"
      by (simp_all add: live_eval)
    then have "\<forall>i<5. vread8 (0x151080 + of_nat i) live_kernel = Inr ([46, 116, 101, 120, 116] ! i)"
      by (auto simp: less_Suc_eq numeral_eq_Suc)
    then show ?thesis using \<open>vread8 0x151085 live_kernel = Inr 0\<close> by (simp add: cstring_def text_name_def mem_string_def)
  qed
  ultimately show ?thesis
    by (auto simp: elf_image_def header_at_def sample_header_def intro!: exI [of _ "0x40"] exI [of _ "0x80"] exI [of _ 0])
qed

definition quiet_device :: device where
  "quiet_device io port = 0"

definition sample_link :: link_addresses where
  "sample_link = \<lparr>l_gdt = 0xC0110000, l_tss = 0xC0110100, l_idt = 0xC0111000, l_isr = (\<lambda>n. 0xC0120000 + 16 * of_nat n),
     l_kpage_dir = 0x101000, l_leave_kernel = 0xC0100000, l_idle_loop = 0xC0101000, l_trampoline = 0xC0102000,
     l_trampoline_end = 0xC0102100, l_fake_gdt = 0xC0103000, l_fake_gdt_end = 0xC0103020\<rparr>"

end
