(* ===== verification/Spec2Isabelle.thy ===== *)
theory Spec2Isabelle
  imports Clone Message Servers Snake Tokens Libc System_Samples
begin

text \<open>
  VSOP is a small kernel for 32-bit x86 machines with several processors, with message passing between processes, and
  a few programs that run on it. The sources are C under \<^verbatim>\<open>src/kernel\<close>, \<^verbatim>\<open>src/libc\<close> and \<^verbatim>\<open>src/userspace\<close>. This development models
  them as functions and step relations of HOL and proves what makes each part correct. This theory holds the properties,
  each with an instance on a concrete input where it has hypotheses.

  \<^bold>\<open>The program and its parts.\<close> The boot loader starts \<open>kmain\<close> with a memory map and a list of programs in memory.
  \<open>kmain\<close> sets up memory (frames, then page tables, then the kernel heap, each on top of the one before), the segment and interrupt
  tables, the scheduler, the timer and the system calls, starts the other processors and loads the programs. From then on
  everything happens in interrupts: the timer tick switches threads, and system calls of the programs register and
  look up processes by name, connect them by pairs of streams, and read and write those streams, waiting when a stream is empty
  or full. Drivers are programs that are told of device interrupts through a stream. The programs are a text server, a picture
  server, a keyboard driver, a game and a ring of processes that pass a token.

  \<^bold>\<open>Theories and sources.\<close>
  \<^item> \<open>Prelude\<close>: integer types of \<^verbatim>\<open>config.h\<close>, the result type \<open>'a res\<close> of a routine, lemmas on words and lists.
  \<^item> \<open>Locks\<close> (\<^verbatim>\<open>locks.c\<close>): the effect of the spin lock, and its steps on many processors.
  \<^item> \<open>Palloc\<close> (\<^verbatim>\<open>palloc.c\<close>): the bit map of the frames, record \<open>palloc\<close>; interface \<open>frame_pool\<close>.
  \<^item> \<open>Paging\<close>, \<open>Clone\<close> (\<^verbatim>\<open>paging.c\<close>): physical memory and \<open>cr3\<close>, record \<open>machine\<close>, a model of the page walk of the hardware, and the
    routines that edit the tables through the mapping of the directory in itself.
  \<^item> \<open>Kmalloc\<close> (\<^verbatim>\<open>kmalloc.c\<close>): the buddy allocator with its array of nodes and list heads.
  \<^item> \<open>Memory\<close>, \<open>Low\<close> (\<^verbatim>\<open>memory.c\<close>): record \<open>kmem\<close>, \<open>kbrk\<close>, \<open>kmalloc\<close>, \<open>kfree\<close>, \<open>mem_init\<close>, and what allocation leaves alone.
  \<^item> \<open>Util\<close> (\<^verbatim>\<open>util.c\<close>): strings, numbers, formats, copies. \<open>Message\<close> (\<^verbatim>\<open>message.c\<close>): copies of buffers in the heap. \<open>Screen\<close> (\<^verbatim>\<open>screen.c\<close>): the console of the kernel.
  \<^item> \<open>Fifo\<close>: the interface \<open>fifo\<close> of a queue; \<open>KList\<close> (\<^verbatim>\<open>list.c\<close>) and \<open>Stream\<close> (\<^verbatim>\<open>stream.c\<close>) are its two interpretations. \<open>KList\<close> relies on the allocator
    only through the interface \<open>block_heap\<close>, interpreted by \<open>kmalloc\<close>.
  \<^item> \<open>Gdt\<close> (\<^verbatim>\<open>gdt.c\<close>), \<open>Idt\<close> (\<^verbatim>\<open>interrupts.c\<close>, \<^verbatim>\<open>isr_impl.c\<close>, \<^verbatim>\<open>isr_list.h\<close>), \<open>Apic\<close>, \<open>Interrupts\<close> (\<^verbatim>\<open>interrupts.c\<close>, \<^verbatim>\<open>ports.h\<close>), \<open>Timer\<close> (\<^verbatim>\<open>timer.c\<close>).
  \<^item> \<open>Kernel\<close>: the record \<open>kernel\<close>, which extends \<open>kmem\<close> by the variables of all other files. \<open>Process\<close> (\<^verbatim>\<open>process.c\<close>), \<open>Thread\<close> (\<^verbatim>\<open>thread.c\<close>),
    \<open>Scheduler\<close> (\<^verbatim>\<open>scheduler.c\<close>), \<open>Syscall\<close> (\<^verbatim>\<open>syscall.c\<close>, \<^verbatim>\<open>drivers.c\<close>, the transfer loops of \<^verbatim>\<open>stream.c\<close> and \<open>irq_handler\<close> of \<^verbatim>\<open>interrupts.c\<close>), \<open>Elf\<close> (\<^verbatim>\<open>elf.c\<close>), \<open>Cpu\<close> and \<open>Barrier\<close> (\<^verbatim>\<open>cpu.c\<close>),
    \<open>Mboot\<close> (\<^verbatim>\<open>mboot.c\<close>), \<open>Boot\<close> (\<^verbatim>\<open>kmain.c\<close>).
  \<^item> \<open>Libc\<close> (\<^verbatim>\<open>libc/syscalls.c\<close>, \<^verbatim>\<open>libc/utils.c\<close>), \<open>Srv_Screen\<close> and \<open>Servers\<close> (\<^verbatim>\<open>srv_screen.c\<close>, \<^verbatim>\<open>srv_fullscreen.c\<close>), \<open>Snake\<close> (\<^verbatim>\<open>snake.c\<close>, \<^verbatim>\<open>srv_keyboard.c\<close>), \<open>Tokens\<close> (\<^verbatim>\<open>token_0.c\<close> to
    \<^verbatim>\<open>token_9.c\<close>, \<^verbatim>\<open>token_common.h\<close>).
  \<^item> \<open>Samples\<close>, \<open>System_Samples\<close>: concrete machines for the instances.

  \<^bold>\<open>State and operations.\<close> A routine is a function from its arguments and the state to a result of type \<open>'a res\<close>: \<open>Inr\<close> what it
  returns and the new state, or \<open>Inl\<close> why it does not return, a loop without end, an index outside an array, a null pointer, a page
  fault, or a wait for another thread. That a routine returns is therefore part of what is proved. Structures are records, pointers
  are 32-bit words, heap objects other than raw memory are maps from addresses to records (\<open>procs\<close>, \<open>threads\<close>, \<open>streams\<close>, the cells of a list), and
  the routines that allocate them go through \<open>kmalloc\<close>. Integers have the width of the C type. What runs concurrently is a step
  relation whose steps are the single accesses: the lock, reader and writer of a stream, the barrier of the processors, the processes of the
  token ring. A system call that waits returns \<open>Waits\<close> with the rest of its work; \<open>syscall_resume\<close> continues it.

  \<^bold>\<open>What is shown.\<close>
  \<^item> Memory: allocation and release keep the invariant \<open>kmem_ok\<close>, zero the block and leave all other bytes alone; the free lists are
    canonical; mappings do what they say and nothing else; a cloned directory shares the kernel and owns its frame; frames are never handed out twice;
    start-up frees exactly the usable frames.
  \<^item> Concurrency: mutual exclusion, order and completion of streams under any interleaving, the barrier, and for the token ring a
    refinement of a single token, freedom from deadlock, and that the token visits each process again and again.
  \<^item> Scheduling: round robin within the highest priority, no thread lost, the address space and stack that belong to the
    thread, balancing.
  \<^item> System calls and processes: each call against its specification, on all branches, registration and lookup, thread creation, and a
    message from one program to another through the stubs, the interrupt, the call and the stream.
  \<^item> Start-up: the services of \<open>kmain\<close>, selectors and descriptors, discovery of processors, sections of programs, protection of
    what the boot loader left.
  \<^item> Text: comparison, numbers, the console, the text server as a terminal, the game.
  Where the code does not do what it means to, the theorem states what it does, and its text says so.

  \<^bold>\<open>Fuel and bounds.\<close> Recursion of \<open>mem_alloc\<close> has fuel; more than \<open>alloc_pages\<close> of the list is enough (\<open>kmalloc_ok\<close>), and callers that ask for
  at most a page use 2. String loops need one more than the length of the string. The loop of \<open>sched_tick\<close> needs one more than the
  number of blocked threads before the first ready one, and no fuel is enough when all are blocked (\<open>tick_loop_blocked\<close>). The scan for a bit, the search of a list
  by size and the digits of \<open>int2str\<close> are partial functions with values wherever they are used. Loops with a counter are structural. \<open>room_for n\<close> says that memory suffices for
  \<open>n\<close> more allocations of at most a page; the bounds of the hypotheses are those of the code (32 descriptors, 1022 bytes in a stream, 64 bytes of name).

  \<^bold>\<open>Parameters.\<close> What is not in the sources is an argument: the answers of devices to port reads (\<open>device\<close>), the addresses the linker
  chooses (\<open>link_addresses\<close>), the memory map and the modules of the boot loader, the contents of memory at start, the time.

  \<^bold>\<open>Not modelled.\<close> The assembly routines (\<^verbatim>\<open>entry.s\<close>, \<^verbatim>\<open>isr.s\<close>, \<^verbatim>\<open>cpu_asm.s\<close>, \<^verbatim>\<open>gdt_asm.s\<close>, the exchange of the registers in \<open>_task_switch\<close>, \<^verbatim>\<open>libc/entry.c\<close>, \<^verbatim>\<open>libc/ports.c\<close>): the model has the state they are given
  and leave. The TLB (the code invalidates after each change), the interrupt flag and \<open>cr0\<close>; \<open>cr3\<close> is that of the processor that runs. Messages
  that handlers and dump routines print (\<open>regs_print\<close>, \<open>mem_phys_dump\<close>, \<open>list_print\<close>), as they change no state but the console.
  The programs \<^verbatim>\<open>ping.c\<close>, \<^verbatim>\<open>streamer_in.c\<close>, \<^verbatim>\<open>streamer_out.c\<close> and \<^verbatim>\<open>srv_loop.c\<close>, which are sequences of system calls with no state of their own, and
  \<^verbatim>\<open>pong.c\<close> and \<^verbatim>\<open>srv_keyboard2.c\<close>, which do not compile.
\<close>

section \<open>Kernel memory\<close>

text \<open>C1. \<open>kmalloc\<close> (\<^verbatim>\<open>memory.c\<close>): with enough address space, frames and nodes it returns a block of
  the list for the size that was free or is new, the block is zeroed, every other byte of the
  heap keeps its value, exactly the block leaves the set of free bytes, the invariant of the
  kernel memory holds again, the lock is released and \<open>stats\<close> counts the request.\<close>

theorem kmalloc_correct:
  assumes "kmem_ok s" "mem_lock s = 0" "can_alloc sz s" "alloc_pages (level_of (unat sz)) < fuel"
  shows "\<exists>p s'. kmalloc fuel sz s = Inr (p, s') \<and> kmem_ok s' \<and> mem_lock s' = 0 \<and> stats s' = stats s + sz \<and>
    p \<noteq> 0 \<and> block_fits (level_of (unat sz), unat p) \<and>
    block (level_of (unat sz), unat p) \<subseteq> bytes (free_blocks (allocator s)) \<union> new_bytes s s' \<and>
    bytes (free_blocks (allocator s')) =
      bytes (free_blocks (allocator s)) \<union> new_bytes s s' - block (level_of (unat sz), unat p) \<and>
    (\<forall>v. unat p \<le> unat v \<longrightarrow> unat v < unat p + unat sz \<longrightarrow> vread8 v s' = Inr 0) \<and>
    (\<forall>v\<in>heap_region s. \<not> (unat p \<le> unat v \<and> unat v < unat p + unat sz) \<longrightarrow> vread8 v s' = vread8 v s)"
  using kmalloc_ok [OF assms] by blast

theorem kmalloc_correct_witness:
  "\<exists>p s'. kmalloc 2 100 sample_kmem = Inr (p, s') \<and> kmem_ok s' \<and> p \<noteq> 0 \<and> vread8 p s' = Inr 0 \<and>
    bytes (free_blocks (allocator s')) = new_bytes sample_kmem s' - block (level_of 100, unat p)"
proof -
  obtain p s' where "kmalloc 2 100 sample_kmem = Inr (p, s')" "kmem_ok s'" "p \<noteq> 0"
      "bytes (free_blocks (allocator s')) = bytes (free_blocks (allocator sample_kmem)) \<union> new_bytes sample_kmem s'
         - block (level_of 100, unat p)"
      "\<forall>v. unat p \<le> unat v \<longrightarrow> unat v < unat p + 100 \<longrightarrow> vread8 v s' = Inr 0"
    using kmalloc_correct [of sample_kmem 100 2] sample_init sample_can_alloc [of 100] small_level(2) [of 100] by auto
  moreover have "vread8 p s' = Inr 0" using calculation by simp
  ultimately show ?thesis using sample_init(4) by auto
qed

text \<open>C2. \<open>kfree\<close> of a block that is not free: it returns, puts exactly the bytes of the block back
  and keeps the invariant, in particular buddies are merged; the contents of memory, the page
  tables and the heap stay as they are, and \<open>stats\<close> is lowered.\<close>

theorem kfree_correct:
  assumes "kmem_ok s" "mem_lock s = 0" "unat sz \<le> 2 ^ 18" "0 < free_nodes (allocator s)"
    "block_fits (level_of (unat sz), unat p)"
    "block (level_of (unat sz), unat p) \<inter> bytes (free_blocks (allocator s)) = {}"
    "block (level_of (unat sz), unat p) \<subseteq> unat ` heap_region s"
  shows "\<exists>a. kfree p sz s = Inr (s\<lparr>stats := stats s - sz, allocator := a\<rparr>) \<and>
    kmem_ok (s\<lparr>stats := stats s - sz, allocator := a\<rparr>) \<and> all_coalesced (free_blocks a) \<and>
    bytes (free_blocks a) = block (level_of (unat sz), unat p) \<union> bytes (free_blocks (allocator s))"
  using kfree_ok [OF assms] by (auto simp: kmem_ok_def heap_ok_def)

theorem kfree_correct_witness:
  "\<exists>p s' a. kmalloc 2 100 sample_kmem = Inr (p, s') \<and> kfree p 100 s' = Inr (s'\<lparr>stats := stats s' - 100, allocator := a\<rparr>) \<and>
    bytes (free_blocks a) = block (level_of 100, unat p) \<union> bytes (free_blocks (allocator s'))"
proof -
  obtain p s' where s': "kmalloc 2 100 sample_kmem = Inr (p, s')" "allocated p 100 s'"
    using sample_allocated [of 100] by auto
  then show ?thesis using kfree_correct [of s' 100 p] by (auto simp: allocated_def)
qed

text \<open>C3. Round trip: \<open>kfree\<close> after \<open>kmalloc\<close> restores \<open>stats\<close> and the set of free bytes, up to the
  pages that \<open>kmalloc\<close> added to the heap. Without new pages the free lists hold the same blocks
  as before: every split is undone.\<close>

theorem kmalloc_kfree_roundtrip:
  assumes "kmem_ok s" "mem_lock s = 0" "can_alloc sz s" "alloc_pages (level_of (unat sz)) < fuel"
  shows "\<exists>p s' s''. kmalloc fuel sz s = Inr (p, s') \<and> kfree p sz s' = Inr s'' \<and> kmem_ok s'' \<and>
    mem_lock s'' = 0 \<and> stats s'' = stats s \<and>
    bytes (free_blocks (allocator s'')) = bytes (free_blocks (allocator s)) \<union> new_bytes s s' \<and>
    (heap s'' = heap s \<longrightarrow> free_blocks (allocator s'') = free_blocks (allocator s))"
proof -
  obtain p s' where s': "kmalloc fuel sz s = Inr (p, s')" "allocated p sz s'" "stats s' = stats s + sz"
      "block (level_of (unat sz), unat p) \<union> bytes (free_blocks (allocator s')) =
       bytes (free_blocks (allocator s)) \<union> new_bytes s s'"
    using kmalloc_allocated [OF assms] by auto
  then obtain a where a: "kfree p sz s' = Inr (s'\<lparr>stats := stats s' - sz, allocator := a\<rparr>)"
      "kmem_ok (s'\<lparr>stats := stats s' - sz, allocator := a\<rparr>)"
      "bytes (free_blocks a) = block (level_of (unat sz), unat p) \<union> bytes (free_blocks (allocator s'))"
    using kfree_ok [of s' sz p] by (auto simp: allocated_def)
  have "free_blocks a = free_blocks (allocator s)" if "heap s' = heap s"
    using a(2,3) assms(1) s'(4) that
    by (intro free_blocks_canonical) (auto simp: kmem_ok_def new_bytes_def)
  then show ?thesis using s' a by (auto simp: allocated_def)
qed

theorem kmalloc_kfree_roundtrip_witness:
  "\<exists>p s' s''. kmalloc 2 100 sample_kmem = Inr (p, s') \<and> kfree p 100 s' = Inr s'' \<and>
    bytes (free_blocks (allocator s'')) = new_bytes sample_kmem s'"
  using kmalloc_kfree_roundtrip [of sample_kmem 100 2] sample_init sample_can_alloc [of 100] small_level(2) [of 100]
  by auto

text \<open>C4. \<open>mem_init\<close> on the state the boot loader leaves establishes the invariant of the kernel
  memory: the heap is empty, all 4091 nodes are free, the pool holds the frames of the memory
  map without the reserved ones (less one for a page table), and the two APICs are mapped to
  their own addresses.\<close>

theorem mem_init_correct:
  assumes "boot_dir s" "palloc_ready s" "2 \<le> card (boot_pool ms s)"
    "mmap_layout mm p (p + len) ms" "length ms < fuel"
    "\<forall>v. HEAP_START \<le> v \<longrightarrow> v < HEAP_LIMIT \<longrightarrow> mmu_translate v s = None"
  shows "\<exists>s'. mem_init fuel mm p len s = Inr s' \<and> kmem_ok s' \<and> heap s' = HEAP_START \<and>
    free_blocks (allocator s') = {} \<and> free_nodes (allocator s') = 4091 \<and>
    frames s' \<subseteq> boot_pool ms s \<and> card (boot_pool ms s) \<le> card (frames s') + 1 \<and>
    mmu_translate LAPIC_BASE s' = Some LAPIC_BASE \<and> mmu_translate IOAPIC_BASE s' = Some IOAPIC_BASE"
  using mem_init_ok [OF assms] by blast

theorem mem_init_correct_witness:
  "\<exists>s'. mem_init 2 sample_mm 0x9000 24 sample_boot = Inr s' \<and> kmem_ok s' \<and> frames s' \<subseteq> {512..<4096}"
  using mem_init_correct [OF boot_memory_dir boot_memory_ready _ sample_layout, of sample_boot 2]
    boot_memory_unmapped [of sample_boot] boot_memory_pool [of sample_boot] sample_boot_memory by auto



text \<open>\<open>list_get\<close> is complete: when some aligned run of free bytes of the size of list \<open>l\<close>
  exists, it returns a block of that size, which was free, and takes exactly its bytes out;
  free neighbours never hide from it as two smaller blocks.\<close>

theorem list_get_complete:
  assumes "heap_ok a" "1 \<le> l" "l \<le> 15" "15 - l \<le> free_nodes a + 1"
    and "bsize l dvd x" "block (l, x) \<subseteq> bytes (free_blocks a)"
  shows "\<exists>addr a'. list_get l a = Inr (addr, a') \<and> heap_ok a' \<and> addr \<noteq> 0 \<and> block_fits (l, unat addr) \<and>
    block (l, unat addr) \<subseteq> bytes (free_blocks a) \<and>
    bytes (free_blocks a') = bytes (free_blocks a) - block (l, unat addr)"
proof -
  have "\<exists>b\<in>free_blocks a. l \<le> fst b"
    using covered_block [OF heap_okD(3) [OF assms(1)] _ assms(5,3,6)] assms(1) by (simp add: heap_ok_def)
  then show ?thesis using list_get_block [OF assms(1,2,4)] by (auto simp: not_less split: if_splits)
qed

theorem list_get_complete_witness:
  "\<exists>a addr a'. add_block 9 0xC3000000 (allocator sample_kmem) = Inr a \<and> list_get 1 a = Inr (addr, a') \<and> addr \<noteq> 0 \<and>
    bytes (free_blocks a') = block (9, 0xC3000000) - block (1, unat addr)"
proof -
  obtain a where a: "add_block 9 0xC3000000 (allocator sample_kmem) = Inr a" "heap_ok a"
      "bytes (free_blocks a) = block (9, 0xC3000000)" "4090 \<le> free_nodes a"
    using sample_one_page by blast
  have "block (1, 0xC3000000) \<subseteq> block (9, 0xC3000000)" by (auto simp: block_def bsize_def)
  then show ?thesis using list_get_complete [of a 1 "0xC3000000"] a by (auto simp: bsize_def)
qed

section \<open>Paging\<close>

text \<open>C6. \<open>paging_map\<close> (\<^verbatim>\<open>paging.c\<close>): afterwards the hardware translates every address of the page to
  the new frame, or faults when the entry is not present; every other address outside the
  recursive window translates as before, whether or not a page table had to be allocated, except
  that the two entries that share a table change together; the
  directory is in good order, and at most the lowest free frame was taken.\<close>

theorem paging_map_correct:
  assumes "map_ready s" "page_dir_index virt \<noteq> 1023"
  shows "\<exists>s'. paging_map virt phys flags s = Inr s' \<and> dir_ok s' \<and> cr3 s' = cr3 s \<and>
    frames s - {Min (frames s)} \<subseteq> frames s' \<and> frames s' \<subseteq> frames s \<and>
    (\<forall>v. page_dir_index v \<noteq> 1023 \<longrightarrow> \<not> twins (page_dir_index v) (page_dir_index virt) \<longrightarrow> mmu_translate v s' =
      (if v AND 0xFFFFF000 = virt AND 0xFFFFF000
       then if flags AND PAGE_PRESENT = 0 then None else Some ((phys AND 0xFFFFF000) + (v AND 0xFFF))
       else mmu_translate v s))"
proof -
  let ?s = "map_page virt (page_entry phys flags) s"
  have "dir_ok ?s" using assms by (rule map_page_ok)
  moreover have "frames s - {Min (frames s)} \<subseteq> frames ?s" "frames ?s \<subseteq> frames s"
    using frames_map_page [OF assms(1)] by (auto split: if_splits)
  ultimately show ?thesis
    using paging_map_eq [OF assms] map_page_translate [OF assms] by (auto simp: page_entry_present page_entry_base)
qed

theorem paging_map_correct_witness:
  "\<exists>s'. paging_map 0x400000 0x5000 3 sample_kmem = Inr s' \<and> mmu_translate 0x400123 s' = Some 0x5123"
proof -
  have "map_ready sample_kmem" using sample_init by (auto simp: map_ready_def kmem_ok_def)
  then obtain s' where "paging_map 0x400000 0x5000 3 sample_kmem = Inr s'"
      "\<forall>v. page_dir_index v \<noteq> 1023 \<longrightarrow> \<not> twins (page_dir_index v) (page_dir_index 0x400000) \<longrightarrow> mmu_translate v s' =
        (if v AND 0xFFFFF000 = 0x400000 AND 0xFFFFF000
         then if (3::uint32) AND PAGE_PRESENT = 0 then None else Some ((0x5000 AND 0xFFFFF000) + (v AND 0xFFF))
         else mmu_translate v sample_kmem)"
    using paging_map_correct [of sample_kmem "0x400000" "0x5000" 3] by (auto simp: page_dir_index_def)
  then show ?thesis by (auto simp: page_dir_index_def)
qed

text \<open>The queries agree with the hardware: through the recursive window \<open>paging_is_mapped\<close> and
  \<open>paging_get_phys\<close> return what the page walk of the processor computes, for every address.\<close>

theorem paging_queries_agree:
  assumes "self_mapped s"
  shows "paging_is_mapped v s = Inr (if mmu_translate v s = None then 0 else 1) \<and>
    paging_get_phys v s = Inr (case mmu_translate v s of None \<Rightarrow> 0 | Some p \<Rightarrow> p AND 0xFFFFF000)"
  using paging_is_mapped_eq [OF assms] paging_get_phys_eq [OF assms] by blast

theorem paging_queries_agree_witness:
  "paging_is_mapped 0xC3000000 sample_boot = Inr 0 \<and> paging_get_phys 0xC3000000 sample_boot = Inr 0"
  using paging_queries_agree [of sample_boot "0xC3000000"] boot_memory_dir [OF sample_boot_memory] boot_memory_unmapped [OF sample_boot_memory, of "0xC3000000"]
  by (simp add: boot_dir_def)

text \<open>C7. \<open>page_dir_clone\<close> of the current directory: it returns a directory in a frame of its own that maps
  itself, is in good order and translates every address outside the recursive window as the
  old one does; the old directory keeps its translations, and the two temporary windows are
  gone from both.\<close>

theorem page_dir_clone_correct:
  assumes "map_ready s" "4 \<le> card (frames s)" "olddir AND 0xFFFFF000 = pdir s"
  shows "\<exists>nd s'. page_dir_clone olddir s = Inr (nd, s') \<and> frame_of nd \<in> frames s - frames s' \<and> cr3 s' = cr3 s \<and> dir_ok s' \<and>
    (\<forall>v. page_dir_index v \<noteq> 1023 \<longrightarrow> mmu_translate v s' =
      (if v AND 0xFFFFF000 = 0xcccc0000 \<or> v AND 0xFFFFF000 = 0xdddd0000 then None else mmu_translate v s)) \<and>
    dir_ok (page_dir_switch nd s') \<and>
    (\<forall>v. page_dir_index v \<noteq> 1023 \<longrightarrow> mmu_translate v (page_dir_switch nd s') = mmu_translate v s')"
proof -
  have "frames s \<noteq> {}" using assms(2) by auto
  from Min_frames_mem [OF this] page_dir_clone_ok [OF assms] show ?thesis by (fastforce simp: map_ready_def)
qed

theorem page_dir_clone_correct_witness:
  "\<exists>nd s'. page_dir_clone (pdir sample_kmem) sample_kmem = Inr (nd, s') \<and>
    mmu_translate 0xFEE00000 (page_dir_switch nd s') = mmu_translate 0xFEE00000 sample_kmem"
proof -
  have "map_ready sample_kmem" using sample_init by (auto simp: map_ready_def kmem_ok_def)
  moreover have "pdir sample_kmem AND 0xFFFFF000 = pdir sample_kmem" by (simp add: page_base_aligned)
  ultimately obtain nd s' where c: "page_dir_clone (pdir sample_kmem) sample_kmem = Inr (nd, s')"
      "\<forall>v. page_dir_index v \<noteq> 1023 \<longrightarrow> mmu_translate v s' =
        (if v AND 0xFFFFF000 = 0xcccc0000 \<or> v AND 0xFFFFF000 = 0xdddd0000 then None else mmu_translate v sample_kmem)"
      "\<forall>v. page_dir_index v \<noteq> 1023 \<longrightarrow> mmu_translate v (page_dir_switch nd s') = mmu_translate v s'"
    using page_dir_clone_correct [of sample_kmem "pdir sample_kmem"] sample_init(6) by auto
  have "page_dir_index 0xFEE00000 \<noteq> 1023" by (simp add: page_dir_index_def)
  then show ?thesis using c by (intro exI [of _ nd] exI [of _ s']) simp
qed

section \<open>Physical frames\<close>

text \<open>C8. \<open>mem_phys_alloc\<close> (\<^verbatim>\<open>palloc.c\<close>) returns the address of the lowest free frame and takes exactly
  that frame out of the pool; the lock is free again afterwards.\<close>

theorem mem_phys_alloc_correct:
  assumes "palloc_ready s" "frames s \<noteq> {}"
  shows "\<exists>addr s'. mem_phys_alloc s = Inr (addr, s') \<and> page_aligned addr \<and> frame_of addr = Min (frames s) \<and>
    frames s' = frames s - {frame_of addr} \<and> palloc_ready s'"
proof -
  have "Min (frames s) < PAGES" using Min_frames_mem [OF assms(2)] frames_bounded [of s] by auto
  then show ?thesis using mem_phys_alloc_lowest [OF assms] assms(1) by simp
qed

theorem mem_phys_alloc_correct_witness:
  "\<exists>addr s'. mem_phys_alloc (mem_phys_free 0x7000 sample_boot) = Inr (addr, s') \<and> frame_of addr = 7 \<and> frames s' = {}"
  using mem_phys_alloc_correct [of "mem_phys_free 0x7000 sample_boot"] boot_memory_ready [OF sample_boot_memory]
  by (auto simp: boot_memory_frames [OF sample_boot_memory] frame_of_def)

text \<open>Frames do not overlap: any number of allocations in a row, up to the size of the pool,
  succeed and return different frames, all of them from the pool.\<close>

theorem mem_phys_alloc_distinct:
  assumes "palloc_ready s" "n \<le> card (frames s)"
  shows "\<exists>ps s'. alloc_many mem_phys_alloc n s = Inr (map frame_addr ps, s') \<and> length ps = n \<and> distinct ps \<and>
    set ps \<subseteq> frames s \<and> frames s' = frames s - set ps \<and> palloc_ready s'"
  using assms by (rule pf.alloc_many_distinct)

theorem mem_phys_alloc_distinct_witness:
  "\<exists>ps s'. alloc_many mem_phys_alloc 3000 sample_kmem = Inr (map frame_addr ps, s') \<and> length ps = 3000 \<and> distinct ps"
  using mem_phys_alloc_distinct [of sample_kmem 3000] sample_init by (auto simp: kmem_ok_def)

text \<open>C9. Out of memory: with an empty pool \<open>mem_phys_alloc\<close> returns the mark \<open>0xDEADC0DE\<close> and leaves
  the lock taken, so that the next call, and every later one, spins for ever.\<close>

theorem mem_phys_alloc_exhausted:
  assumes "palloc_ready s" "frames s = {}"
  shows "\<exists>s'. mem_phys_alloc s = Inr (0xDEADC0DE, s') \<and> mem_phys_alloc s' = Inl Diverges"
  using mem_phys_alloc_none_left [OF assms] by (simp add: mem_phys_alloc_def section_enter_def)

theorem mem_phys_alloc_exhausted_witness:
  "\<exists>s'. mem_phys_alloc sample_boot = Inr (0xDEADC0DE, s') \<and> mem_phys_alloc s' = Inl Diverges"
  using mem_phys_alloc_exhausted [of sample_boot] boot_memory_ready [OF sample_boot_memory] boot_memory_frames [OF sample_boot_memory] by blast

text \<open>C10. The memory map: for an entry of type 1 that does not wrap and holds a page boundary, \<open>mem_init\<close>
  frees exactly the frames that lie in the entry as a whole.\<close>

theorem free_entry_exact:
  assumes "mmap_type m = 1" "unat (base_low m) + unat (length_low m) < 2 ^ 32" "unat (base_low m) + 4095 < 2 ^ 32"
    "4096 * ((unat (base_low m) + 4095) div 4096) \<le> unat (base_low m) + unat (length_low m)"
  shows "frames (free_entry m s) =
    frames s \<union> {p. unat (base_low m) \<le> 4096 * p \<and> 4096 * p + 4096 \<le> unat (base_low m) + unat (length_low m)}"
  using usable_exact [OF assms] by (simp add: frames_free_entry)

theorem free_entry_exact_witness:
  "frames (free_entry \<lparr>mmap_size = 20, base_low = 0x1800, base_high = 0, length_low = 0x2000, length_high = 0, mmap_type = 1\<rparr>
     sample_boot) = {2}"
proof -
  have "{p :: nat. 6144 \<le> 4096 * p \<and> 4096 * p \<le> 10240} = {2}" by auto
  then show ?thesis
    using free_entry_exact [of "\<lparr>mmap_size = 20, base_low = 0x1800, base_high = 0, length_low = 0x2000, length_high = 0, mmap_type = 1\<rparr>" sample_boot]
    by (simp add: boot_memory_frames [OF sample_boot_memory])
qed

text \<open>A defect of \<open>mem_init\<close>: for an entry of type 1 that contains no page boundary the difference of
  the two aligned ends wraps around, and every frame but one is freed, memory that does not
  exist included.\<close>

theorem free_entry_wraps:
  assumes "mmap_type m = 1" "0 < unat (base_low m) mod 4096"
    "unat (base_low m) mod 4096 + unat (length_low m) < 4096" "unat (base_low m) + 4096 < 2 ^ 32"
  shows "frames (free_entry m s) \<supseteq> {..<PAGES} - {frame_of (base_low m)}"
  using usable_wraps [OF assms] by (auto simp: frames_free_entry)

theorem free_entry_wraps_witness:
  "frames (free_entry \<lparr>mmap_size = 20, base_low = 0x500, base_high = 0, length_low = 0x100, length_high = 0, mmap_type = 1\<rparr>
     sample_boot) \<supseteq> {1..<PAGES}"
  using free_entry_wraps [of "\<lparr>mmap_size = 20, base_low = 0x500, base_high = 0, length_low = 0x100, length_high = 0, mmap_type = 1\<rparr>" sample_boot]
  by (auto simp: frame_of_def)

section \<open>Locks\<close>



text \<open>Hand-over: whenever one CPU holds the lock and another spins on it, the release of the lock
  and two steps of the spinning CPU bring it into the section.\<close>

theorem lock_hand_over:
  assumes "lock_pcs s i = Inside" "lock_pcs s j = Spin"
  shows "\<exists>t u v. lock_step s t \<and> lock_step t u \<and> lock_step u v \<and> lock_pcs v j = Inside \<and> lock_pcs v i = Outside"
  using assms by (rule lock_handover)

theorem lock_hand_over_witness:
  "\<exists>t u v. lock_step \<lparr>lock_word = 1, lock_pcs = (\<lambda>i. if i = 0 then Inside else Spin)\<rparr> t \<and> lock_step t u \<and> lock_step u v \<and>
    lock_pcs v 1 = Inside"
  using lock_hand_over [of "\<lparr>lock_word = 1, lock_pcs = (\<lambda>i. if i = 0 then Inside else Spin)\<rparr>" 0 1] by auto

section \<open>Kernel lists\<close>

text \<open>C12. A kernel list (\<^verbatim>\<open>list.c\<close>) over the kernel's allocator is a queue: any non-null pointers that
  are pushed come out again in the same order, after what the list held before, and the list
  is empty then.\<close>

theorem klist_fifo:
  assumes "klist_inv q" "length ps \<le> klist_room q" "\<forall>p\<in>set ps. p \<noteq> 0"
  shows "\<exists>q'. bindE (put_all klist_put ps q) (take_all klist_get (length (klist_contents q) + length ps)) =
      Inr (klist_contents q @ ps, q') \<and> klist_inv q' \<and> klist_contents q' = []"
  using assms by (rule kl.put_all_take_all)

theorem klist_fifo_witness:
  "\<exists>q'. bindE (put_all klist_put [0xC0100000, 0xC0200000] (empty_klist, \<lparr>elems = (\<lambda>_. \<lparr>target = 0, elem_next = 0\<rparr>), mem = sample_kmem\<rparr>))
      (take_all klist_get (Suc (Suc 0))) = Inr ([0xC0100000, 0xC0200000], q') \<and> klist_contents q' = []"
proof -
  let ?q = "(empty_klist, \<lparr>elems = (\<lambda>_. \<lparr>target = 0, elem_next = 0\<rparr>), mem = sample_kmem\<rparr>)"
  have "klist_contents ?q = []" using empty_klist_ok by simp
  moreover have "length [0xC0100000, 0xC0200000 :: ptr] \<le> klist_room ?q" using sample_room by (simp add: klist_room_def)
  ultimately show ?thesis using klist_fifo [of ?q "[0xC0100000, 0xC0200000]"] empty_klist_ok(1) by auto
qed

text \<open>Lists do not disturb each other: pushing to one list keeps the contents and the invariant of
  every other list with cells of its own, even when the push has to allocate a cell.\<close>

theorem klist_push_frame:
  assumes "list_inv (kmem_avail (mem st)) this st P" "list_inv (kmem_avail (mem st)) other st Q" "P \<inter> Q = {}"
    "0 < kmem_room (mem st)" "tg \<noteq> 0"
  shows "\<exists>this' st' P'. list_push new_list_elem tg this st = Inr (this', st') \<and>
    list_inv (kmem_avail (mem st')) this' st' P' \<and> list_contents this' st' = list_contents this st @ [tg] \<and>
    list_inv (kmem_avail (mem st')) other st' Q \<and> list_contents other st' = list_contents other st \<and> P' \<inter> Q = {}"
  using assms by (rule km.list_push_frame)

theorem klist_push_frame_witness:
  "\<exists>this' st'. list_push new_list_elem 0xC0100000 empty_klist \<lparr>elems = (\<lambda>_. \<lparr>target = 0x5000, elem_next = 0\<rparr>), mem = sample_kmem\<rparr> =
      Inr (this', st') \<and> list_contents this' st' = [0xC0100000] \<and>
    list_contents \<lparr>list_count = 1, list_lock = 0, list_head = 0x8000, list_tail = 0x8000, list_free = 0\<rparr> st' = [0x5000]"
proof -
  let ?st = "\<lparr>elems = (\<lambda>_. \<lparr>target = 0x5000, elem_next = 0\<rparr>), mem = sample_kmem\<rparr>"
  let ?l = "\<lparr>list_count = 1, list_lock = 0, list_head = 0x8000, list_tail = 0x8000, list_free = 0\<rparr>"
  have "list_cells (kmem_avail sample_kmem) ?l ?st [0x8000] []"
    by (auto simp: list_cells_def nx_def block_def bsize_def kmem_avail_def sample_init bytes_def)
  then have "list_inv (kmem_avail (mem ?st)) ?l ?st {0x8000}" unfolding list_inv_def by force
  moreover have "list_contents ?l ?st = [0x5000]" by (simp add: list_contents_def)
  moreover have "list_contents empty_klist ?st = []" by (simp add: list_contents_def empty_klist_def)
  moreover have "list_inv (kmem_avail (mem ?st)) empty_klist ?st {}" unfolding empty_klist_def by (rule empty_list_inv)
  ultimately show ?thesis
    using klist_push_frame [of ?st empty_klist "{}" ?l "{0x8000}" "0xC0100000"] sample_room by auto
qed

section \<open>Streams\<close>

text \<open>C13. Order of a stream between two threads (\<^verbatim>\<open>stream.c\<close>): in every interleaving of the single accesses
  of one writer and one reader, without any lock, what the reader has received is an initial
  part of what the writer was given, and what is missing is in the ring or still to be written.\<close>

theorem channel_order:
  assumes "chan_reach bs c"
  shows "bs = got c @ claimed c @ stream_contents (ring c) @ todo c \<and> stored (ring c) \<le> 1022"
  using chan_reach_inv [OF assms] stored_le [of "ring c"] unfolding chan_inv_def by (metis append_assoc)

theorem channel_order_witness:
  "[1, 2, 3] = got (channel_init [1, 2, 3]) @ claimed (channel_init [1, 2, 3]) @
     stream_contents (ring (channel_init [1, 2, 3])) @ todo (channel_init [1, 2, 3])"
  using channel_order [OF chan_init, of "[1, 2, 3]"] by blast

text \<open>C14. Every transfer completes: while bytes are missing, the writer or the reader can take a step,
  and every step lowers \<open>chan_work\<close>; so no interleaving deadlocks or runs for ever, and each
  ends with all bytes received.\<close>

theorem channel_progress:
  assumes "chan_reach bs c"
  shows "(got c = bs \<or> (\<exists>c'. chan_step c c')) \<and> (\<forall>c'. chan_step c c' \<longrightarrow> chan_work bs c' < chan_work bs c)"
  using chan_reach_inv [OF assms] chan_progress chan_work_step by blast

theorem channel_progress_witness:
  "\<exists>c'. chan_step (channel_init [7]) c'"
  using channel_progress [OF chan_init, of "[7]"] by (simp add: channel_init_def)

text \<open>The loop of \<open>stream_write\<close> transfers bytes until the ring holds 1022 of them: what fits is
  appended to the contents in order, the rest is left for when the thread is woken up.\<close>

theorem stream_write_correct:
  assumes "stream_ok s"
  shows "\<exists>s'. stream_write xs s = (drop (1022 - stored s) xs, s') \<and> stream_ok s' \<and>
    stream_contents s' = stream_contents s @ take (1022 - stored s) xs"
  using assms by (rule stream_write_eq)

theorem stream_write_correct_witness:
  "\<exists>s'. stream_write [1, 2, 3] stream_new = ([], s') \<and> stream_contents s' = [1, 2, 3]"
  using stream_write_correct [OF stream_new_ok(1), of "[1, 2, 3]"] stream_new_ok(2,3) by (auto simp del: stream_write.simps)

text \<open>Round trip through a stream: after a write of at most as many bytes as there is room, a read
  of all the bytes returns what was stored before and then exactly the bytes written.\<close>

theorem stream_write_read_roundtrip:
  assumes "stream_ok s" "length xs \<le> 1022 - stored s"
  shows "\<exists>s' s''. stream_write xs s = ([], s') \<and>
    stream_read (stored s + length xs) s' = (stream_contents s @ xs, 0, s'') \<and> stream_ok s'' \<and> stored s'' = 0"
proof -
  obtain s' where s': "stream_write xs s = ([], s')" "stream_ok s'" "stream_contents s' = stream_contents s @ xs"
    using stream_write_eq [OF assms(1), of xs] assms(2) by auto
  have len: "stored s' = stored s + length xs" "length (stream_contents s @ xs) = stored s + length xs"
    using s'(3) length_contents [of s] length_contents [of s'] by auto
  then obtain s'' where "stream_read (stored s + length xs) s' = (stream_contents s @ xs, 0, s'')" "stream_ok s''"
      "stream_contents s'' = []"
    using stream_read_eq [OF s'(2), of "stored s + length xs"] s'(3) by auto
  then show ?thesis using s'(1) length_contents [of s''] by auto
qed

theorem stream_write_read_roundtrip_witness:
  "\<exists>s' s''. stream_write [5, 6] stream_new = ([], s') \<and> stream_read 2 s' = ([5, 6], 0, s'')"
  using stream_write_read_roundtrip [OF stream_new_ok(1), of "[5, 6]"] stream_new_ok by (auto simp: numeral_2_eq_2)

text \<open>\<open>iostream_select\<close> returns the lowest attached descriptor with data to read, or -1 when there is
  none; it never looks past the attached ones.\<close>

theorem iostream_select_correct:
  assumes "used_slots d k" "\<forall>i<k. stream_ok (ss (io_input (d i)))"
  shows "iostream_select d ss = (if \<exists>j<k. has_data d ss j then int (LEAST j. j < k \<and> has_data d ss j) else - 1)"
  using assms by (rule iostream_select_ok)

theorem iostream_select_correct_witness:
  "iostream_select (\<lambda>i. if i = 0 then \<lparr>io_input = 0x1000, io_output = 0x2000\<rparr> else \<lparr>io_input = 0, io_output = 0\<rparr>)
     (\<lambda>_. stream_new) = - 1"
proof -
  let ?d = "\<lambda>i :: nat. if i = 0 then \<lparr>io_input = 0x1000, io_output = 0x2000\<rparr> else \<lparr>io_input = 0, io_output = 0\<rparr>"
  have "used_slots ?d 1" by (auto simp: used_slots_def)
  then show ?thesis
    using iostream_select_correct [of ?d 1 "\<lambda>_. stream_new"] stream_new_ok by (simp add: has_data_def)
qed

text \<open>\<open>iostream_attach\<close> fills the first free descriptor and returns its number; the 33rd attach is
  refused with -1 and changes nothing.\<close>

theorem iostream_attach_correct:
  assumes "used_slots d k" "inp \<noteq> 0"
  shows "iostream_attach inp outp d =
      (if k < MAX_DESCRIPTORS then (int k, d(k := \<lparr>io_input = inp, io_output = outp\<rparr>)) else (- 1, d)) \<and>
    used_slots (snd (iostream_attach inp outp d)) (min (Suc k) MAX_DESCRIPTORS)"
  using iostream_attach_ok [OF assms, of outp] assms(1) by (auto simp: used_slots_def)

theorem iostream_attach_correct_witness:
  "fst (iostream_attach 0x1000 0x2000 (\<lambda>_. \<lparr>io_input = 0, io_output = 0\<rparr>)) = 0"
proof -
  have "used_slots (\<lambda>_. \<lparr>io_input = 0, io_output = 0\<rparr>) 0" by (simp add: used_slots_def)
  then show ?thesis using iostream_attach_correct [of "\<lambda>_. \<lparr>io_input = 0, io_output = 0\<rparr>" 0 "0x1000" "0x2000"] by simp
qed

section \<open>Scheduling\<close>



text \<open>With no thread in any queue and none that returns, a tick gives the CPU to the idle thread.\<close>

theorem sched_tick_runs_idle:
  assumes "sched_ok i k" "\<forall>p<MAX_PRIORITY. queues_after i k p = []" "0 < fuel"
  shows "\<exists>k'. sched_tick fuel i k = Inr k' \<and> sched_cur_thread i k' = idle_thread (schedulers k i) \<and>
    prio_queues (schedulers k' i) = queues_after i k"
  using sched_tick_idle [OF assms] switched_thread(1,2) assms(1) by (auto simp: sched_ok_def sched_cur_thread_def)

theorem sched_tick_runs_idle_witness:
  "\<exists>k'. sched_tick 1 1 sample_kernel = Inr k' \<and> sched_cur_thread 1 k' = 0x9000"
  using sched_tick_runs_idle [OF sample_idle_ok, of 1] sample_queues by (auto simp: sample_kernel_simps)

text \<open>C16. A tick loses and duplicates no thread: the threads a scheduler owns, current, waiting or queued
  at some priority, are the same before and after, each as often, and the order of the
  scheduler is kept.\<close>

theorem sched_tick_conserves_threads:
  assumes "sched_ok i k" "sched_tick fuel i k = Inr k'"
  shows "sched_ok i k' \<and> owned i k' = owned i k"
  using sched_tick_keeps [OF assms] by blast

theorem sched_tick_conserves_threads_witness:
  "\<exists>k'. sched_tick 2 0 sample_kernel = Inr k' \<and> owned 0 k' = {#0x1000, 0x2000, 0x3000#}"
proof -
  obtain k' where "sched_tick 2 0 sample_kernel = Inr k'"
    using sched_tick_picks [OF sample_sched_ok, of 1 "[0x1000]" "0x2000" "[0x3000]" 2] sample_queues sample_blocked by auto
  then show ?thesis using sched_tick_conserves_threads [OF sample_sched_ok] sample_owned by auto
qed



text \<open>C18. Busy waiting: when every thread in the first queue that is not empty waits for an event that does
  not hold, the loop of the tick never returns, even if a thread of a lower priority could run;
  it goes on until an interrupt changes the state.\<close>

theorem sched_tick_busy_waits:
  assumes "sched_ok i k" "queues_after i k p \<noteq> []" "p < MAX_PRIORITY" "\<forall>j<p. queues_after i k j = []"
    "\<forall>b\<in>set (queues_after i k p). blocked b k"
  shows "sched_tick fuel i k = Inl Diverges"
  using assms by (rule sched_tick_blocked)

theorem sched_tick_busy_waits_witness:
  "sched_tick 1000 2 sample_kernel = Inl Diverges \<and> prio_queues (schedulers sample_kernel 2) 2 = [0x4000]"
  using sched_tick_busy_waits [OF sample_wait_ok, of 1 1000] sample_queues sample_blocked
  by (auto simp: sample_kernel_simps sample_sched_def)



text \<open>\<open>sched_thread_sleep\<close>: the thread waits exactly while the tick counter has not passed the current
  tick plus the given number. The counter has 32 bits: when the sum overflows, the thread does
  not sleep at all.\<close>

theorem sched_thread_sleep_correct:
  "\<exists>k'. sched_thread_sleep cpu n k = (2 ^ 32 \<le> unat (ticks k) + unat n, k') \<and>
    (2 ^ 32 \<le> unat (ticks k) + unat n \<or>
     (\<forall>now. blocked (sched_cur_thread cpu k) (k'\<lparr>ticks := now\<rparr>) = (unat now \<le> unat (ticks k) + unat n)))"
proof -
  have wraps: "ticks k + n < ticks k \<longleftrightarrow> 2 ^ 32 \<le> unat (ticks k) + unat n"
    using unat32_less [of n] unat32_less [of "ticks k"] by (simp add: word_less_nat_alt unat_word_ariths mod_if) linarith
  have sum: "unat (ticks k + n) = unat (ticks k) + unat n" if "\<not> 2 ^ 32 \<le> unat (ticks k) + unat n"
    using that by (simp add: unat_word_ariths)
  show ?thesis
    using wraps sum by (auto simp: sched_thread_sleep_def sched_thread_wait_def Let_def thread_timer_event_def set_thread_def
        blocked_def word_less_nat_alt not_less)
qed

section \<open>System calls\<close>







text \<open>C23. A message between two programs (\<^verbatim>\<open>libc/syscalls.c\<close>, \<^verbatim>\<open>interrupts.c\<close>, \<^verbatim>\<open>syscall.c\<close>, \<^verbatim>\<open>stream.c\<close>): a \<open>write\<close> of at most 1022 bytes to an empty stream
  returns 0, and when afterwards a program that has the stream as its input makes a \<open>read\<close> of as many bytes, on
  any CPU and in any state in which the stream is as the write left it, the call returns 0, the reader's buffer
  holds exactly the bytes of the writer's buffer, and the stream is empty again.\<close>

theorem message_passing:
  assumes "int_handlers k 80 = Syscall" "unat d < MAX_DESCRIPTORS" "length bs \<le> 1022" "\<forall>i<length bs. vread8 (b + of_nat i) k = Inr (bs ! i)"
    "io_output (iodescr (procs k (sched_cur_proc cpu k)) (unat d)) = p" "p \<noteq> 0" "stream_ok (streams k p)" "stream_contents (streams k p) = []"
  shows "\<exists>s. irq_handler dev fuel cpu (libc_write d b (of_nat (length bs)) st) k =
      Inr (ret 0 (libc_write d b (of_nat (length bs)) st) ((entered cpu k)\<lparr>streams := (streams k)(p := s)\<rparr>)) \<and>
    (\<forall>cpu' d' b' st' k'. int_handlers k' 80 = Syscall \<and> unat d' < MAX_DESCRIPTORS \<and> kmem_ok k' \<and> buffer_at b' (length bs) k' \<and>
       io_input (iodescr (procs k' (sched_cur_proc cpu' k')) (unat d')) = p \<and> streams k' p = s \<longrightarrow>
     delivered dev fuel p bs cpu' d' b' st' k')"
proof -
  obtain s where "stream_ok s" "stream_contents s = bs" "irq_handler dev fuel cpu (libc_write d b (of_nat (length bs)) st) k =
      Inr (ret 0 (libc_write d b (of_nat (length bs)) st) ((entered cpu k)\<lparr>streams := (streams k)(p := s)\<rparr>))"
    using message_written [OF assms, of dev fuel st] by blast
  then show ?thesis using message_delivered assms(6) by (intro exI [of _ s]) auto
qed

theorem message_passing_witness:
  "\<exists>k. irq_handler quiet_device 1 1 (libc_write 0 0x9FC00 4 (call_regs 0 0 0 0)) (user_kernel\<lparr>int_handlers := \<lambda>_. Syscall\<rparr>) =
      Inr (ret 0 (libc_write 0 0x9FC00 4 (call_regs 0 0 0 0)) k) \<and>
    delivered quiet_device 1 0x600 [0x5F, 0x4D, 0x50, 0x5F] 1 0 0x150000 (call_regs 0 0 0 0)
      (k\<lparr>procs := \<lambda>_. (user_proc 0)\<lparr>iodescr := \<lambda>_. \<lparr>io_input = 0x600, io_output = 0x500\<rparr>\<rparr>\<rparr>)"
proof -
  let ?k = "user_kernel\<lparr>int_handlers := \<lambda>_. Syscall\<rparr>" and ?bs = "[0x5F, 0x4D, 0x50, 0x5F] :: uint8 list"
  let ?p = "\<lambda>_ :: ptr. (user_proc 0)\<lparr>iodescr := \<lambda>_. \<lparr>io_input = 0x600, io_output = 0x500\<rparr>\<rparr>"
  have mem: "vread8 v ?k = vread8 v user_kernel" for v by (rule kmem_ok_cong) simp_all
  have "sched_cur_proc 1 ?k = sched_cur_proc 1 user_kernel" by (simp add: sched_cur_proc_def sched_cur_thread_def)
  then have "io_output (iodescr (procs ?k (sched_cur_proc 1 ?k)) (unat (0 :: uint32))) = 0x600" by (simp add: user_fields del: One_nat_def)
  moreover have "\<forall>i<length ?bs. vread8 (0x9FC00 + of_nat i) ?k = Inr (?bs ! i)" using user_signature by (simp add: mem)
  moreover have "stream_ok (streams ?k 0x600)" "stream_contents (streams ?k 0x600) = []" using stream_new_ok(1,2) by (simp_all add: user_fields)
  ultimately obtain s where s: "irq_handler quiet_device 1 1 (libc_write 0 0x9FC00 (of_nat (length ?bs)) (call_regs 0 0 0 0)) ?k =
        Inr (ret 0 (libc_write 0 0x9FC00 (of_nat (length ?bs)) (call_regs 0 0 0 0)) ((entered 1 ?k)\<lparr>streams := (streams ?k)(0x600 := s)\<rparr>))"
      and r: "\<forall>cpu' d' b' st' k'. int_handlers k' 80 = Syscall \<and> unat d' < MAX_DESCRIPTORS \<and> kmem_ok k' \<and> buffer_at b' (length ?bs) k' \<and>
         io_input (iodescr (procs k' (sched_cur_proc cpu' k')) (unat d')) = 0x600 \<and> streams k' 0x600 = s \<longrightarrow>
       delivered quiet_device 1 0x600 ?bs cpu' d' b' st' k'"
    using message_passing [of ?k 0 ?bs "0x9FC00" 1 "0x600" quiet_device 1 "call_regs 0 0 0 0"] by auto
  define k' where "k' = ((entered 1 ?k)\<lparr>streams := (streams ?k)(0x600 := s)\<rparr>)\<lparr>procs := ?p\<rparr>"
  have same: "kmem_ok k' = kmem_ok user_kernel" "mmu_translate v k' = mmu_translate v user_kernel" for v
    by (rule kmem_ok_cong; simp add: k'_def entered_def)+
  have "private_at q k' = private_at q user_kernel" for q by (simp add: k'_def private_at_def entered_def frames_def pdir_def pde_def)
  then have "buffer_at 0x150000 4 k'" using user_buffer unfolding buffer_at_def same by simp
  moreover have l: "length ?bs = 4" "of_nat 4 = (4 :: uint32)" by simp_all
  moreover have "int_handlers k' 80 = Syscall" "io_input (iodescr (procs k' (sched_cur_proc 1 k')) (unat (0 :: uint32))) = 0x600" "streams k' 0x600 = s"
    by (simp_all add: k'_def entered_def)
  ultimately have "delivered quiet_device 1 0x600 ?bs 1 0 0x150000 (call_regs 0 0 0 0) k'"
    using user_memory(1) r [unfolded l(1), rule_format, of k' 0 "0x150000" 1] by (simp add: same)
  then show ?thesis using s unfolding l k'_def by blast
qed

section \<open>Processes, threads and the start of the kernel\<close>

text \<open>C24. Registration and lookup: a process that registers a name shorter than 64 bytes is found under it, provided that
  every other process has a different name.\<close>

theorem proc_register_roundtrip:
  assumes "cstring f xs" "length xs < PROC_MAX_NAME_LEN" "length xs < fuel" "1 \<le> n" "n < MAX_PROCESSES" "processes k n = p" "p \<noteq> 0"
    "\<forall>j. 1 \<le> j \<and> j < MAX_PROCESSES \<and> processes k j \<noteq> 0 \<and> j \<noteq> n \<longrightarrow>
      processes k j \<noteq> p \<and> (\<exists>ys. named (procs k (processes k j)) ys) \<and> \<not> named (procs k (processes k j)) xs"
  shows "\<exists>k'. proc_register p f k = Inr (0, k') \<and> proc_get_by_name fuel f k' = Inr p"
proof -
  obtain k' where k': "proc_register p f k = Inr (0, k')" "named (procs k' p) xs" "\<forall>q. q \<noteq> p \<longrightarrow> procs k' q = procs k q"
      "processes k' = processes k"
    using proc_register_ok [OF assms(1,2)] by blast
  have "proc_get_by_name fuel f k' = Inr (processes k' n)"
    unfolding proc_get_by_name_def using k' assms by (intro by_name_from_first [OF assms(1,3)]) (simp_all, metis)
  then show ?thesis using k' assms(6) by auto
qed

theorem proc_register_roundtrip_witness:
  "\<exists>k'. proc_register 0x100 (literal [65]) user_kernel = Inr (0, k') \<and> proc_get_by_name 2 (literal [65]) k' = Inr 0x100"
proof -
  have "\<forall>j. 1 \<le> j \<and> j < MAX_PROCESSES \<and> processes user_kernel j \<noteq> 0 \<and> j \<noteq> 1 \<longrightarrow>
      processes user_kernel j \<noteq> 0x100 \<and> (\<exists>ys. named (procs user_kernel (processes user_kernel j)) ys) \<and>
      \<not> named (procs user_kernel (processes user_kernel j)) [65]"
    using user_named(1) [of 2] not_named(2) by (auto simp: user_fields split: if_splits)
  then show ?thesis
    using proc_register_roundtrip [of "literal [65]" "[65]" 2 1 user_kernel "0x100"] literal_cstring [of "[65]"] by (simp add: user_fields)
qed

text \<open>C25. The length of a name is tested one byte too late: registering a name of 64 bytes or more returns success and overwrites
  the low byte of the first input stream of the process.\<close>

theorem proc_register_overflows:
  assumes "cstring f xs" "PROC_MAX_NAME_LEN \<le> length xs"
  shows "\<exists>k'. proc_register p f k = Inr (0, k') \<and>
    io_input (iodescr (procs k' p) 0) =
      set_byte 0 (if PROC_MAX_NAME_LEN < length xs then xs ! PROC_MAX_NAME_LEN else 0) (io_input (iodescr (procs k p) 0))"
  using assms by (rule proc_register_overflow)

theorem proc_register_overflows_witness:
  "\<exists>k'. proc_register 0x100 (literal (replicate 65 0x41)) user_kernel = Inr (0, k') \<and> io_input (iodescr (procs k' 0x100) 0) = 0x541"
proof -
  have "set_byte 0 0x41 (0x500 :: uint32) = 0x541" by (simp add: set_byte_def)
  then show ?thesis
    using proc_register_overflows [of "literal (replicate 65 0x41)" "replicate 65 0x41" "0x100" user_kernel]
      literal_cstring [of "replicate 65 0x41"] by (simp add: user_fields)
qed



text \<open>C27. The services that \<open>kmain\<close> starts (\<^verbatim>\<open>kmain.c\<close>, from \<open>interrupts_init\<close> to \<open>sched_ready\<close>): with room for 26 allocations they all come up
  and the invariants hold. Every vector up to 240 leads to its entry routine, the table of handlers has the
  system call, the scheduler, the clock and the keyboard in their places, no driver is registered, the kernel
  process has number 0, and each of the eight schedulers is in good order, owns no thread and runs an idle thread of its
  own of the kernel process; only the one of the boot CPU is started.\<close>

theorem kmain_services_correct:
  assumes "room_for 26 k" "proc_lock k = 0" "processes k 0 = 0" "cpu < MAX_CPU"
  shows "\<exists>k' p f. kmain_services dev lk cpu k = Inr k' \<and> kmem_ok k' \<and>
    (\<forall>n<256. int_handlers k' n = kernel_handlers n \<and> handlers k' n = 0) \<and> (\<forall>n<241. gate_to (l_isr lk n) (idt_entries k' n)) \<and>
    p \<noteq> 0 \<and> processes k' = (processes k)(0 := p) \<and> procs k' p = zero_process\<lparr>pid := 0, proc_pdir := l_kpage_dir lk\<rparr> \<and>
    inj_on f {0..<MAX_CPU} \<and>
    (\<forall>i<MAX_CPU. schedulers k' i = (idle_sched (f i))\<lparr>started := if i = cpu then 1 else 0\<rparr> \<and> parent (threads k' (f i)) = p \<and>
      sched_ok i k' \<and> owned i k' = {#}) \<and> ticks k' = 0"
  using assms by (rule kmain_services_ok)

theorem kmain_services_correct_witness:
  "\<exists>k'. kmain_services quiet_device sample_link 0 live_kernel = Inr k' \<and> int_handlers k' 80 = Syscall \<and> sched_ok 7 k'"
proof -
  have "proc_lock live_kernel = 0" "processes live_kernel 0 = 0" using live_fields(5,6) by (simp_all add: sample_kernel_def)
  then show ?thesis using kmain_services_correct [of live_kernel 0 quiet_device sample_link] user_room(1) [of 26] by (auto simp: kernel_handlers_def)
qed




text \<open>C30. The barrier of \<open>cpu_sync\<close>: among \<open>n\<close> CPUs that step in any order, no CPU passes before all \<open>n\<close> have arrived, that is, have
  counted themselves, and nobody is lost in the count.\<close>

theorem cpu_sync_safe:
  assumes "sync_reach (int n) n b" "i < n" "sync_phase b i = Passed"
  shows "(\<forall>j<n. arrived (sync_phase b j)) \<and> awoken_cpu b = int n"
  using passed_all_arrived [OF assms] sync_inv_count [OF sync_reach_inv [OF assms(1)]] card_arrivals_all [of n "sync_phase b"] by simp

theorem cpu_sync_safe_witness:
  "\<exists>b. sync_reach 2 2 b \<and> sync_phase b 1 = Passed \<and> arrived (sync_phase b 0)"
proof -
  let ?b1 = "sync_init\<lparr>awoken_cpu := awoken_cpu sync_init + 1, sync_phase := (sync_phase sync_init)(0 := Spinning)\<rparr>"
  let ?b2 = "?b1\<lparr>awoken_cpu := awoken_cpu ?b1 + 1, sync_phase := (sync_phase ?b1)(1 := Spinning)\<rparr>"
  let ?b3 = "?b2\<lparr>sync_phase := (sync_phase ?b2)(1 := Passed)\<rparr>"
  have "sync_reach 2 2 ?b1" using sync_arrives [OF sync_start, of 0 2 2] by (simp add: sync_init_def)
  then have "sync_reach 2 2 ?b2" using sync_arrives [of 2 2 ?b1 1] by (simp add: sync_init_def)
  moreover have "cpu_sync 2 2 ?b2 ?b3" using sync_pass [of 1 2 ?b2 2] by (simp add: sync_init_def)
  ultimately have "sync_reach (int 2) 2 ?b3" using sync_step by simp
  then show ?thesis using cpu_sync_safe [of 2 ?b3 1] by (intro exI [of _ ?b3]) auto
qed

text \<open>C31. The barrier opens: as long as one of the \<open>n\<close> CPUs has not passed, some CPU can step, and every step makes the work that
  is left smaller, so all pass after finitely many steps.\<close>

theorem cpu_sync_progress:
  assumes "sync_reach (int n) n b" "i < n" "sync_phase b i \<noteq> Passed"
  shows "(\<exists>b'. cpu_sync (int n) n b b') \<and> (\<forall>b'. cpu_sync (int n) n b b' \<longrightarrow> sync_work n b' < sync_work n b)"
  using sync_progress [OF assms] sync_work_step by blast

theorem cpu_sync_progress_witness:
  "\<exists>b'. cpu_sync 8 8 sync_init b' \<and> sync_work 8 b' < sync_work 8 sync_init"
  using cpu_sync_progress [of 8 sync_init 3] sync_start [of 8 8] by (auto simp: sync_init_def)

section \<open>Programs and the boot loader\<close>

text \<open>C32. The sections \<open>elf_load\<close> takes from an image (\<^verbatim>\<open>elf.c\<close>): for each kind the last section header with its name decides; a section
  \<^verbatim>\<open>.bss\<close> is taken for \<^verbatim>\<open>.data\<close>, and the section for uninitialised data stays empty.\<close>

theorem elf_sections_correct:
  assumes "elf_image img hs s" "7 < fuel"
  shows "elf_sections_of fuel img s = Inr
    \<lparr>elf_text = last_named img {text_name} hs zero_section, elf_data = last_named img {data_name, bss_name} hs zero_section,
     elf_bss = zero_section, elf_rodata = last_named img {rodata_name} hs zero_section\<rparr>"
  using assms by (rule elf_sections_of_eq)

theorem elf_sections_correct_witness:
  "elf_sections_of 8 0x151000 live_kernel = Inr
    \<lparr>elf_text = \<lparr>virt_addr = 0x8048000, phys_addr = 0x151000, sect_pages = 2\<rparr>, elf_data = zero_section,
     elf_bss = zero_section, elf_rodata = zero_section\<rparr>"
  using elf_sections_correct [OF sample_image, of 8]
  by (simp add: last_named_def sample_header_def text_name_def data_name_def bss_name_def rodata_name_def section_of_def
      page_align_def page_count_def)



section \<open>Text, numbers and the screen\<close>

text \<open>C34. \<open>kstrcmp\<close> (\<^verbatim>\<open>util.c\<close>) is the comparison of strings of signed bytes: it agrees with the reference definition, swapping the arguments
  changes the sign, and it is 0 exactly for equal strings.\<close>

theorem kstrcmp_is_compare:
  assumes "cstring f xs" "cstring g ys" "min (length xs) (length ys) < fuel"
  shows "kstrcmp fuel f g = Inr (compare xs ys) \<and> kstrcmp fuel g f = Inr (- compare xs ys) \<and> (kstrcmp fuel f g = Inr 0 \<longleftrightarrow> xs = ys)"
  using kstrcmp_eq [OF assms] kstrcmp_eq [OF assms(2,1)] assms compare_swap [of xs ys] compare_0 [of xs ys]
  by (simp add: cstring_def min.commute)

theorem kstrcmp_is_compare_witness: "kstrcmp 3 (literal [97, 98]) (literal [97, 200]) = Inr 1"
proof -
  have "sint (200 :: uint8) < sint (98 :: uint8)" by simp
  then show ?thesis
    using kstrcmp_is_compare [of "literal [97, 98]" "[97, 98]" "literal [97, 200]" "[97, 200]" 3] literal_cstring [of "[97, 98]"]
      literal_cstring [of "[97, 200]"] by simp
qed

text \<open>C35. \<open>int2str\<close> writes a number so that it can be read back: for bases from 2 to 16 and numbers of at most 31 digits the bytes before the final zero are the
  digits of the number in that base, without leading zeros, and the result is their number and one.\<close>

theorem int2str_roundtrip:
  assumes "2 \<le> unat base" "unat base \<le> 16" "unat (n :: uint32) < unat base ^ 31"
  shows "\<exists>cs. int2str n base = Inr (cs @ [0], length cs + 1) \<and> number_value (unat base) cs = unat n \<and> cs \<noteq> [] \<and>
    (n \<noteq> 0 \<longrightarrow> hd cs \<noteq> digits ! 0)"
proof -
  have "length (map ((!) digits) (rev (lsd (unat base) (unat n)))) \<le> 31"
    using int2str_eq(5) [OF assms(1,2), of n 30] assms(3) by simp
  then show ?thesis using int2str_eq(1-4) [OF assms(1,2), of n] by (auto simp del: rev_map)
qed

theorem int2str_roundtrip_witness:
  "\<exists>cs. int2str 48879 16 = Inr (cs @ [0], length cs + 1) \<and> number_value 16 cs = 48879"
  using int2str_roundtrip [of 16 48879] by auto

text \<open>The text server (\<^verbatim>\<open>srv_screen.c\<close>) implements a terminal: its screen is always a window of 25 lines on a tape without end to which the
  text was written; the window only moves down, and no cell outside the screen is written.\<close>

theorem terminal_refines_tape:
  assumes "window top_line s t"
  shows "\<exists>l. top_line \<le> l \<and> window l (srv_putstr cs s) (tape_puts cs (cur_style s) t) \<and>
    cur_style (srv_putstr cs s) = cur_style s \<and> (\<forall>i\<ge>2000. videomem (srv_putstr cs s) i = videomem s i)"
  using assms by (rule srv_putstr_window)

theorem terminal_refines_tape_witness:
  "\<exists>l. window l (srv_putstr [72, 105, 10] \<lparr>cur_style = 7, cur_x = 0, cur_y = 24, videomem = (\<lambda>_. blank 7), screen_lock = 0\<rparr>)
     (tape_puts [72, 105, 10] 7 \<lparr>tape_cells = (\<lambda>_. blank 7), tape_pos = 1920\<rparr>)"
  using terminal_refines_tape [of 0 "\<lparr>cur_style = 7, cur_x = 0, cur_y = 24, videomem = (\<lambda>_. blank 7), screen_lock = 0\<rparr>"
      "\<lparr>tape_cells = (\<lambda>_. blank 7), tape_pos = 1920\<rparr>" "[72, 105, 10]"] by (auto simp: window_def cursor_def)

text \<open>C36. The kernel's console (\<^verbatim>\<open>screen.c\<close>) keeps its cursor in range and writes text to consecutive cells from the cursor on; text that ends with
  the screen spills one character over: cell 2000, the first after the screen, is written, and none after it.\<close>

theorem console_text:
  assumes "console_ok s" "unat (cur_y s) < 25" "\<forall>c\<in>set cs. 32 \<le> sint c" "cursor s + length cs \<le> 2001"
  shows "console_ok (screen_putstr cs s) \<and> videomem (screen_putstr cs s) =
    (\<lambda>i. if cursor s \<le> i \<and> i < cursor s + length cs then cell (cur_style s) (cs ! (i - cursor s)) else videomem s i)"
  using screen_putstr_ok(1) [OF assms(1)] screen_putstr_text [OF assms] by blast

theorem console_text_witness:
  "videomem (screen_putstr [65, 66] \<lparr>cur_style = 7, cur_x = 79, cur_y = 24, videomem = (\<lambda>_. 0), screen_lock = 0\<rparr>) 2000 = cell 7 66"
  using console_text [of "\<lparr>cur_style = 7, cur_x = 79, cur_y = 24, videomem = (\<lambda>_. 0), screen_lock = 0\<rparr>" "[65, 66]"]
  by (simp add: console_ok_def cursor_def)

text \<open>C37. A round of the game (\<^verbatim>\<open>snake.c\<close>) keeps it in order, whatever keys were read: the head moves one cell in the direction, wrapping at the edges, which is
  never the opposite of the last one, every other part moves to the place of the part before it, every sixteenth
  round the snake grows by one part up to 400, and the picture shows exactly the cells of the snake.\<close>

theorem snake_play_correct:
  assumes "game_ok g"
  shows "\<exists>out g'. play keys g = Inr (out, g') \<and> game_ok g' \<and> length out = 2000 \<and>
    (\<forall>c<2000. out ! c = (if c \<in> covered_cells g' then symbol g' else 32)) \<and>
    neighbour (direction g') (snake g 0) (snake g' 0) \<and>
    (\<forall>i. 0 < i \<and> i < snake_len g \<longrightarrow> snake g' i = snake g (i - 1)) \<and>
    snake_len g' = (if sint (iterations g) smod 16 = 0 then min 400 (snake_len g + 1) else snake_len g) \<and>
    \<not> (sint (pos_x (direction g')) = - sint (pos_x (direction g)) \<and> sint (pos_y (direction g')) = - sint (pos_y (direction g)))"
  using assms by (rule play_ok)

theorem snake_play_correct_witness:
  "\<exists>out g'. play None init_game = Inr (out, g') \<and> game_ok g' \<and> snake_len g' = 6"
proof -
  have "sint (iterations init_game) smod 16 = 0" "snake_len init_game = 5" by (simp_all add: init_game_def Let_def)
  then show ?thesis using snake_play_correct [OF init_game_ok, of None] by auto
qed

text \<open>
  The keyboard driver writes 256 bytes and the game reads 128 of them: the second read of the game gets the rest of the
  first message, which is zero, so that every second round sees all keys released.
\<close>

theorem keyboard_message_split:
  "\<exists>s1 s2 s3. stream_write (read_keys ops) stream_new = ([], s1) \<and> stream_read 128 s1 = (take 128 (read_keys ops), 0, s2) \<and>
    stream_read 128 s2 = (replicate 128 0, 0, s3)"
proof -
  have l: "length (read_keys ops) = 256" and z: "drop 128 (read_keys ops) = replicate 128 0"
    using read_keys_half by auto
  obtain s1 where s1: "stream_write (read_keys ops) stream_new = ([], s1)" "stream_ok s1" "stream_contents s1 = read_keys ops"
    using stream_write_eq [OF stream_new_ok(1), of "read_keys ops"] l stream_new_ok(2,3) by (auto simp del: stream_write.simps)
  then have n1: "stored s1 = 256" using l by (metis length_contents)
  obtain s2 where s2: "stream_read 128 s1 = (take 128 (read_keys ops), 0, s2)" "stream_ok s2" "stream_contents s2 = replicate 128 0"
    using stream_read_eq [OF s1(2), of 128] s1(3) n1 z by auto
  then have "stored s2 = 128" by (metis length_contents length_replicate)
  then show ?thesis using s1(1) s2 stream_read_eq [OF s2(2), of 128] by auto
qed



section \<open>The token ring\<close>

text \<open>C39. The token ring (\<^verbatim>\<open>token_0.c\<close>, \<^verbatim>\<open>token_common.h\<close>) implements a single token: in every interleaving of its processes and the text server, byte by byte, each
  reachable state stands for a position that the specification reaches (the token is not launched yet, or all its
  32 bytes, unchanged and in order, are on their way from one process to the next and no other process holds a byte),
  each step leaves the position alone or moves the token on, and no state is a deadlock.\<close>

theorem token_ring_refines:
  assumes "ring_reach p n b m r" "0 < n" "length b = 128" "length m = 64"
  shows "(\<exists>q. pass_reach n q \<and> ring_at n b q r) \<and>
    (\<forall>q r'. ring_at n b q r \<longrightarrow> ring_step p n r r' \<longrightarrow> (\<exists>q'. pass_step n q q' \<and> ring_at n b q' r')) \<and> (\<exists>r'. ring_step p n r r')"
  using ring_reach_at [OF assms] ring_step_at [OF _ assms(3)] ring_progress [OF _ assms(3)] by blast

theorem token_ring_refines_witness:
  "\<exists>r'. ring_step 0x1000 4 (ring_init (replicate 128 0) (replicate 64 0)) r'"
  using token_ring_refines [OF reach_init [of "0x1000" 4 "replicate 128 0" "replicate 64 0"]] by simp

text \<open>C40. The token goes round: in every run of a ring of at least two processes, whatever the order of the steps, each
  process gets the token again and again.\<close>

theorem token_circulates:
  assumes "1 < n" "length b = 128" "length m = 64" "ring_reach p n b m (f 0)" "\<forall>i. ring_step p n (f i) (f (Suc i))" "k < n"
  shows "\<exists>j\<ge>i. held_by n (token_bytes b) k (f j)"
proof -
  have "ring_reach p n b m (f i)" using assms(4,5) by (induction i) (auto intro: reach_step)
  then obtain q where "ring_at n b q (f i)" using ring_reach_at assms(1-3) by (metis less_trans zero_less_one)
  then show ?thesis using ring_run_visits [OF assms(1,2,5) _ assms(6)] by blast
qed

theorem token_circulates_witness:
  "\<exists>f. f 0 = ring_init (replicate 128 0) (replicate 64 0) \<and> (\<forall>i. ring_step 0x1000 4 (f i) (f (Suc i))) \<and>
    (\<exists>j. held_by 4 (token_bytes (replicate 128 0)) 3 (f j))"
proof -
  let ?b = "replicate 128 0 :: uint8 list" and ?m = "replicate 64 0 :: uint8 list"
  let ?P = "ring_reach 0x1000 4 ?b ?m"
  have "\<exists>r'. ring_step 0x1000 4 r r'" if "?P r" for r
    using ring_reach_at [OF that] ring_progress [of 4 ?b _ r "0x1000"] by auto
  then have "\<exists>r'. ?P r' \<and> ring_step 0x1000 4 r r'" if "?P r" for r using that reach_step [OF that] by blast
  then obtain f where f: "f 0 = ring_init ?b ?m" "\<forall>i. ?P (f i) \<and> ring_step 0x1000 4 (f i) (f (Suc i))"
    using dependent_nat_choice [of "\<lambda>i r. ?P r \<and> (i = 0 \<longrightarrow> r = ring_init ?b ?m)" "\<lambda>_ r r'. ring_step 0x1000 4 r r'"] reach_init
    by (metis (no_types, lifting) nat.distinct(1))
  moreover have "ring_reach 0x1000 4 ?b ?m (f 0)" using f(2) by blast
  ultimately have "\<exists>j. held_by 4 (token_bytes ?b) 3 (f j)" using token_circulates [of 4 ?b ?m "0x1000" f 3 0] by simp
  then show ?thesis using f by blast
qed

end
